(* ===== verification/Water_Prelude.thy ===== *)
theory Water_Prelude
  imports Main "HOL-Library.Word"
begin

text \<open>
  What the component theories share: the faults a C++ operation of the library can end in,
  sequencing of operations that can fault, 64-bit \<open>size_t\<close> arithmetic with its wrap-around
  written out, and the block reads, writes and copies on a byte vector together with the
  \<^emph>\<open>window\<close> lemmas by which the buffer proofs go through.
\<close>

named_theorems fault_simps \<open>equations that evaluate an operation that may fault\<close>
named_theorems size_simps \<open>equations on \<open>size_t\<close> arithmetic that does not wrap\<close>
named_theorems window_simps \<open>what a block write or copy leaves in a window of a vector\<close>

section \<open>Faults\<close>

text \<open>
  An \<open>assert\<close> that fails, an \<open>exit(-1)\<close>, an exception of the standard library and
  the kinds of undefined behaviour the code can run into are the left values of a sum.
\<close>

datatype fault =
    OutOfBounds      \<comment> \<open>a raw read or write outside the object it points into\<close>
  | OverlapCopy      \<comment> \<open>\<open>std::copy\<close> with its destination inside the source range\<close>
  | LengthError      \<comment> \<open>\<open>std::vector\<close> asked for more than \<open>max_size()\<close> elements\<close>
  | AssertFailed     \<comment> \<open>\<open>assert\<close> of a false condition\<close>
  | ProcessExit      \<comment> \<open>\<open>exit(-1)\<close>\<close>
  | NullCall         \<comment> \<open>call of an empty \<open>std::function\<close>: \<open>std::bad_function_call\<close>\<close>
  | Uninitialised    \<comment> \<open>a read of an object that was never given a value\<close>
  | TooDeep          \<comment> \<open>the recursion bound of the model is used up\<close>

type_synonym 'a res = "fault + 'a"

definition bind_res :: "'a res \<Rightarrow> ('a \<Rightarrow> 'b res) \<Rightarrow> 'b res" where
  "bind_res m f = (case m of Inl e \<Rightarrow> Inl e | Inr x \<Rightarrow> f x)"

lemma bind_res_simps [simp, fault_simps]:
  "bind_res (Inl e) f = Inl e"
  "bind_res (Inr x) f = f x"
  by (simp_all add: bind_res_def)

lemma bind_res_Inr_iff: "bind_res m f = Inr y \<longleftrightarrow> (\<exists>x. m = Inr x \<and> f x = Inr y)"
  by (cases m) auto

lemma bind_res_cong [fundef_cong]:
  "m = m' \<Longrightarrow> (\<And>x. m' = Inr x \<Longrightarrow> f x = f' x) \<Longrightarrow> bind_res m f = bind_res m' f'"
  by (cases m') auto

definition check :: "bool \<Rightarrow> fault \<Rightarrow> unit res" where
  "check c e = (if c then Inr () else Inl e)"

lemma check_simps [simp, fault_simps]:
  "check True e = Inr ()"
  "check False e = Inl e"
  by (simp_all add: check_def)

section \<open>\<open>size_t\<close>\<close>

definition szt :: "nat \<Rightarrow> nat" where
  "szt n = n mod 2 ^ 64"

definition sz_sub :: "nat \<Rightarrow> nat \<Rightarrow> nat" where
  "sz_sub a b = (if b \<le> a then a - b else 2 ^ 64 + a - b)"

lemma szt_id [size_simps]: "n < 2 ^ 64 \<Longrightarrow> szt n = n"
  by (simp add: szt_def)

lemma sz_sub_le [simp, size_simps]: "b \<le> a \<Longrightarrow> sz_sub a b = a - b"
  by (simp add: sz_sub_def)

section \<open>Vectors and arrays\<close>

type_synonym byte = "8 word"

definition mem_read :: "'a list \<Rightarrow> nat \<Rightarrow> nat \<Rightarrow> 'a list res" where
  "mem_read v off n = (if off + n \<le> length v then Inr (take n (drop off v)) else Inl OutOfBounds)"

definition mem_write :: "'a list \<Rightarrow> nat \<Rightarrow> 'a list \<Rightarrow> 'a list res" where
  "mem_write v off bs =
     (if off + length bs \<le> length v
      then Inr (take off v @ bs @ drop (off + length bs) v)
      else Inl OutOfBounds)"

text \<open>
  \<open>std::copy(v + src, v + src + n, v + dst)\<close>: the destination must not lie in the source
  range.
\<close>

definition mem_copy :: "'a list \<Rightarrow> nat \<Rightarrow> nat \<Rightarrow> nat \<Rightarrow> 'a list res" where
  "mem_copy v src n dst =
     (if src \<le> dst \<and> dst < src + n then Inl OverlapCopy
      else bind_res (mem_read v src n) (\<lambda>bs. mem_write v dst bs))"

definition vec_resize :: "byte list \<Rightarrow> nat \<Rightarrow> byte list" where
  "vec_resize v n = take n v @ replicate (n - length v) 0"

text \<open>The window of \<open>v\<close> between two indices.\<close>

definition window :: "'a list \<Rightarrow> nat \<Rightarrow> nat \<Rightarrow> 'a list" where
  "window v i j = take (j - i) (drop i v)"

lemma mem_read_ok [fault_simps]:
  "off + n \<le> length v \<Longrightarrow> mem_read v off n = Inr (window v off (off + n))"
  by (simp add: mem_read_def window_def)

lemma mem_write_ok [fault_simps]:
  "off + length bs \<le> length v \<Longrightarrow>
   mem_write v off bs = Inr (take off v @ bs @ drop (off + length bs) v)"
  by (simp add: mem_write_def)

lemma mem_write_bad [fault_simps]:
  "length v < off + length bs \<Longrightarrow> mem_write v off bs = Inl OutOfBounds"
  by (simp add: mem_write_def)

lemma length_window [simp]: "length (window v i j) = min (j - i) (length v - i)"
  by (simp add: window_def)

lemma window_empty [simp]: "j \<le> i \<Longrightarrow> window v i j = []"
  by (simp add: window_def)

lemma length_vec_resize [simp]: "length (vec_resize v n) = n"
  by (simp add: vec_resize_def)

lemma window_split:
  "i \<le> j \<Longrightarrow> j \<le> k \<Longrightarrow> window v i k = window v i j @ window v j k"
proof -
  assume "i \<le> j" "j \<le> k"
  then have "k - i = (j - i) + (k - j)" by simp
  then have "take (k - i) (drop i v) = take (j - i) (drop i v) @ take (k - j) (drop (j - i) (drop i v))"
    by (metis take_add)
  with \<open>i \<le> j\<close> show ?thesis by (simp add: window_def)
qed

lemma window_drop: "drop n (window v i j) = window v (i + n) j"
  by (simp add: window_def drop_take add.commute)

lemma window_take: "i + n \<le> j \<Longrightarrow> take n (window v i j) = window v i (i + n)"
  by (simp add: window_def min_def)

lemma window_write_before [window_simps]:
  "j \<le> off \<Longrightarrow> off \<le> length v \<Longrightarrow> window (take off v @ bs @ w) i j = window v i j"
proof -
  assume a: "j \<le> off" "off \<le> length v"
  show ?thesis
  proof (cases "i \<le> j")
    case True
    with a show ?thesis
      by (simp add: window_def drop_take)
  qed simp
qed

lemma window_write_at [window_simps]:
  "off \<le> length v \<Longrightarrow> window (take off v @ bs @ w) off (off + length bs) = bs"
  by (simp add: window_def)

lemma window_write_after [window_simps]:
  "off + length bs \<le> length v \<Longrightarrow> off + length bs \<le> i \<Longrightarrow>
   window (take off v @ bs @ drop (off + length bs) v) i j = window v i j"
  by (simp add: window_def)

text \<open>Extending a window upwards by what was just written behind it.\<close>

lemma window_append:
  "i \<le> off \<Longrightarrow> off + length bs \<le> length v \<Longrightarrow>
   window (take off v @ bs @ drop (off + length bs) v) i (off + length bs) = window v i off @ bs"
  by (simp add: window_split [of i off "off + length bs"] window_simps)

end
