(* ===== verification/Byte_Order.thy ===== *)
theory Byte_Order
  imports Water_Prelude
begin

text \<open>
  Byte order (\<open>src/water/base/funcs.h\<close>, and the \<open>htons\<close>/\<open>htonl\<close> of the C library that
  \<open>funcs.h\<close>, \<open>msg_buffer.cc\<close> and \<open>inetaddress.cc\<close> call). The object representation of an
  unsigned integer is that of a little-endian host (x86-64): \<open>store_le\<close> is what \<open>memcpy\<close>
  reads from the object, \<open>load_le\<close> what an integer load makes of the bytes.
\<close>

unbundle bit_operations_syntax

section \<open>Bytes and numbers\<close>

primrec le_bytes :: "nat \<Rightarrow> nat \<Rightarrow> byte list" where
  "le_bytes 0 v = []"
| "le_bytes (Suc n) v = word_of_nat v # le_bytes n (v div 256)"

primrec le_val :: "byte list \<Rightarrow> nat" where
  "le_val [] = 0"
| "le_val (b # bs) = unat b + 256 * le_val bs"

lemma length_le_bytes [simp]: "length (le_bytes n v) = n"
  by (induction n arbitrary: v) auto

lemma unat_byte [simp]: "unat (word_of_nat v :: byte) = v mod 256"
  by (simp add: unat_of_nat)

lemma unat_byte_less [simp]: "unat (b :: byte) < 256"
  using unsigned_less [of b] by simp

lemma le_val_le_bytes: "le_val (le_bytes n v) = v mod 256 ^ n"
  by (induction n arbitrary: v) (simp_all add: mod_mult2_eq)

lemma le_bytes_le_val: "length bs = n \<Longrightarrow> le_bytes n (le_val bs) = bs"
proof (induction bs arbitrary: n)
  case Nil
  then show ?case by simp
next
  case (Cons b bs)
  have "word_of_nat (unat b + 256 * le_val bs) = (b :: byte)"
    by (simp add: word_unat_eq_iff unat_word_ariths unsigned_of_nat take_bit_eq_mod)
  moreover have "(unat b + 256 * le_val bs) div 256 = le_val bs"
    by simp
  ultimately show ?case
    using Cons by auto
qed

lemma le_bytes_mod [simp]: "le_bytes n (v mod 256 ^ n) = le_bytes n v"
  by (metis le_bytes_le_val le_val_le_bytes length_le_bytes)

lemma le_bytes_add: "le_bytes (n + m) v = le_bytes n v @ le_bytes m (v div 256 ^ n)"
  by (induction n arbitrary: v) (simp_all add: div_mult2_eq)

lemma le_val_less: "le_val bs < 256 ^ length bs"
proof (induction bs)
  case (Cons b bs)
  have "unat b + 256 * le_val bs < 256 * (le_val bs + 1)"
    using unat_byte_less [of b] by simp
  also have "\<dots> \<le> 256 * 256 ^ length bs"
    using Cons by (metis Suc_eq_plus1 Suc_leI mult_le_mono2)
  finally show ?case by simp
qed simp

text \<open>Network order: most significant byte first.\<close>

definition be_bytes :: "nat \<Rightarrow> nat \<Rightarrow> byte list" where
  "be_bytes n v = rev (le_bytes n v)"

lemma length_be_bytes [simp]: "length (be_bytes n v) = n"
  by (simp add: be_bytes_def)

section \<open>Object representation\<close>

definition store_le :: "'a::len word \<Rightarrow> byte list" where
  "store_le w = le_bytes (LENGTH('a) div 8) (unat w)"

definition load_le :: "byte list \<Rightarrow> 'a::len word" where
  "load_le bs = word_of_nat (le_val bs)"

lemma length_store_le [simp]: "length (store_le (w :: 'a::len word)) = LENGTH('a) div 8"
  by (simp add: store_le_def)

lemma load_store_16 [simp]: "load_le (store_le (w :: 16 word)) = w"
  using unsigned_less [of w, where 'a = nat] by (simp add: load_le_def store_le_def le_val_le_bytes)

lemma load_store_32 [simp]: "load_le (store_le (w :: 32 word)) = w"
  using unsigned_less [of w, where 'a = nat] by (simp add: load_le_def store_le_def le_val_le_bytes)

lemma load_store_64 [simp]: "load_le (store_le (w :: 64 word)) = w"
  using unsigned_less [of w, where 'a = nat] by (simp add: load_le_def store_le_def le_val_le_bytes)

lemma store_le_bytes:
  "store_le (w16 :: 16 word) = le_bytes 2 (unat w16)"
  "store_le (w32 :: 32 word) = le_bytes 4 (unat w32)"
  "store_le (w64 :: 64 word) = le_bytes 8 (unat w64)"
  by (simp_all add: store_le_def)

lemma be_bytes_store:
  "be_bytes 2 (unat (w16 :: 16 word)) = rev (store_le w16)"
  "be_bytes 4 (unat (w32 :: 32 word)) = rev (store_le w32)"
  "be_bytes 8 (unat (w64 :: 64 word)) = rev (store_le w64)"
  by (simp_all add: be_bytes_def store_le_bytes)

lemma store_load:
  assumes "length bs = LENGTH('a::len) div 8" and "256 ^ (LENGTH('a) div 8) = (2::nat) ^ LENGTH('a)"
  shows "store_le (load_le bs :: 'a word) = bs"
proof -
  have "le_val bs < 2 ^ LENGTH('a)"
    using le_val_less [of bs] assms by simp
  then have "unat (load_le bs :: 'a word) = le_val bs"
    by (simp add: load_le_def unat_of_nat)
  then show ?thesis
    using assms(1) by (simp add: store_le_def le_bytes_le_val)
qed

section \<open>\<open>htons\<close>, \<open>htonl\<close> and the 64-bit conversions of \<open>funcs.h\<close>\<close>

text \<open>
  \<open>htons\<close> and \<open>htonl\<close> give the integer whose object representation is the argument's
  reversed; \<open>ntohs\<close> and \<open>ntohl\<close> are the same functions.
\<close>

definition htons :: "16 word \<Rightarrow> 16 word" where
  "htons w = load_le (rev (store_le w))"

definition htonl :: "32 word \<Rightarrow> 32 word" where
  "htonl w = load_le (rev (store_le w))"

text \<open>
  The argument of \<open>htonl\<close> is a \<open>uint32_t\<close>: the implicit conversion of the 64-bit
  \<open>port\<close> keeps the low half.
\<close>

definition hton64 :: "64 word \<Rightarrow> 64 word" where
  "hton64 port = push_bit 32 (ucast (htonl (ucast port))) OR ucast (htonl (ucast (drop_bit 32 port)))"

definition ntoh64 :: "64 word \<Rightarrow> 64 word" where
  "ntoh64 port = push_bit 32 (ucast (htonl (ucast port))) OR ucast (htonl (ucast (drop_bit 32 port)))"

lemma store_htons: "store_le (htons w) = be_bytes 2 (unat w)"
  by (simp add: htons_def store_load be_bytes_store)

lemma store_htonl: "store_le (htonl w) = be_bytes 4 (unat w)"
  by (simp add: htonl_def store_load be_bytes_store)

lemma htons_htons [simp]: "htons (htons w) = w"
  by (simp add: htons_def [of "htons w"] store_htons be_bytes_store)

lemma htonl_htonl [simp]: "htonl (htonl w) = w"
  by (simp add: htonl_def [of "htonl w"] store_htonl be_bytes_store)

text \<open>The two 32-bit halves of a 64-bit word, apart and joined.\<close>

lemma unat_halves:
  "unat (ucast (w :: 64 word) :: 32 word) = unat w mod 2 ^ 32"
  "unat (ucast (drop_bit 32 (w :: 64 word)) :: 32 word) = unat w div 2 ^ 32"
proof -
  have "unat w div 2 ^ 32 < 2 ^ 32"
    using unsigned_less [of w, where 'a = nat] by (simp add: less_mult_imp_div_less)
  then show "unat (ucast (drop_bit 32 (w :: 64 word)) :: 32 word) = unat w div 2 ^ 32"
    by (simp add: unsigned_ucast_eq take_bit_eq_mod unsigned_drop_bit_eq drop_bit_eq_div unat_div)
qed (simp add: unsigned_ucast_eq take_bit_eq_mod)

lemma unat_join_halves:
  "unat (push_bit 32 (ucast (a :: 32 word)) OR ucast (b :: 32 word) :: 64 word)
   = unat a * 2 ^ 32 + unat b"
proof -
  have "push_bit 32 (ucast a) AND ucast b = (0 :: 64 word)"
    by (rule bit_word_eqI) (auto simp: bit_simps dest: bit_imp_le_length)
  then have s: "(push_bit 32 (ucast a) OR ucast b :: 64 word) = push_bit 32 (ucast a) + ucast b"
    by (simp add: disjunctive_add_eq_or)
  have l: "unat a < 2 ^ 32" "unat b < 2 ^ 32"
    using unsigned_less [of a] unsigned_less [of b] by simp_all
  have p: "unat (push_bit 32 (ucast a) :: 64 word) = unat a * 2 ^ 32"
    using l by (simp add: unat_word_ariths push_bit_eq_mult unsigned_ucast_eq take_bit_eq_mod)
  show ?thesis
    using l by (simp add: s unat_word_ariths p unsigned_ucast_eq take_bit_eq_mod)
qed

lemma store_hton64: "store_le (hton64 w) = be_bytes 8 (unat w)"
proof -
  let ?lo = "ucast w :: 32 word" and ?hi = "ucast (drop_bit 32 w) :: 32 word"
  have l: "unat (htonl ?hi) < 256 ^ 4"
    using unsigned_less [of "htonl ?hi", where 'a = nat] by simp
  have "store_le (hton64 w) = le_bytes (4 + 4) (unat (htonl ?lo) * 256 ^ 4 + unat (htonl ?hi))"
    by (simp add: store_le_def hton64_def unat_join_halves)
  also have "\<dots> = le_bytes 4 (unat (htonl ?hi)) @ le_bytes 4 (unat (htonl ?lo))"
    using l le_bytes_mod [of 4 "unat (htonl ?lo) * 256 ^ 4 + unat (htonl ?hi)"]
    by (simp only: le_bytes_add) simp
  also have "\<dots> = be_bytes 4 (unat w div 256 ^ 4) @ be_bytes 4 (unat w mod 256 ^ 4)"
    using store_htonl [of ?hi] store_htonl [of ?lo] by (simp only: store_le_bytes unat_halves [of w]) simp
  also have "\<dots> = be_bytes (4 + 4) (unat w)"
    by (simp only: be_bytes_def le_bytes_mod le_bytes_add rev_append)
  finally show ?thesis by simp
qed

text \<open>
  The 64-bit conversions are involutions and put the most significant byte first, as
  \<open>htons\<close> and \<open>htonl\<close> do for the shorter types.
\<close>

lemma load_rev_store_64: "load_le (rev (store_le w)) = hton64 (w :: 64 word)"
  using load_store_64 [of "hton64 w"] by (simp add: store_hton64 be_bytes_store)

lemma ntoh64_hton64': "ntoh64 (hton64 w) = w"
proof -
  have "ntoh64 (hton64 w) = hton64 (hton64 w)"
    by (simp add: ntoh64_def hton64_def)
  also have "\<dots> = load_le (rev (store_le (hton64 w)))"
    by (simp add: load_rev_store_64)
  finally show ?thesis
    by (simp add: store_hton64 be_bytes_store)
qed

section \<open>Properties\<close>

text \<open>\<open>hton64\<close> writes the most significant byte first, like \<open>htonl\<close> does for 32
  bits, and \<open>ntoh64\<close> undoes it.\<close>

theorem hton64_network_order:
  "store_le (hton64 w) = be_bytes 8 (unat w) \<and> ntoh64 (hton64 w) = w"
  by (simp add: store_hton64 ntoh64_hton64')

end
