(* ===== verification/Byte_Queue.thy ===== *)
theory Byte_Queue
  imports Water_Prelude
begin

text \<open>
  The interface between the connection and its buffers: a queue of bytes with a capacity,
  into which bytes are appended at the back and from which a number of bytes is dropped at
  the front. \<open>Msg_Buffer\<close> provides it for \<open>MsgBuffer\<close>; \<open>Tcp_Connection\<close> uses it for
  the pending output. The laws bound the capacity by the contents, so that a whole run of
  operations can be shown to succeed.
\<close>

datatype queue_op = Put "byte list" | Take nat

primrec put_bytes :: "queue_op \<Rightarrow> byte list" where
  "put_bytes (Put bs) = bs"
| "put_bytes (Take n) = []"

text \<open>
  A run of queue operations, with the bytes taken from the front collected in order. The
  operations are arguments, so the run is defined once for every provider.
\<close>

fun queue_run ::
  "('q \<Rightarrow> byte list \<Rightarrow> 'q res) \<Rightarrow> ('q \<Rightarrow> nat \<Rightarrow> 'q) \<Rightarrow> ('q \<Rightarrow> byte list) \<Rightarrow>
   queue_op list \<Rightarrow> 'q \<Rightarrow> (byte list \<times> 'q) res" where
  "queue_run put take_off bytes [] q = Inr ([], q)"
| "queue_run put take_off bytes (Put bs # ops) q =
     bind_res (put q bs) (\<lambda>q. queue_run put take_off bytes ops q)"
| "queue_run put take_off bytes (Take n # ops) q =
     bind_res (queue_run put take_off bytes ops (take_off q n)) (\<lambda>(out, q').
       Inr (take n (bytes q) @ out, q'))"

lemma queue_run_append:
  "queue_run put take_off bytes (ops @ ops') q =
     bind_res (queue_run put take_off bytes ops q) (\<lambda>(out, q).
     bind_res (queue_run put take_off bytes ops' q) (\<lambda>(out', q). Inr (out @ out', q)))"
proof (induction ops arbitrary: q)
  case Nil
  then show ?case by (cases "queue_run put take_off bytes ops' q") auto
next
  case (Cons op ops)
  then show ?case
    by (cases op) (auto simp: bind_res_def split: sum.splits)
qed

locale byte_queue =
  fixes put :: "'q \<Rightarrow> byte list \<Rightarrow> 'q res"
    and take_off :: "'q \<Rightarrow> nat \<Rightarrow> 'q"
    and bytes :: "'q \<Rightarrow> byte list"
    and inv :: "'q \<Rightarrow> bool"
    and cap :: "'q \<Rightarrow> nat"
    and limit :: nat
  assumes put_ok: "inv q \<Longrightarrow> 2 * cap q + length bs + 16 \<le> limit \<Longrightarrow>
      \<exists>q'. put q bs = Inr q' \<and> inv q' \<and> bytes q' = bytes q @ bs \<and>
           cap q' \<le> max (cap q) (2 * (length (bytes q) + length bs) + 24)"
    and take_inv: "inv q \<Longrightarrow> inv (take_off q n)"
    and take_bytes: "inv q \<Longrightarrow> bytes (take_off q n) = drop n (bytes q)"
    and take_cap: "inv q \<Longrightarrow> cap (take_off q n) = cap q"
begin

lemma put_E:
  assumes "inv q" and "2 * cap q + length bs + 16 \<le> limit"
  obtains q' where "put q bs = Inr q'" "inv q'" "bytes q' = bytes q @ bs"
    "cap q' \<le> max (cap q) (2 * (length (bytes q) + length bs) + 24)"
  using put_ok [OF assms] by blast

lemma put_result:
  assumes "inv q" and "2 * cap q + length bs + 16 \<le> limit" and "put q bs = Inr q'"
  shows "inv q'" "bytes q' = bytes q @ bs"
  using put_ok [OF assms(1,2)] assms(3) by auto

text \<open>
  First in, first out, for a whole run: when the bytes that ever enter fit, no operation
  faults, and what was taken followed by what is left is what was there followed by what
  was put.
\<close>

lemma run_fifo:
  assumes "inv q" and "cap q \<le> 2 * N + 24"
    and "length (bytes q) + length (concat (map put_bytes ops)) \<le> N"
    and "5 * N + 64 \<le> limit"
  shows "\<exists>out q'. queue_run put take_off bytes ops q = Inr (out, q') \<and> inv q' \<and>
    out @ bytes q' = bytes q @ concat (map put_bytes ops)"
  using assms(1-3)
proof (induction ops arbitrary: q)
  case Nil
  then show ?case by simp
next
  case (Cons op ops)
  show ?case
  proof (cases op)
    case (Put bs)
    have "2 * cap q + length bs + 16 \<le> limit"
      using Cons.prems Put assms(4) by simp
    with Cons.prems(1) obtain q' where q': "put q bs = Inr q'" "inv q'" "bytes q' = bytes q @ bs"
      "cap q' \<le> max (cap q) (2 * (length (bytes q) + length bs) + 24)"
      by (rule put_E)
    have "cap q' \<le> 2 * N + 24"
      using q'(4) Cons.prems(2,3) Put by simp
    with Cons.IH [of q'] Cons.prems q' Put show ?thesis by simp
  next
    case (Take n)
    have "length (bytes (take_off q n)) + length (concat (map put_bytes ops)) \<le> N"
      using Cons.prems Take by (simp add: take_bytes)
    with Cons.IH [of "take_off q n"] Cons.prems obtain out q' where
      "queue_run put take_off bytes ops (take_off q n) = Inr (out, q')" "inv q'"
      "out @ bytes q' = drop n (bytes q) @ concat (map put_bytes ops)"
      by (auto simp: take_inv take_cap take_bytes)
    with Take show ?thesis by (simp flip: append_assoc) (simp)
  qed
qed

end

end
