(* ===== verification/Msg_Buffer.thy ===== *)
theory Msg_Buffer
  imports Byte_Order Byte_Queue
begin

text \<open>
  \<open>MsgBuffer\<close> (\<open>src/water/base/msg_buffer.h\<close>, \<open>msg_buffer.cc\<close>): a byte vector with a
  read and a write index and eight bytes of head room. The record has the class's four
  fields; every raw access goes through \<open>mem_read\<close>, \<open>mem_write\<close> and \<open>mem_copy\<close>, so
  leaving the vector is a fault of the model. \<open>mb_contents\<close> is the abstract value, the
  byte sequence between the indices; \<open>mb_inv\<close> the invariant that every operation on a
  buffer of capacity at least eight keeps.
\<close>

section \<open>State\<close>

record msg_buffer =
  read_index :: nat
  init_cap :: nat
  write_index :: nat
  buffer :: "byte list"

definition buf_offset :: nat where "buf_offset = 8"

definition vec_max :: nat where "vec_max = 2 ^ 63 - 1"

definition mb_new :: "nat \<Rightarrow> msg_buffer res" where
  "mb_new len =
     (let n = szt (len + buf_offset) in
      bind_res (check (n \<le> vec_max) LengthError) (\<lambda>_.
        Inr \<lparr>read_index = buf_offset, init_cap = len, write_index = buf_offset,
             buffer = replicate n 0\<rparr>))"

definition mb_copy :: "msg_buffer \<Rightarrow> msg_buffer" where
  "mb_copy buf = \<lparr>read_index = read_index buf, init_cap = init_cap buf,
                  write_index = write_index buf, buffer = buffer buf\<rparr>"

text \<open>The moved-from vector is empty; the indices of the source object stay as they were.\<close>

definition mb_move :: "msg_buffer \<Rightarrow> msg_buffer \<times> msg_buffer" where
  "mb_move buf =
     (\<lparr>read_index = read_index buf, init_cap = init_cap buf,
       write_index = write_index buf, buffer = buffer buf\<rparr>,
      buf\<lparr>buffer := []\<rparr>)"

text \<open>
  The assignment operators compare the addresses first: \<open>self\<close> tells whether the two
  objects are the same one.
\<close>

definition mb_assign :: "bool \<Rightarrow> msg_buffer \<Rightarrow> msg_buffer \<Rightarrow> msg_buffer" where
  "mb_assign self this buf =
     (if self then this
      else this\<lparr>read_index := read_index buf, init_cap := init_cap buf,
                write_index := write_index buf, buffer := buffer buf\<rparr>)"

definition mb_move_assign :: "bool \<Rightarrow> msg_buffer \<Rightarrow> msg_buffer \<Rightarrow> msg_buffer \<times> msg_buffer" where
  "mb_move_assign self this buf =
     (if self then (this, buf)
      else (this\<lparr>read_index := read_index buf, init_cap := init_cap buf,
                 write_index := write_index buf, buffer := buffer buf\<rparr>,
            buf\<lparr>buffer := []\<rparr>))"

definition mb_swap :: "msg_buffer \<Rightarrow> msg_buffer \<Rightarrow> msg_buffer \<times> msg_buffer" where
  "mb_swap a b =
     (a\<lparr>buffer := buffer b, read_index := read_index b, init_cap := init_cap b,
        write_index := write_index b\<rparr>,
      b\<lparr>buffer := buffer a, read_index := read_index a, init_cap := init_cap a,
        write_index := write_index a\<rparr>)"

definition mb_readable :: "msg_buffer \<Rightarrow> nat" where
  "mb_readable b = sz_sub (write_index b) (read_index b)"

definition mb_writeable :: "msg_buffer \<Rightarrow> nat" where
  "mb_writeable b = sz_sub (length (buffer b)) (write_index b)"

text \<open>The bytes between the two indices: what \<open>Peek()\<close> and \<open>ReadableBytes()\<close> delimit.\<close>

definition mb_contents :: "msg_buffer \<Rightarrow> byte list" where
  "mb_contents b = window (buffer b) (read_index b) (write_index b)"

section \<open>Making room and appending\<close>

text \<open>
  \<open>Append(const MsgBuffer&)\<close> on another buffer, over the \<open>EnsureWriteableBytes\<close> it calls;
  the two are mutually recursive in the source, and the first argument of \<open>mb_ensure_n\<close>
  bounds the depth. Two levels are enough (\<open>mb_ensure_n_ok\<close>).
\<close>

definition mb_append_buf_with ::
  "(msg_buffer \<Rightarrow> nat \<Rightarrow> msg_buffer res) \<Rightarrow> msg_buffer \<Rightarrow> msg_buffer \<Rightarrow> msg_buffer res" where
  "mb_append_buf_with ens a b =
     bind_res (ens a (mb_readable b)) (\<lambda>a.
     bind_res (mem_read (buffer b) (read_index b) (mb_readable b)) (\<lambda>bs.
     bind_res (mem_write (buffer a) (write_index a) bs) (\<lambda>v.
     Inr (a\<lparr>buffer := v, write_index := szt (write_index a + length bs)\<rparr>))))"

definition mb_grown :: "msg_buffer \<Rightarrow> nat \<Rightarrow> nat" where
  "mb_grown b len =
     (if szt (buf_offset + mb_readable b + len) < szt (length (buffer b) * 2)
      then szt (length (buffer b) * 2)
      else szt (buf_offset + mb_readable b + len))"

primrec mb_ensure_n :: "nat \<Rightarrow> msg_buffer \<Rightarrow> nat \<Rightarrow> msg_buffer res" where
  "mb_ensure_n 0 b len = Inl TooDeep"
| "mb_ensure_n (Suc k) b len =
     (if len \<le> mb_writeable b then Inr b
      else if szt (len + buf_offset) \<le> szt (read_index b + mb_writeable b) then
        bind_res (mem_copy (buffer b) (read_index b) (sz_sub (write_index b) (read_index b)) buf_offset)
          (\<lambda>v. Inr (b\<lparr>buffer := v,
                      write_index := szt (buf_offset + sz_sub (write_index b) (read_index b)),
                      read_index := buf_offset\<rparr>))
      else
        bind_res (mb_new (mb_grown b len)) (\<lambda>new_buf.
        bind_res (mb_append_buf_with (mb_ensure_n k) new_buf b) (\<lambda>new_buf.
        Inr (fst (mb_swap b new_buf)))))"

definition mb_ensure :: "msg_buffer \<Rightarrow> nat \<Rightarrow> msg_buffer res" where
  "mb_ensure b len = mb_ensure_n 64 b len"

definition mb_append_buf :: "msg_buffer \<Rightarrow> msg_buffer \<Rightarrow> msg_buffer res" where
  "mb_append_buf a b = mb_append_buf_with mb_ensure a b"

definition mb_append :: "msg_buffer \<Rightarrow> byte list \<Rightarrow> msg_buffer res" where
  "mb_append b bs =
     bind_res (mb_ensure b (length bs)) (\<lambda>b.
     bind_res (mem_write (buffer b) (write_index b) bs) (\<lambda>v.
     Inr (b\<lparr>buffer := v, write_index := szt (write_index b + length bs)\<rparr>)))"

definition mb_append_str :: "msg_buffer \<Rightarrow> byte list \<Rightarrow> msg_buffer res" where
  "mb_append_str b s = bind_res (mb_ensure b (length s)) (\<lambda>b. mb_append b s)"

section \<open>Retrieving and reading\<close>

definition mb_retrieve_all :: "msg_buffer \<Rightarrow> msg_buffer" where
  "mb_retrieve_all b =
     (let b = (if szt (init_cap b * 2) < length (buffer b)
               then b\<lparr>buffer := vec_resize (buffer b) (init_cap b)\<rparr> else b)
      in b\<lparr>read_index := buf_offset, write_index := buf_offset\<rparr>)"

definition mb_retrieve :: "msg_buffer \<Rightarrow> nat \<Rightarrow> msg_buffer" where
  "mb_retrieve b len =
     (if mb_readable b \<le> len then mb_retrieve_all b
      else b\<lparr>read_index := szt (read_index b + len)\<rparr>)"

text \<open>
  \<open>ReadFd\<close>, given what \<open>readv\<close> on the two vectors returned: an errno, or the bytes it
  stored (first behind the write index, then in the 64 KiB stack buffer). The result is the
  \<open>size_t\<close> the function returns (so \<open>-1\<close> is \<open>2\<^sup>6\<^sup>4 - 1\<close>), the buffer, and the errno
  stored through \<open>ret_errno\<close>.
\<close>

definition ext_len :: nat where "ext_len = 65536"

definition mb_iov_len :: "msg_buffer \<Rightarrow> nat" where
  "mb_iov_len b = (let writeable = mb_writeable b in
                   if writeable < ext_len then writeable + ext_len else writeable)"

definition mb_read_fd ::
  "msg_buffer \<Rightarrow> nat + byte list \<Rightarrow> (nat \<times> msg_buffer \<times> nat option) res" where
  "mb_read_fd b readv =
     (let writeable = mb_writeable b in
      case readv of
        Inl errno \<Rightarrow> Inr (2 ^ 64 - 1, b, Some errno)
      | Inr bs \<Rightarrow>
          bind_res (mem_write (buffer b) (write_index b) (take writeable bs)) (\<lambda>v.
            let b = b\<lparr>buffer := v\<rparr>; n = length bs in
            if n \<le> writeable then Inr (n, b\<lparr>write_index := szt (write_index b + n)\<rparr>, None)
            else bind_res (mb_append (b\<lparr>write_index := length (buffer b)\<rparr>) (drop writeable bs))
                   (\<lambda>b. Inr (n, b, None))))"

definition mb_peek_int8 :: "msg_buffer \<Rightarrow> 8 word res" where
  "mb_peek_int8 b =
     bind_res (check (0 \<le> mb_readable b) AssertFailed) (\<lambda>_.
     bind_res (mem_read (buffer b) (read_index b) 1) (\<lambda>bs. Inr (load_le bs)))"

definition mb_peek_int16 :: "msg_buffer \<Rightarrow> 16 word res" where
  "mb_peek_int16 b =
     bind_res (check (2 \<le> mb_readable b) AssertFailed) (\<lambda>_.
     bind_res (mem_read (buffer b) (read_index b) 2) (\<lambda>rs. Inr (htons (load_le rs))))"

definition mb_peek_int32 :: "msg_buffer \<Rightarrow> 32 word res" where
  "mb_peek_int32 b =
     bind_res (check (4 \<le> mb_readable b) AssertFailed) (\<lambda>_.
     bind_res (mem_read (buffer b) (read_index b) 4) (\<lambda>rl. Inr (htonl (load_le rl))))"

definition mb_peek_int64 :: "msg_buffer \<Rightarrow> 64 word res" where
  "mb_peek_int64 b =
     bind_res (check (4 \<le> mb_readable b) AssertFailed) (\<lambda>_.
     bind_res (mem_read (buffer b) (read_index b) 8) (\<lambda>rll. Inr (ntoh64 (load_le rll))))"

definition mb_read :: "msg_buffer \<Rightarrow> nat \<Rightarrow> (byte list \<times> msg_buffer) res" where
  "mb_read b len =
     (let len = (if mb_readable b < len then mb_readable b else len) in
      bind_res (mem_read (buffer b) (read_index b) len) (\<lambda>ret. Inr (ret, mb_retrieve b len)))"

definition mb_read_int8 :: "msg_buffer \<Rightarrow> (8 word \<times> msg_buffer) res" where
  "mb_read_int8 b = bind_res (mb_peek_int8 b) (\<lambda>ret. Inr (ret, mb_retrieve b 1))"

definition mb_read_int16 :: "msg_buffer \<Rightarrow> (16 word \<times> msg_buffer) res" where
  "mb_read_int16 b = bind_res (mb_peek_int16 b) (\<lambda>ret. Inr (ret, mb_retrieve b 2))"

definition mb_read_int32 :: "msg_buffer \<Rightarrow> (32 word \<times> msg_buffer) res" where
  "mb_read_int32 b = bind_res (mb_peek_int32 b) (\<lambda>ret. Inr (ret, mb_retrieve b 4))"

definition mb_read_int64 :: "msg_buffer \<Rightarrow> (64 word \<times> msg_buffer) res" where
  "mb_read_int64 b = bind_res (mb_peek_int64 b) (\<lambda>ret. Inr (ret, mb_retrieve b 8))"

section \<open>Integers, and adding in front\<close>

definition mb_append_int8 :: "msg_buffer \<Rightarrow> 8 word \<Rightarrow> msg_buffer res" where
  "mb_append_int8 buf b = bind_res (mem_read (store_le b) 0 1) (mb_append buf)"

definition mb_append_int16 :: "msg_buffer \<Rightarrow> 16 word \<Rightarrow> msg_buffer res" where
  "mb_append_int16 buf s = (let ss = htons s in bind_res (mem_read (store_le ss) 0 2) (mb_append buf))"

definition mb_append_int32 :: "msg_buffer \<Rightarrow> 32 word \<Rightarrow> msg_buffer res" where
  "mb_append_int32 buf i = (let ii = htonl i in bind_res (mem_read (store_le ii) 0 4) (mb_append buf))"

definition mb_append_int64 :: "msg_buffer \<Rightarrow> 64 word \<Rightarrow> msg_buffer res" where
  "mb_append_int64 buf l = (let ll = hton64 l in bind_res (mem_read (store_le ll) 0 8) (mb_append buf))"

definition mb_add_in_front :: "msg_buffer \<Rightarrow> byte list \<Rightarrow> msg_buffer res" where
  "mb_add_in_front b bs =
     (let len = length bs in
      if len \<le> read_index b then
        bind_res (mem_write (buffer b) (read_index b - len) bs) (\<lambda>v.
          Inr (b\<lparr>buffer := v, read_index := read_index b - len\<rparr>))
      else if len \<le> mb_writeable b then
        bind_res (mem_copy (buffer b) (read_index b) (sz_sub (write_index b) (read_index b))
                    (read_index b + len)) (\<lambda>v.
        bind_res (mem_write v (read_index b) bs) (\<lambda>v.
          Inr (b\<lparr>buffer := v, write_index := szt (write_index b + len)\<rparr>)))
      else
        (let new_len = (if szt (len + mb_readable b) < init_cap b then init_cap b
                        else szt (len + mb_readable b)) in
         bind_res (mb_new new_len) (\<lambda>new_buf.
         bind_res (mb_append new_buf bs) (\<lambda>new_buf.
         bind_res (mb_append_buf new_buf b) (\<lambda>new_buf.
         Inr (fst (mb_swap b new_buf)))))))"

text \<open>
  The signed arguments convert to the unsigned parameter of \<open>htons\<close>, \<open>htonl\<close> and
  \<open>hton64\<close>. \<open>AddInFrontInt32\<close> keeps the result of \<open>htonl\<close> in a \<open>uint16_t\<close> and then
  reads four bytes of it; \<open>AddInFrontInt64\<close> adds four bytes of its eight.
\<close>

definition mb_add_in_front_int8 :: "msg_buffer \<Rightarrow> 8 word \<Rightarrow> msg_buffer res" where
  "mb_add_in_front_int8 buf b = bind_res (mem_read (store_le b) 0 1) (mb_add_in_front buf)"

definition mb_add_in_front_int16 :: "msg_buffer \<Rightarrow> 16 word \<Rightarrow> msg_buffer res" where
  "mb_add_in_front_int16 buf s =
     (let ss = htons s in bind_res (mem_read (store_le ss) 0 2) (mb_add_in_front buf))"

definition mb_add_in_front_int32 :: "msg_buffer \<Rightarrow> 32 word \<Rightarrow> msg_buffer res" where
  "mb_add_in_front_int32 buf i =
     (let ii = (ucast (htonl i) :: 16 word) in
      bind_res (mem_read (store_le ii) 0 4) (mb_add_in_front buf))"

definition mb_add_in_front_int64 :: "msg_buffer \<Rightarrow> 64 word \<Rightarrow> msg_buffer res" where
  "mb_add_in_front_int64 buf l =
     (let ll = hton64 l in bind_res (mem_read (store_le ll) 0 4) (mb_add_in_front buf))"

text \<open>
  \<open>std::search\<close> for a pattern: the offset of the first match, or the length of the range
  when there is none. \<open>FindCRLF\<close> returns a pointer, here an index into the vector.
\<close>

fun std_search :: "'a list \<Rightarrow> 'a list \<Rightarrow> nat" where
  "std_search [] pat = 0"
| "std_search (x # xs) pat =
     (if take (length pat) (x # xs) = pat then 0 else Suc (std_search xs pat))"

definition crlf :: "byte list" where "crlf = [13, 10]"

definition mb_find_crlf :: "msg_buffer \<Rightarrow> nat option" where
  "mb_find_crlf b =
     (let p = read_index b + std_search (mb_contents b) crlf in
      if p = write_index b then None else Some p)"

section \<open>The invariant\<close>

definition mb_inv :: "msg_buffer \<Rightarrow> bool" where
  "mb_inv b \<longleftrightarrow>
     buf_offset \<le> init_cap b \<and> length (buffer b) = init_cap b + buf_offset \<and>
     read_index b \<le> write_index b \<and> write_index b \<le> length (buffer b) \<and>
     length (buffer b) \<le> vec_max"

text \<open>Room to grow: adding \<open>n\<close> bytes stays below \<open>max_size()\<close> even after doubling.\<close>

definition mb_fits :: "msg_buffer \<Rightarrow> nat \<Rightarrow> bool" where
  "mb_fits b n \<longleftrightarrow> 2 * length (buffer b) + n + 16 \<le> vec_max"

lemma mb_invD:
  assumes "mb_inv b"
  shows "read_index b \<le> write_index b" "write_index b \<le> length (buffer b)"
    "length (buffer b) = init_cap b + 8" "8 \<le> init_cap b" "length (buffer b) < 2 ^ 63"
  using assms by (simp_all add: mb_inv_def buf_offset_def vec_max_def)

lemma mb_readable_inv: "mb_inv b \<Longrightarrow> mb_readable b = length (mb_contents b)"
  using mb_invD [of b] by (simp add: mb_readable_def mb_contents_def)

lemma mb_readable_idx: "mb_inv b \<Longrightarrow> mb_readable b = write_index b - read_index b"
  using mb_invD [of b] by (simp add: mb_readable_def)

lemma mb_writeable_idx: "mb_inv b \<Longrightarrow> mb_writeable b = length (buffer b) - write_index b"
  using mb_invD [of b] by (simp add: mb_writeable_def)

lemmas mb_size_simps = mb_readable_idx mb_writeable_idx buf_offset_def vec_max_def szt_id

lemma mb_new_ok:
  assumes "8 \<le> n" and "n + 8 \<le> vec_max"
  obtains b where "mb_new n = Inr b" "mb_inv b" "mb_contents b = []" "mb_writeable b = n"
    "length (buffer b) = n + 8" "init_cap b = n" "read_index b = 8"
proof
  let ?b = "\<lparr>read_index = 8, init_cap = n, write_index = 8, buffer = replicate (n + 8) 0\<rparr>"
  show "mb_new n = Inr ?b"
    using assms by (simp add: mb_new_def szt_id buf_offset_def vec_max_def)
qed (use assms in \<open>simp_all add: mb_inv_def mb_contents_def mb_writeable_def buf_offset_def\<close>)

text \<open>Writing behind the write index: the core of every append.\<close>

lemma mb_write_behind:
  assumes "mb_inv b" and "length bs \<le> mb_writeable b"
  obtains v where "mem_write (buffer b) (write_index b) bs = Inr v"
    "mb_inv (b\<lparr>buffer := v, write_index := szt (write_index b + length bs)\<rparr>)"
    "mb_contents (b\<lparr>buffer := v, write_index := szt (write_index b + length bs)\<rparr>) = mb_contents b @ bs"
    "length v = length (buffer b)"
proof -
  let ?v = "take (write_index b) (buffer b) @ bs @ drop (write_index b + length bs) (buffer b)"
  have l: "write_index b + length bs \<le> length (buffer b)"
    using assms mb_invD(2) [OF assms(1)] by (simp add: mb_writeable_idx)
  then have w: "szt (write_index b + length bs) = write_index b + length bs"
    using mb_invD(5) [OF assms(1)] by (simp add: szt_id)
  show thesis
  proof (rule that)
    show "mem_write (buffer b) (write_index b) bs = Inr ?v"
      using l by (rule mem_write_ok)
    show "mb_inv (b\<lparr>buffer := ?v, write_index := szt (write_index b + length bs)\<rparr>)"
      using l assms(1) by (simp add: mb_inv_def w)
    show "mb_contents (b\<lparr>buffer := ?v, write_index := szt (write_index b + length bs)\<rparr>) = mb_contents b @ bs"
      using l mb_invD(1) [OF assms(1)] by (simp add: mb_contents_def w window_append)
    show "length ?v = length (buffer b)"
      using l by simp
  qed
qed

lemma mem_read_contents:
  assumes "mb_inv b" and "n \<le> mb_readable b"
  shows "mem_read (buffer b) (read_index b) n = Inr (take n (mb_contents b))"
  using assms mb_invD(1,2) [OF assms(1)]
  by (simp add: mem_read_ok mb_contents_def mb_readable_idx window_take)

section \<open>Making room\<close>

lemma mb_compact:
  assumes "mb_inv b" and "\<not> len \<le> mb_writeable b"
    and "szt (len + buf_offset) \<le> szt (read_index b + mb_writeable b)" and "len < 2 ^ 63"
  shows "\<exists>v. mem_copy (buffer b) (read_index b) (sz_sub (write_index b) (read_index b)) buf_offset = Inr v \<and>
    (let b' = b\<lparr>buffer := v,
                write_index := szt (buf_offset + sz_sub (write_index b) (read_index b)),
                read_index := buf_offset\<rparr>
     in mb_inv b' \<and> mb_contents b' = mb_contents b \<and> len \<le> mb_writeable b')"
proof -
  note d = mb_invD [OF assms(1)]
  let ?n = "write_index b - read_index b"
  have g: "len + 8 \<le> read_index b + (length (buffer b) - write_index b)"
    using assms(2-4) d by (simp add: mb_size_simps assms(1))
  have r: "8 < read_index b"
    using assms(2) g d(1,2) by (simp add: mb_writeable_idx assms(1))
  have rd: "mem_read (buffer b) (read_index b) ?n = Inr (mb_contents b)"
    using mem_read_contents [OF assms(1), of ?n] d(1,2)
    by (simp add: mb_readable_idx assms(1) mb_contents_def)
  have len: "length (mb_contents b) = ?n"
    using d(1,2) by (simp add: mb_contents_def)
  let ?v = "take 8 (buffer b) @ mb_contents b @ drop (8 + ?n) (buffer b)"
  have "mem_copy (buffer b) (read_index b) (sz_sub (write_index b) (read_index b)) buf_offset = Inr ?v"
    using r d(1,2) by (simp add: mem_copy_def buf_offset_def rd mem_write_ok len)
  moreover have "window ?v 8 (8 + ?n) = mb_contents b"
    using window_write_at [of 8 "buffer b" "mb_contents b"] d(3,4) by (simp add: len)
  ultimately show ?thesis
    using g r d len assms(1)
    by (simp add: mb_inv_def mb_contents_def [of "b\<lparr>buffer := _, write_index := _, read_index := _\<rparr>"]
        mb_writeable_def buf_offset_def szt_id vec_max_def, intro conjI; linarith)
qed

lemma mb_append_buf_with_ok:
  assumes "ens a (mb_readable b) = Inr a'" and "mb_inv a'" and "mb_inv b"
    and "mb_readable b \<le> mb_writeable a'"
  shows "\<exists>c. mb_append_buf_with ens a b = Inr c \<and> mb_inv c \<and>
    mb_contents c = mb_contents a' @ mb_contents b \<and> length (buffer c) = length (buffer a') \<and>
    read_index c = read_index a'"
proof -
  have rd: "mem_read (buffer b) (read_index b) (mb_readable b) = Inr (mb_contents b)"
    using mem_read_contents [OF assms(3), of "mb_readable b"]
    by (simp add: mb_readable_inv [OF assms(3)])
  obtain v where v: "mem_write (buffer a') (write_index a') (mb_contents b) = Inr v"
    "mb_inv (a'\<lparr>buffer := v, write_index := szt (write_index a' + length (mb_contents b))\<rparr>)"
    "mb_contents (a'\<lparr>buffer := v, write_index := szt (write_index a' + length (mb_contents b))\<rparr>)
     = mb_contents a' @ mb_contents b"
    "length v = length (buffer a')"
    by (rule mb_write_behind [OF assms(2), of "mb_contents b"])
      (use assms(3,4) in \<open>simp_all add: mb_readable_inv\<close>)
  then show ?thesis
    by (simp add: mb_append_buf_with_def assms(1) rd)
qed

lemma mb_grown_bounds:
  assumes "mb_inv b" and "mb_fits b len"
  shows "8 + mb_readable b + len \<le> mb_grown b len" "mb_grown b len + 8 \<le> vec_max"
    "mb_grown b len \<le> max (2 * length (buffer b)) (8 + mb_readable b + len)"
proof -
  have "mb_readable b \<le> length (buffer b)"
    using mb_invD [OF assms(1)] by (simp add: mb_readable_idx assms(1))
  then show "8 + mb_readable b + len \<le> mb_grown b len" "mb_grown b len + 8 \<le> vec_max"
    "mb_grown b len \<le> max (2 * length (buffer b)) (8 + mb_readable b + len)"
    using assms(2) by (simp_all add: mb_grown_def mb_fits_def vec_max_def buf_offset_def szt_id)
qed

lemma mb_swap_fst: "fst (mb_swap a b) = b\<lparr>buffer := buffer b\<rparr>" if "msg_buffer.more a = msg_buffer.more b"
  using that by (cases a, cases b) (simp add: mb_swap_def)

text \<open>The case of a new, larger buffer, which itself needs no more room.\<close>

lemma mb_ensure_grow:
  assumes "mb_inv b" and "mb_fits b len" and "\<not> len \<le> mb_writeable b"
    and "\<not> szt (len + buf_offset) \<le> szt (read_index b + mb_writeable b)"
  shows "\<exists>b'. mb_ensure_n (Suc (Suc k)) b len = Inr b' \<and> mb_inv b' \<and>
    mb_contents b' = mb_contents b \<and> len \<le> mb_writeable b' \<and>
    length (buffer b') \<le> max (length (buffer b)) (2 * (length (mb_contents b) + len) + 24)"
proof -
  have l: "len < 2 ^ 63"
    using assms(2) by (simp add: mb_fits_def vec_max_def)
  note g = mb_grown_bounds [OF assms(1,2)]
  have sm: "length (buffer b) < mb_readable b + len + 8"
    using assms(4) l mb_invD [OF assms(1)] by (simp add: mb_size_simps assms(1))
  obtain nb where nb: "mb_new (mb_grown b len) = Inr nb" "mb_inv nb" "mb_contents nb = []"
    "mb_writeable nb = mb_grown b len" "length (buffer nb) = mb_grown b len + 8" "read_index nb = 8"
    by (rule mb_new_ok [of "mb_grown b len"]) (use g in auto)
  then have "mb_ensure_n (Suc k) nb (mb_readable b) = Inr nb"
    using g by simp
  then obtain c where
    c: "mb_append_buf_with (mb_ensure_n (Suc k)) nb b = Inr c" "mb_inv c"
      "mb_contents c = mb_contents b" "length (buffer c) = mb_grown b len + 8" "read_index c = 8"
    using mb_append_buf_with_ok [of "mb_ensure_n (Suc k)" nb b nb] nb g assms(1) by auto
  have "write_index c - 8 = mb_readable b"
    using mb_readable_inv [OF c(2)] mb_readable_inv [OF assms(1)] c(3,5)
    by (simp add: mb_readable_idx [OF c(2)])
  then have "len \<le> mb_writeable c"
    using c(4) g(1) mb_invD(1) [OF c(2)] c(5) by (simp add: mb_writeable_idx [OF c(2)])
  moreover have "length (buffer c) \<le> 2 * (length (mb_contents b) + len) + 24"
    using c(4) g(3) sm by (simp flip: mb_readable_inv [OF assms(1)])
  ultimately show ?thesis
    using assms(3,4) c(1-3) nb(1) by (simp add: mb_swap_fst)
qed

lemma mb_ensure_n_ok:
  assumes "mb_inv b" and "mb_fits b len"
  shows "\<exists>b'. mb_ensure_n (Suc (Suc k)) b len = Inr b' \<and> mb_inv b' \<and>
    mb_contents b' = mb_contents b \<and> len \<le> mb_writeable b' \<and>
    length (buffer b') \<le> max (length (buffer b)) (2 * (length (mb_contents b) + len) + 24)"
proof -
  have l: "len < 2 ^ 63"
    using assms(2) by (simp add: mb_fits_def vec_max_def)
  consider (room) "len \<le> mb_writeable b"
    | (compact) "\<not> len \<le> mb_writeable b" "szt (len + buf_offset) \<le> szt (read_index b + mb_writeable b)"
    | (grow) "\<not> len \<le> mb_writeable b" "\<not> szt (len + buf_offset) \<le> szt (read_index b + mb_writeable b)"
    by blast
  then show ?thesis
  proof cases
    case room
    then show ?thesis using assms(1) by simp
  next
    case compact
    from mb_compact [OF assms(1) compact l] obtain v where v:
      "mem_copy (buffer b) (read_index b) (sz_sub (write_index b) (read_index b)) buf_offset = Inr v"
      "let b' = b\<lparr>buffer := v,
                 write_index := szt (buf_offset + sz_sub (write_index b) (read_index b)),
                 read_index := buf_offset\<rparr>
       in mb_inv b' \<and> mb_contents b' = mb_contents b \<and> len \<le> mb_writeable b'"
      by blast
    have "length v = length (buffer b)"
      using v(2) mb_invD(3) [OF assms(1)] by (simp add: Let_def mb_inv_def buf_offset_def)
    with v compact show ?thesis by (simp add: Let_def)
  next
    case grow
    from mb_ensure_grow [OF assms grow] show ?thesis .
  qed
qed

lemma mb_ensure_Suc: "mb_ensure b len = mb_ensure_n (Suc (Suc 62)) b len"
  by (simp only: mb_ensure_def) (simp add: eval_nat_numeral)

lemma mb_ensure_E:
  assumes "mb_inv b" and "mb_fits b len"
  obtains b' where "mb_ensure b len = Inr b'" "mb_inv b'" "mb_contents b' = mb_contents b"
    "len \<le> mb_writeable b'"
    "length (buffer b') \<le> max (length (buffer b)) (2 * (length (mb_contents b) + len) + 24)"
  using mb_ensure_n_ok [OF assms, of 62] by (auto simp: mb_ensure_Suc)

lemma mb_ensure_room [simp]: "len \<le> mb_writeable b \<Longrightarrow> mb_ensure b len = Inr b"
  by (simp only: mb_ensure_Suc mb_ensure_n.simps if_True)

section \<open>Appending\<close>

lemma mb_append_room_E:
  assumes "mb_inv b" and "length bs \<le> mb_writeable b"
  obtains c where "mb_append b bs = Inr c" "mb_inv c" "mb_contents c = mb_contents b @ bs"
    "length (buffer c) = length (buffer b)" "read_index c = read_index b"
proof -
  obtain v where v: "mem_write (buffer b) (write_index b) bs = Inr v"
    "mb_inv (b\<lparr>buffer := v, write_index := szt (write_index b + length bs)\<rparr>)"
    "mb_contents (b\<lparr>buffer := v, write_index := szt (write_index b + length bs)\<rparr>) = mb_contents b @ bs"
    "length v = length (buffer b)"
    by (rule mb_write_behind [OF assms])
  then show thesis
    using that [of "b\<lparr>buffer := v, write_index := szt (write_index b + length bs)\<rparr>"] assms(2)
    by (simp add: mb_append_def)
qed

lemma mb_append_ensure:
  "mb_ensure b (length bs) = Inr b' \<Longrightarrow> length bs \<le> mb_writeable b' \<Longrightarrow> mb_append b bs = mb_append b' bs"
  by (simp add: mb_append_def)

lemma mb_append_ok:
  assumes "mb_inv b" and "mb_fits b (length bs)"
  shows "\<exists>c. mb_append b bs = Inr c \<and> mb_inv c \<and> mb_contents c = mb_contents b @ bs \<and>
    length (buffer c) \<le> max (length (buffer b)) (2 * (length (mb_contents b) + length bs) + 24)"
proof -
  obtain b' where b': "mb_ensure b (length bs) = Inr b'" "mb_inv b'" "mb_contents b' = mb_contents b"
    "length bs \<le> mb_writeable b'"
    "length (buffer b') \<le> max (length (buffer b)) (2 * (length (mb_contents b) + length bs) + 24)"
    by (rule mb_ensure_E [OF assms])
  obtain c where "mb_append b' bs = Inr c" "mb_inv c" "mb_contents c = mb_contents b' @ bs"
    "length (buffer c) = length (buffer b')"
    by (rule mb_append_room_E [OF b'(2,4)])
  with b' show ?thesis by (simp add: mb_append_ensure [OF b'(1,4)])
qed

lemma mb_append_str_eq:
  assumes "mb_inv b" and "mb_fits b (length s)"
  shows "mb_append_str b s = mb_append b s"
proof -
  obtain b' where b': "mb_ensure b (length s) = Inr b'" "length s \<le> mb_writeable b'"
    by (rule mb_ensure_E [OF assms])
  then show ?thesis
    by (simp add: mb_append_str_def mb_append_ensure [OF b'])
qed

lemma mb_append_buf_ok:
  assumes "mb_inv a" and "mb_inv b" and "mb_fits a (mb_readable b)"
  shows "\<exists>c. mb_append_buf a b = Inr c \<and> mb_inv c \<and> mb_contents c = mb_contents a @ mb_contents b"
proof -
  obtain a' where a': "mb_ensure a (mb_readable b) = Inr a'" "mb_inv a'"
    "mb_contents a' = mb_contents a" "mb_readable b \<le> mb_writeable a'"
    by (rule mb_ensure_E [OF assms(1,3)])
  with mb_append_buf_with_ok [of mb_ensure a b a'] assms(2) show ?thesis
    by (auto simp: mb_append_buf_def)
qed

section \<open>Retrieving\<close>

text \<open>
  Under the invariant the vector is exactly eight bytes longer than \<open>init_cap\<close>, so the
  test of \<open>RetrieveAll\<close> never finds it more than twice as long: the shrinking branch is
  not taken, whatever the buffer has grown to.
\<close>

lemma mb_retrieve_all_inv:
  assumes "mb_inv b"
  shows "mb_retrieve_all b = b\<lparr>read_index := 8, write_index := 8\<rparr>"
  using mb_invD [OF assms] by (simp add: mb_retrieve_all_def buf_offset_def szt_id)

lemma mb_retrieve_ok:
  assumes "mb_inv b"
  shows "mb_inv (mb_retrieve b n)" "mb_contents (mb_retrieve b n) = drop n (mb_contents b)"
    "length (buffer (mb_retrieve b n)) = length (buffer b)"
proof -
  note d = mb_invD [OF assms]
  show "mb_inv (mb_retrieve b n)"
    using assms d by (auto simp: mb_retrieve_def mb_retrieve_all_inv mb_inv_def buf_offset_def
        mb_readable_idx szt_id)
  show "mb_contents (mb_retrieve b n) = drop n (mb_contents b)"
    using d by (auto simp: mb_retrieve_def mb_retrieve_all_inv assms mb_contents_def window_drop
        mb_readable_idx szt_id)
  show "length (buffer (mb_retrieve b n)) = length (buffer b)"
    by (simp add: mb_retrieve_def mb_retrieve_all_inv assms)
qed

text \<open>\<open>MsgBuffer\<close> provides the byte queue.\<close>

interpretation mbq: byte_queue mb_append mb_retrieve mb_contents mb_inv "\<lambda>b. length (buffer b)" vec_max
  by unfold_locales (use mb_append_ok in \<open>simp_all add: mb_fits_def mb_retrieve_ok\<close>)

lemma mb_read_ok:
  assumes "mb_inv b"
  shows "mb_read b n = Inr (take n (mb_contents b), mb_retrieve b (min n (mb_readable b)))"
  using assms by (simp add: mb_read_def mem_read_contents mb_readable_inv min_def)

section \<open>Integers in network order\<close>

text \<open>Appending an integer appends its big-endian bytes; peeking decodes the first bytes.\<close>

lemma mem_read_store [fault_simps]: "n = length bs \<Longrightarrow> mem_read bs 0 n = Inr bs"
  by (simp add: mem_read_def)

lemma mb_append_int_bytes:
  "mb_append_int8 b v8 = mb_append b [v8]"
  "mb_append_int16 b v16 = mb_append b (be_bytes 2 (unat v16))"
  "mb_append_int32 b v32 = mb_append b (be_bytes 4 (unat v32))"
  "mb_append_int64 b v64 = mb_append b (be_bytes 8 (unat v64))"
  by (simp_all add: mb_append_int8_def mb_append_int16_def mb_append_int32_def mb_append_int64_def
      mem_read_store store_htons store_htonl store_hton64) (simp add: store_le_def mem_read_def)

lemma mb_peek_int_bytes:
  assumes "mb_inv b"
  shows "2 \<le> mb_readable b \<Longrightarrow> mb_peek_int16 b = Inr (htons (load_le (take 2 (mb_contents b))))"
    and "4 \<le> mb_readable b \<Longrightarrow> mb_peek_int32 b = Inr (htonl (load_le (take 4 (mb_contents b))))"
    and "8 \<le> mb_readable b \<Longrightarrow> mb_peek_int64 b = Inr (ntoh64 (load_le (take 8 (mb_contents b))))"
    and "1 \<le> mb_readable b \<Longrightarrow> mb_peek_int8 b = Inr (load_le (take 1 (mb_contents b)))"
  using assms by (simp_all add: mb_peek_int8_def mb_peek_int16_def mb_peek_int32_def mb_peek_int64_def
      mem_read_contents)

lemma mb_peek_int_short:
  "mb_readable b < 2 \<Longrightarrow> mb_peek_int16 b = Inl AssertFailed"
  "mb_readable b < 4 \<Longrightarrow> mb_peek_int32 b = Inl AssertFailed"
  "mb_readable b < 4 \<Longrightarrow> mb_peek_int64 b = Inl AssertFailed"
  by (simp_all add: mb_peek_int16_def mb_peek_int32_def mb_peek_int64_def check_def)

lemma load_be:
  "htons (load_le (be_bytes 2 (unat v16))) = v16"
  "htonl (load_le (be_bytes 4 (unat v32))) = v32"
  "ntoh64 (load_le (be_bytes 8 (unat v64))) = v64"
proof -
  show "htons (load_le (be_bytes 2 (unat v16))) = v16"
    using htons_htons [of v16] by (metis load_store_16 store_htons)
  show "htonl (load_le (be_bytes 4 (unat v32))) = v32"
    using htonl_htonl [of v32] by (metis load_store_32 store_htonl)
  show "ntoh64 (load_le (be_bytes 8 (unat v64))) = v64"
    by (metis load_store_64 store_hton64 ntoh64_hton64')
qed

lemma load_byte [simp]: "load_le [b] = (b :: 8 word)"
  by (simp add: load_le_def)

lemma mb_read_int_decode:
  assumes "mb_inv b"
  shows "mb_contents b = v8 # rest \<Longrightarrow> mb_read_int8 b = Inr (v8, mb_retrieve b 1)"
    and "mb_contents b = be_bytes 2 (unat v16) @ rest \<Longrightarrow> mb_read_int16 b = Inr (v16, mb_retrieve b 2)"
    and "mb_contents b = be_bytes 4 (unat v32) @ rest \<Longrightarrow> mb_read_int32 b = Inr (v32, mb_retrieve b 4)"
    and "mb_contents b = be_bytes 8 (unat v64) @ rest \<Longrightarrow> mb_read_int64 b = Inr (v64, mb_retrieve b 8)"
  using assms by (simp_all add: mb_read_int8_def mb_read_int16_def mb_read_int32_def mb_read_int64_def
      mb_peek_int_bytes mb_readable_inv load_be)

lemma mb_append_short:
  assumes "mb_inv b" and "mb_fits b 8" and "mb_contents b = []" and "length bs \<le> 8"
  shows "\<exists>c. mb_append b bs = Inr c \<and> mb_inv c \<and> mb_contents c = bs"
  using mb_append_ok [OF assms(1), of bs] assms(2-4) by (auto simp: mb_fits_def)

lemma mb_read_int_all:
  assumes "mb_inv b"
  shows "mb_contents b = [v8] \<Longrightarrow> mb_read_int8 b = Inr (v8, mb_retrieve b 1)"
    and "mb_contents b = be_bytes 2 (unat v16) \<Longrightarrow> mb_read_int16 b = Inr (v16, mb_retrieve b 2)"
    and "mb_contents b = be_bytes 4 (unat v32) \<Longrightarrow> mb_read_int32 b = Inr (v32, mb_retrieve b 4)"
    and "mb_contents b = be_bytes 8 (unat v64) \<Longrightarrow> mb_read_int64 b = Inr (v64, mb_retrieve b 8)"
  using mb_read_int_decode [OF assms, where rest = "[]"] by simp_all

lemmas mb_int_simps = mb_append_int_bytes mb_read_int_all mb_retrieve_ok

section \<open>Adding in front\<close>

lemma mb_add_in_front_head:
  assumes "mb_inv b" and "length bs \<le> read_index b"
  shows "\<exists>c. mb_add_in_front b bs = Inr c \<and> mb_inv c \<and> mb_contents c = bs @ mb_contents b"
proof -
  note d = mb_invD [OF assms(1)]
  let ?o = "read_index b - length bs"
  let ?v = "take ?o (buffer b) @ bs @ drop (?o + length bs) (buffer b)"
  have w: "mem_write (buffer b) ?o bs = Inr ?v"
    using assms d by (intro mem_write_ok) simp
  have "window ?v ?o (write_index b)
        = window ?v ?o (?o + length bs) @ window ?v (?o + length bs) (write_index b)"
    using assms d by (intro window_split) auto
  also have "\<dots> = bs @ window (buffer b) (read_index b) (write_index b)"
    using assms d window_write_after [of ?o bs "buffer b" "?o + length bs" "write_index b"]
      window_write_at [of ?o "buffer b" bs "drop (?o + length bs) (buffer b)"] by simp
  finally show ?thesis
    using assms d by (simp add: mb_add_in_front_def Let_def w mb_inv_def mb_contents_def)
qed

lemma mb_add_in_front_shift:
  assumes "mb_inv b" and "read_index b < length bs" and "length bs \<le> mb_writeable b"
  shows "mb_add_in_front b bs =
    (if length bs < mb_readable b then Inl OverlapCopy
     else Inr (b\<lparr>buffer := take (read_index b) (buffer b) @ (bs @ mb_contents b) @
                   drop (write_index b + length bs) (buffer b),
                 write_index := write_index b + length bs\<rparr>))"
proof (cases "length bs < mb_readable b")
  case True
  then have "read_index b + length bs < write_index b"
    by (simp add: mb_readable_idx assms(1))
  with True show ?thesis
    using assms mb_invD [OF assms(1)] by (simp add: mb_add_in_front_def Let_def mem_copy_def)
next
  case False
  note d = mb_invD [OF assms(1)]
  let ?n = "write_index b - read_index b"
  let ?v = "take (read_index b + length bs) (buffer b) @ mb_contents b @
            drop (read_index b + length bs + ?n) (buffer b)"
  have len: "length (mb_contents b) = ?n"
    using mb_readable_inv [OF assms(1)] by (simp add: mb_readable_idx assms(1))
  have l: "write_index b + length bs \<le> length (buffer b)"
    using assms(3) d(2) by (simp add: mb_writeable_idx assms(1))
  have rd: "mem_read (buffer b) (read_index b) ?n = Inr (mb_contents b)"
    using mem_read_contents [OF assms(1), of ?n] len by (simp add: mb_readable_idx assms(1))
  have "mem_copy (buffer b) (read_index b) ?n (read_index b + length bs) = Inr ?v"
    using False l d by (simp add: mem_copy_def rd mem_write_ok len mb_readable_idx assms(1))
  moreover have "mem_write ?v (read_index b) bs
      = Inr (take (read_index b) (buffer b) @ bs @ mb_contents b @ drop (write_index b + length bs) (buffer b))"
    using l d by (simp add: mem_write_def len add.commute [of "length bs"])
  ultimately show ?thesis
    using False assms(2,3) l d by (simp add: mb_add_in_front_def Let_def szt_id)
qed

lemma mb_shifted:
  assumes "mb_inv b" and "read_index b < length bs" and "length bs \<le> mb_writeable b"
  defines "c \<equiv> b\<lparr>buffer := take (read_index b) (buffer b) @ (bs @ mb_contents b) @
                       drop (write_index b + length bs) (buffer b),
                 write_index := write_index b + length bs\<rparr>"
  shows "mb_inv c" and "mb_contents c = bs @ mb_contents b"
proof -
  note d = mb_invD [OF assms(1)]
  have len: "length (mb_contents b) = write_index b - read_index b"
    using mb_readable_inv [OF assms(1)] by (simp add: mb_readable_idx assms(1))
  have l: "write_index b + length bs \<le> length (buffer b)"
    using assms(3) d(2) by (simp add: mb_writeable_idx assms(1))
  then show "mb_inv c"
    using d assms(1) by (simp add: c_def mb_inv_def len)
  show "mb_contents c = bs @ mb_contents b"
    using window_write_at [of "read_index b" "buffer b" "bs @ mb_contents b"] d l
    by (simp add: c_def mb_contents_def [of "b\<lparr>buffer := _, write_index := _\<rparr>"] len add.commute)
qed

lemma mb_add_in_front_new:
  assumes "mb_inv b" and "read_index b < length bs" and "mb_writeable b < length bs"
    and "mb_fits b (length bs)"
  shows "\<exists>c. mb_add_in_front b bs = Inr c \<and> mb_inv c \<and> mb_contents c = bs @ mb_contents b"
proof -
  note d = mb_invD [OF assms(1)]
  have R: "mb_readable b \<le> length (buffer b)"
    using d by (simp add: mb_readable_idx assms(1))
  let ?n = "if szt (length bs + mb_readable b) < init_cap b then init_cap b
            else szt (length bs + mb_readable b)"
  have s: "szt (length bs + mb_readable b) = length bs + mb_readable b"
    using assms(4) R by (simp add: mb_fits_def vec_max_def szt_id)
  then have n: "8 \<le> ?n" "?n + 8 \<le> vec_max" "length bs + mb_readable b \<le> ?n"
    using d R assms(4) by (auto simp: mb_fits_def vec_max_def)
  obtain nb where nb: "mb_new ?n = Inr nb" "mb_inv nb" "mb_contents nb = []" "mb_writeable nb = ?n"
    "length (buffer nb) = ?n + 8" "read_index nb = 8"
    by (rule mb_new_ok [OF n(1,2)])
  obtain c where c: "mb_append nb bs = Inr c" "mb_inv c" "mb_contents c = bs"
    "length (buffer c) = length (buffer nb)" "read_index c = 8"
    by (rule mb_append_room_E [OF nb(2), of bs]) (use n nb in auto)
  have "mb_readable b \<le> mb_writeable c"
    using n(3) nb(5) c(3-5) mb_readable_inv [OF c(2)]
    by (simp add: mb_readable_idx c(2) mb_writeable_idx)
  with mb_append_buf_with_ok [of mb_ensure c b c] assms(1) c
  obtain e where "mb_append_buf c b = Inr e" "mb_inv e" "mb_contents e = bs @ mb_contents b"
    by (auto simp: mb_append_buf_def)
  with nb(1) c(1) assms(2,3) show ?thesis
    by (simp add: mb_add_in_front_def Let_def mb_swap_fst del: if_split)
qed

section \<open>Reading from a descriptor, and searching\<close>

lemma mb_read_fd_ok:
  assumes "mb_inv b" and "length bs \<le> mb_iov_len b" and "mb_fits b (length bs)"
  shows "\<exists>c. mb_read_fd b (Inr bs) = Inr (length bs, c, None) \<and> mb_inv c \<and>
    mb_contents c = mb_contents b @ bs \<and>
    length (buffer c) \<le> max (length (buffer b)) (2 * (length (mb_contents b) + length bs) + 24)"
proof -
  let ?w = "mb_writeable b"
  let ?f = "take ?w bs"
  obtain v where v: "mem_write (buffer b) (write_index b) ?f = Inr v"
    "mb_inv (b\<lparr>buffer := v, write_index := szt (write_index b + length ?f)\<rparr>)"
    "mb_contents (b\<lparr>buffer := v, write_index := szt (write_index b + length ?f)\<rparr>) = mb_contents b @ ?f"
    "length v = length (buffer b)"
    by (rule mb_write_behind [OF assms(1), of ?f]) auto
  show ?thesis
  proof (cases "length bs \<le> ?w")
    case True
    with v show ?thesis by (simp add: mb_read_fd_def Let_def)
  next
    case False
    let ?c = "b\<lparr>buffer := v, write_index := length v\<rparr>"
    have "szt (write_index b + length ?f) = length v"
      using False v(4) mb_invD [OF assms(1)] by (simp add: mb_writeable_idx assms(1) szt_id)
    then have c: "mb_inv ?c" "mb_contents ?c = mb_contents b @ ?f"
      using v(2,3) by simp_all
    moreover have "mb_fits ?c (length (drop ?w bs))"
      using assms(3) v(4) by (simp add: mb_fits_def)
    ultimately obtain e where "mb_append ?c (drop ?w bs) = Inr e" "mb_inv e"
      "mb_contents e = mb_contents b @ bs"
      "length (buffer e) \<le> max (length (buffer b)) (2 * (length (mb_contents b) + length bs) + 24)"
      using mb_append_ok [of ?c "drop ?w bs"] False v(4) by auto
    with v(1) False show ?thesis by (simp add: mb_read_fd_def Let_def)
  qed
qed

lemma std_search_le: "std_search xs pat \<le> length xs"
  by (induction xs) auto

lemma std_search_found: "std_search xs pat < length xs \<Longrightarrow>
    take (length pat) (drop (std_search xs pat) xs) = pat"
  by (induction xs) (auto split: if_splits)

lemma std_search_first: "i < std_search xs pat \<Longrightarrow> take (length pat) (drop i xs) \<noteq> pat"
proof (induction xs arbitrary: i)
  case (Cons x xs)
  then show ?case by (cases i) (auto split: if_splits)
qed simp

section \<open>Properties\<close>

text \<open>C12: From a fresh \<open>MsgBuffer(len)\<close> with \<open>len\<close> at least 8, every sequence of
  \<open>Append\<close> and \<open>Retrieve\<close> calls whose bytes fit in memory runs without a fault, keeps the
  invariant and is first-in first-out: the bytes retrieved followed by the bytes left are
  the bytes appended, in order.\<close>

theorem msg_buffer_fifo:
  assumes "8 \<le> len" and "len \<le> 2 * N" and "5 * N + 64 \<le> vec_max"
    and "length (concat (map put_bytes ops)) \<le> N" and "mb_new len = Inr b"
  shows "\<exists>out b'. queue_run mb_append mb_retrieve mb_contents ops b = Inr (out, b') \<and> mb_inv b' \<and>
    out @ mb_contents b' = concat (map put_bytes ops)"
proof -
  obtain b0 where b0: "mb_new len = Inr b0" "mb_inv b0" "mb_contents b0 = []"
    "length (buffer b0) = len + 8"
    by (rule mb_new_ok [OF assms(1)]) (use assms(2,3) in auto)
  with assms mbq.run_fifo [of b0 N ops] show ?thesis by auto
qed

theorem msg_buffer_fifo_witness:
  "\<exists>b out b'. mb_new 8 = Inr b \<and>
    queue_run mb_append mb_retrieve mb_contents [Put [1, 2, 3], Take 2, Put [4]] b = Inr (out, b') \<and>
    out @ mb_contents b' = [1, 2, 3, 4]"
proof -
  obtain b where b: "mb_new 8 = Inr b"
    by (rule mb_new_ok [of 8]) (simp_all add: vec_max_def)
  have "\<exists>out b'. queue_run mb_append mb_retrieve mb_contents [Put [1, 2, 3], Take 2, Put [4]] b
        = Inr (out, b') \<and> mb_inv b' \<and>
      out @ mb_contents b' = concat (map put_bytes [Put [1, 2, 3], Take 2, Put [4]])"
    by (rule msg_buffer_fifo [of 8 4]) (use b in \<open>simp_all add: vec_max_def\<close>)
  with b show ?thesis by (simp del: queue_run.simps) blast
qed

text \<open>All three \<open>Append\<close> overloads (raw bytes, string, other buffer) succeed when the
  grown vector stays below \<open>max_size()\<close>, whether they fit, compact or reallocate, and
  extend the contents at the back by exactly the given bytes.\<close>

theorem append_overloads:
  assumes "mb_inv b" and "mb_inv c" and "mb_fits b (length bs)" and "mb_contents c = bs"
  shows "(\<exists>d. mb_append b bs = Inr d \<and> mb_append_str b bs = Inr d \<and> mb_inv d \<and>
      mb_contents d = mb_contents b @ bs) \<and>
    (\<exists>e. mb_append_buf b c = Inr e \<and> mb_inv e \<and> mb_contents e = mb_contents b @ bs)"
  using mb_append_ok [OF assms(1,3)] mb_append_str_eq [OF assms(1,3)]
    mb_append_buf_ok [OF assms(1,2)] assms mb_readable_inv [OF assms(2)] by auto

theorem append_overloads_witness:
  "\<exists>b d. mb_new 8 = Inr b \<and> mb_append_str b [7, 8] = Inr d \<and> mb_contents d = [7, 8]"
proof -
  obtain b where b: "mb_new 8 = Inr b" "mb_inv b" "mb_contents b = []" "length (buffer b) = 16"
    by (rule mb_new_ok [of 8]) (simp_all add: vec_max_def)
  obtain c where c: "mb_inv c" "mb_contents c = [7, 8]"
    using mb_append_ok [OF b(2), of "[7, 8]"] b by (auto simp: mb_fits_def vec_max_def)
  show ?thesis
    using append_overloads [OF b(2) c(1) _ c(2)] b by (auto simp: mb_fits_def vec_max_def)
qed

text \<open>\<open>Read(n)\<close> returns the first \<open>min n ReadableBytes()\<close> bytes and removes exactly
  those; \<open>Retrieve(n)\<close> drops the first \<open>n\<close> bytes, all of them when fewer are left.\<close>

theorem read_retrieve:
  assumes "mb_inv b"
  shows "\<exists>c. mb_read b n = Inr (take n (mb_contents b), c) \<and> mb_inv c \<and>
    mb_contents c = drop n (mb_contents b) \<and> mb_contents (mb_retrieve b n) = drop n (mb_contents b)"
  using assms by (simp add: mb_read_ok mb_retrieve_ok mb_readable_inv min_def)

theorem read_retrieve_witness:
  "\<exists>b c d. mb_new 8 = Inr b \<and> mb_append b [1, 2, 3] = Inr c \<and> mb_read c 2 = Inr ([1, 2], d) \<and>
    mb_contents d = [3]"
proof -
  obtain b where b: "mb_new 8 = Inr b" "mb_inv b" "mb_contents b = []" "length (buffer b) = 16"
    by (rule mb_new_ok [of 8]) (simp_all add: vec_max_def)
  obtain c where c: "mb_append b [1, 2, 3] = Inr c" "mb_inv c" "mb_contents c = [1, 2, 3]"
    using mb_append_ok [OF b(2), of "[1, 2, 3]"] b by (auto simp: mb_fits_def vec_max_def)
  show ?thesis
    using read_retrieve [OF c(2), of 2] b(1) c by auto
qed

text \<open>C36: Integers round-trip in network order: \<open>AppendInt16/32/64\<close> on an empty buffer store
  the big-endian bytes of the value, and the matching \<open>ReadInt\<close> returns the value and
  leaves the buffer empty.\<close>

theorem int_roundtrip:
  assumes "mb_inv b" and "mb_fits b 8" and "mb_contents b = []"
  shows "(\<exists>c d. mb_append_int8 b v8 = Inr c \<and> mb_contents c = [v8] \<and>
      mb_read_int8 c = Inr (v8, d) \<and> mb_contents d = []) \<and>
    (\<exists>c d. mb_append_int16 b v16 = Inr c \<and> mb_contents c = be_bytes 2 (unat v16) \<and>
      mb_read_int16 c = Inr (v16, d) \<and> mb_contents d = []) \<and>
    (\<exists>c d. mb_append_int32 b v32 = Inr c \<and> mb_contents c = be_bytes 4 (unat v32) \<and>
      mb_read_int32 c = Inr (v32, d) \<and> mb_contents d = []) \<and>
    (\<exists>c d. mb_append_int64 b v64 = Inr c \<and> mb_contents c = be_bytes 8 (unat v64) \<and>
      mb_read_int64 c = Inr (v64, d) \<and> mb_contents d = [])"
proof (intro conjI)
  show "\<exists>c d. mb_append_int8 b v8 = Inr c \<and> mb_contents c = [v8] \<and>
      mb_read_int8 c = Inr (v8, d) \<and> mb_contents d = []"
    using mb_append_short [OF assms, of "[v8]"] by (auto simp: mb_int_simps)
  show "\<exists>c d. mb_append_int16 b v16 = Inr c \<and> mb_contents c = be_bytes 2 (unat v16) \<and>
      mb_read_int16 c = Inr (v16, d) \<and> mb_contents d = []"
    using mb_append_short [OF assms, of "be_bytes 2 (unat v16)"] by (auto simp: mb_int_simps)
  show "\<exists>c d. mb_append_int32 b v32 = Inr c \<and> mb_contents c = be_bytes 4 (unat v32) \<and>
      mb_read_int32 c = Inr (v32, d) \<and> mb_contents d = []"
    using mb_append_short [OF assms, of "be_bytes 4 (unat v32)"] by (auto simp: mb_int_simps)
  show "\<exists>c d. mb_append_int64 b v64 = Inr c \<and> mb_contents c = be_bytes 8 (unat v64) \<and>
      mb_read_int64 c = Inr (v64, d) \<and> mb_contents d = []"
    using mb_append_short [OF assms, of "be_bytes 8 (unat v64)"] by (auto simp: mb_int_simps)
qed

theorem int_roundtrip_witness:
  "\<exists>b c d. mb_new 8 = Inr b \<and> mb_append_int64 b 258 = Inr c \<and> mb_read_int64 c = Inr (258, d)"
proof -
  obtain b where b: "mb_new 8 = Inr b" "mb_inv b" "mb_contents b = []" "length (buffer b) = 16"
    by (rule mb_new_ok [of 8]) (simp_all add: vec_max_def)
  with int_roundtrip [of b 0 0 0 258] show ?thesis
    by (auto simp: mb_fits_def vec_max_def)
qed

text \<open>C37: \<open>AddInFront\<close> puts the bytes before the contents whenever it is defined, and it is
  undefined (the overlapping \<open>std::copy\<close>) exactly when there is no head room, the bytes fit
  behind the contents, and there are fewer of them than readable bytes.\<close>

theorem add_in_front_spec:
  assumes "mb_inv b" and "mb_fits b (length bs)"
  shows "(if read_index b < length bs \<and> length bs \<le> mb_writeable b \<and> length bs < mb_readable b
      then mb_add_in_front b bs = Inl OverlapCopy
      else \<exists>c. mb_add_in_front b bs = Inr c \<and> mb_inv c \<and> mb_contents c = bs @ mb_contents b)"
proof -
  consider "length bs \<le> read_index b"
    | "read_index b < length bs" "length bs \<le> mb_writeable b"
    | "read_index b < length bs" "mb_writeable b < length bs"
    by linarith
  then show ?thesis
  proof cases
    case 1
    with mb_add_in_front_head [OF assms(1)] show ?thesis by simp
  next
    case 2
    with mb_add_in_front_shift [OF assms(1) 2] mb_shifted [OF assms(1) 2] show ?thesis by auto
  next
    case 3
    with mb_add_in_front_new [OF assms(1) 3 assms(2)] show ?thesis by simp
  qed
qed

theorem add_in_front_spec_witness:
  "\<exists>b c d. mb_new 32 = Inr b \<and> mb_append b (replicate 20 1) = Inr c \<and>
     mb_add_in_front c (replicate 9 2) = Inl OverlapCopy \<and> mb_add_in_front c [3] = Inr d \<and>
     mb_contents d = 3 # replicate 20 1"
proof -
  obtain b where b: "mb_new 32 = Inr b" "mb_inv b" "mb_contents b = []" "length (buffer b) = 40"
    "mb_writeable b = 32" "read_index b = 8"
    by (rule mb_new_ok [of 32]) (simp_all add: vec_max_def)
  obtain c where c: "mb_append b (replicate 20 1) = Inr c" "mb_inv c" "mb_contents c = replicate 20 1"
    "length (buffer c) = 40" "read_index c = 8"
    by (rule mb_append_room_E [OF b(2), of "replicate 20 1"]) (use b in auto)
  have w: "mb_readable c = 20" "mb_writeable c = 12"
    using mb_readable_inv [OF c(2)] c(3-5) mb_invD(1) [OF c(2)]
    by (simp_all add: mb_readable_idx mb_writeable_idx c(2))
  have "mb_add_in_front c (replicate 9 2) = Inl OverlapCopy"
    using add_in_front_spec [OF c(2), of "replicate 9 2"] w c(4,5) by (simp add: mb_fits_def vec_max_def)
  moreover have "\<exists>d. mb_add_in_front c [3] = Inr d \<and> mb_contents d = 3 # replicate 20 1"
    using add_in_front_spec [OF c(2), of "[3]"] w c(3-5) by (auto simp: mb_fits_def vec_max_def)
  ultimately show ?thesis using b(1) c(1) by blast
qed

text \<open>\<open>AddInFrontInt32\<close> reads four bytes of a two-byte object in every call, and
  \<open>AddInFrontInt64\<close> puts only the four most significant bytes of its value in front, so a
  value below \<open>2\<^sup>3\<^sup>2\<close> becomes four zero bytes; the 8 and 16 bit versions are exact.\<close>

theorem add_in_front_ints:
  "mb_add_in_front_int32 b v32 = Inl OutOfBounds \<and>
   mb_add_in_front_int64 b v64 = mb_add_in_front b (be_bytes 4 (unat v64 div 2 ^ 32)) \<and>
   mb_add_in_front_int16 b v16 = mb_add_in_front b (be_bytes 2 (unat v16)) \<and>
   mb_add_in_front_int8 b v8 = mb_add_in_front b [v8]"
proof -
  have "be_bytes 8 (unat v64) = be_bytes 4 (unat v64 div 256 ^ 4) @ be_bytes 4 (unat v64)"
    using le_bytes_add [of 4 4 "unat v64"] by (simp add: be_bytes_def)
  then have "mb_add_in_front_int64 b v64 = mb_add_in_front b (be_bytes 4 (unat v64 div 2 ^ 32))"
    by (simp add: mb_add_in_front_int64_def store_hton64 mem_read_def)
  moreover have "store_le v8 = [v8]"
    by (simp add: store_le_def)
  ultimately show ?thesis
    by (simp add: mb_add_in_front_int32_def mb_add_in_front_int16_def mb_add_in_front_int8_def
        store_htons mem_read_store mem_read_def)
qed

text \<open>\<open>ReadFd\<close> appends exactly the bytes \<open>readv\<close> delivered, whether they fit the
  vector or spill into the 64 KiB stack buffer, and returns their number; on an error it
  leaves the buffer alone, stores the errno and returns the largest \<open>size_t\<close>.\<close>

theorem read_fd_spec:
  assumes "mb_inv b" and "length bs \<le> mb_iov_len b" and "mb_fits b (length bs)"
  shows "(\<exists>c. mb_read_fd b (Inr bs) = Inr (length bs, c, None) \<and> mb_inv c \<and>
      mb_contents c = mb_contents b @ bs) \<and>
    mb_read_fd b (Inl e) = Inr (2 ^ 64 - 1, b, Some e)"
  using mb_read_fd_ok [OF assms] by (auto simp: mb_read_fd_def)

theorem read_fd_spec_witness:
  "\<exists>b c. mb_new 8 = Inr b \<and> mb_read_fd b (Inr (replicate 20 5)) = Inr (20, c, None) \<and>
     mb_contents c = replicate 20 5"
proof -
  obtain b where b: "mb_new 8 = Inr b" "mb_inv b" "mb_contents b = []" "length (buffer b) = 16"
    "mb_writeable b = 8"
    by (rule mb_new_ok [of 8]) (simp_all add: vec_max_def)
  have "\<exists>c. mb_read_fd b (Inr (replicate 20 5)) = Inr (length (replicate 20 (5 :: byte)), c, None) \<and>
      mb_inv c \<and> mb_contents c = mb_contents b @ replicate 20 5"
    using read_fd_spec [OF b(2), of "replicate 20 5"] b(4,5)
    by (simp add: mb_iov_len_def ext_len_def mb_fits_def vec_max_def Let_def)
  with b show ?thesis by auto
qed

text \<open>\<open>FindCRLF\<close> finds the first carriage-return line-feed pair of the contents, and
  returns the null pointer exactly when there is none.\<close>

theorem find_crlf_spec:
  assumes "mb_inv b"
  shows "(case mb_find_crlf b of
      None \<Rightarrow> \<forall>i. take 2 (drop i (mb_contents b)) \<noteq> crlf
    | Some p \<Rightarrow> read_index b \<le> p \<and> take 2 (drop (p - read_index b) (mb_contents b)) = crlf \<and>
        (\<forall>i < p - read_index b. take 2 (drop i (mb_contents b)) \<noteq> crlf))"
proof -
  let ?k = "std_search (mb_contents b) crlf"
  have e: "read_index b + ?k = write_index b \<longleftrightarrow> ?k = length (mb_contents b)"
    using mb_readable_inv [OF assms] mb_invD(1) [OF assms] by (auto simp: mb_readable_idx assms)
  have c: "length crlf = 2" "crlf \<noteq> []"
    by (simp_all add: crlf_def)
  show ?thesis
  proof (cases "?k = length (mb_contents b)")
    case True
    have "take 2 (drop i (mb_contents b)) \<noteq> crlf" for i
      using std_search_first [of i "mb_contents b" crlf] True c
      by (cases "i < length (mb_contents b)") auto
    with True e show ?thesis by (simp add: mb_find_crlf_def)
  next
    case False
    with std_search_le [of "mb_contents b" crlf] have "?k < length (mb_contents b)"
      by simp
    with std_search_found [of "mb_contents b" crlf] std_search_first [of _ "mb_contents b" crlf] False e c
    show ?thesis by (simp add: mb_find_crlf_def)
  qed
qed

theorem find_crlf_spec_witness:
  "\<exists>b c. mb_new 8 = Inr b \<and> mb_append b [71, 13, 10, 13, 10] = Inr c \<and>
     take 2 (drop 1 (mb_contents c)) = crlf \<and> mb_find_crlf c \<noteq> None"
proof -
  obtain b where b: "mb_new 8 = Inr b" "mb_inv b" "mb_contents b = []" "length (buffer b) = 16"
    by (rule mb_new_ok [of 8]) (simp_all add: vec_max_def)
  obtain c where c: "mb_append b [71, 13, 10, 13, 10] = Inr c" "mb_inv c"
    "mb_contents c = [71, 13, 10, 13, 10]"
    using mb_append_ok [OF b(2), of "[71, 13, 10, 13, 10]"] b by (auto simp: mb_fits_def vec_max_def)
  have t: "take 2 (drop 1 (mb_contents c)) = crlf"
    by (simp add: c(3) crlf_def)
  with find_crlf_spec [OF c(2)] have "mb_find_crlf c \<noteq> None"
    by (auto split: option.splits)
  with b(1) c(1) t show ?thesis by blast
qed

text \<open>\<open>ReadInt64\<close> asserts only four readable bytes: with four to seven of them and room
  in the vector it returns a value made of the readable bytes and of stale bytes behind the
  write index, and two buffers with the same contents give different values.\<close>

theorem peek_int64_stale:
  "\<exists>b1 b2. mb_inv b1 \<and> mb_inv b2 \<and> mb_contents b1 = mb_contents b2 \<and> mb_readable b1 = 4 \<and>
      mb_peek_int64 b1 = Inr 1 \<and> mb_peek_int64 b2 = Inr 2"
proof -
  let ?b = "\<lambda>v. \<lparr>read_index = 8, init_cap = 8, write_index = 12, buffer = replicate 8 0 @ be_bytes 8 v\<rparr>"
  have inv: "mb_inv (?b v)" for v
    by (simp add: mb_inv_def buf_offset_def vec_max_def)
  have val: "mb_peek_int64 (?b (unat w)) = Inr w" for w :: "64 word"
    using load_be(3) [of w] by (simp add: mb_peek_int64_def mb_readable_def mem_read_def)
  have c: "mb_contents (?b 1) = mb_contents (?b 2)"
    by code_simp
  show "\<exists>b1 b2. mb_inv b1 \<and> mb_inv b2 \<and> mb_contents b1 = mb_contents b2 \<and> mb_readable b1 = 4 \<and>
      mb_peek_int64 b1 = Inr 1 \<and> mb_peek_int64 b2 = Inr 2"
    using inv [of 1] inv [of 2] val [of 1] val [of 2] c
    by (intro exI [of _ "?b 1"] exI [of _ "?b 2"]) (simp add: mb_readable_def)
qed

text \<open>\<open>MsgBuffer(len)\<close> with \<open>len\<close> below 8 is broken by \<open>RetrieveAll\<close>: the vector is
  cut to \<open>len\<close> bytes while the indices go to 8, \<open>WriteableBytes()\<close> wraps to almost
  \<open>2\<^sup>6\<^sup>4\<close>, and the next \<open>Append\<close> writes outside the vector.\<close>

theorem small_capacity_broken:
  assumes "len < 8" and "mb_new len = Inr b" and "length bs < 2 ^ 63"
  shows "mb_writeable (mb_retrieve_all b) = 2 ^ 64 + len - 8 \<and>
    mb_append (mb_retrieve_all b) bs = Inl OutOfBounds"
proof -
  have b: "b = \<lparr>read_index = 8, init_cap = len, write_index = 8, buffer = replicate (len + 8) 0\<rparr>"
    using assms(1,2) by (simp add: mb_new_def buf_offset_def szt_id vec_max_def)
  have r: "mb_retrieve_all b =
      \<lparr>read_index = 8, init_cap = len, write_index = 8, buffer = replicate len 0\<rparr>"
    using assms(1) by (simp add: b mb_retrieve_all_def szt_id buf_offset_def vec_resize_def)
  have w: "mb_writeable (mb_retrieve_all b) = 2 ^ 64 + len - 8"
    using assms(1) by (simp add: r mb_writeable_def sz_sub_def)
  then have "mb_ensure (mb_retrieve_all b) (length bs) = Inr (mb_retrieve_all b)"
    using assms(3) by (intro mb_ensure_room) simp
  with w show ?thesis
    using assms(1) by (simp add: mb_append_def r mem_write_def)
qed

theorem small_capacity_broken_witness:
  "\<exists>b. mb_new 0 = Inr b \<and> mb_append (mb_retrieve_all b) [1] = Inl OutOfBounds"
proof -
  obtain b where "mb_new 0 = Inr b"
    by (simp add: mb_new_def szt_id buf_offset_def vec_max_def)
  with small_capacity_broken [of 0 b "[1]"] show ?thesis by simp
qed

text \<open>Under the invariant \<open>RetrieveAll\<close> never gives memory back: it only resets the
  indices, so a buffer that has grown keeps its grown vector (and its \<open>init_cap\<close>).\<close>

theorem retrieve_all_keeps_memory:
  assumes "mb_inv b"
  shows "buffer (mb_retrieve_all b) = buffer b \<and> init_cap (mb_retrieve_all b) = init_cap b \<and>
    mb_contents (mb_retrieve_all b) = [] \<and> mb_inv (mb_retrieve_all b)"
  using mb_invD [OF assms] assms
  by (simp add: mb_retrieve_all_inv mb_contents_def mb_inv_def buf_offset_def)

theorem retrieve_all_keeps_memory_witness:
  "\<exists>b c. mb_new 8 = Inr b \<and> mb_append b (replicate 100 1) = Inr c \<and>
     buffer (mb_retrieve_all c) = buffer c \<and> 100 \<le> length (buffer (mb_retrieve_all c))"
proof -
  obtain b where b: "mb_new 8 = Inr b" "mb_inv b" "mb_contents b = []" "length (buffer b) = 16"
    by (rule mb_new_ok [of 8]) (simp_all add: vec_max_def)
  obtain c where c: "mb_append b (replicate 100 1) = Inr c" "mb_inv c" "mb_contents c = replicate 100 1"
    using mb_append_ok [OF b(2), of "replicate 100 1"] b by (auto simp: mb_fits_def vec_max_def)
  have "100 \<le> length (buffer c)"
    using mb_readable_inv [OF c(2)] c(3) mb_invD(2) [OF c(2)] by (simp add: mb_readable_idx c(2))
  with b(1) c(1) retrieve_all_keeps_memory [OF c(2)] show ?thesis by auto
qed

end
