(* ===== verification/Decimal.thy ===== *)
theory Decimal
  imports Water_Prelude "HOL-Library.Signed_Division"
begin

text \<open>
  Decimal text as the C library writes it: the digits of a natural number, the \<open>printf\<close>
  conversions \<open>%d\<close>, \<open>%u\<close>, \<open>%ld\<close> with and without a zero-padded or space-padded field
  width, and a reader for the round trips. The logger, the dates, the log files and the
  addresses share it.
\<close>

section \<open>Digits\<close>

definition digit :: "nat \<Rightarrow> char" where
  "digit d = char_of (48 + d)"

definition digit_val :: "char \<Rightarrow> nat" where
  "digit_val c = of_char c - 48"

function dec :: "nat \<Rightarrow> string" where
  "dec n = (if n < 10 then [digit n] else dec (n div 10) @ [digit (n mod 10)])"
  by pat_completeness auto
termination
  by (relation "measure id") auto

declare dec.simps [simp del]

lemma dec_lt10: "n < 10 \<Longrightarrow> dec n = [digit n]"
  by (simp add: dec.simps [of n])

lemma dec_ge10: "10 \<le> n \<Longrightarrow> dec n = dec (n div 10) @ [digit (n mod 10)]"
  by (simp add: dec.simps [of n])

lemma digit_char:
  "digit 0 = CHR ''0''" "digit 1 = CHR ''1''" "digit 2 = CHR ''2''" "digit 3 = CHR ''3''"
  "digit 4 = CHR ''4''" "digit 5 = CHR ''5''" "digit 6 = CHR ''6''" "digit 7 = CHR ''7''"
  "digit 8 = CHR ''8''" "digit 9 = CHR ''9''"
  by code_simp+

lemma digit_val_digit [simp]: "d < 10 \<Longrightarrow> digit_val (digit d) = d"
  by (simp add: digit_def digit_val_def)

lemma digit_inj: "a < 10 \<Longrightarrow> b < 10 \<Longrightarrow> digit a = digit b \<longleftrightarrow> a = b"
  by (metis digit_val_digit)

definition is_digit :: "char \<Rightarrow> bool" where
  "is_digit c \<longleftrightarrow> 48 \<le> (of_char c :: nat) \<and> (of_char c :: nat) < 58"

lemma is_digit_digit [simp]: "d < 10 \<Longrightarrow> is_digit (digit d)"
  by (simp add: is_digit_def digit_def)

lemma dec_ne [simp]: "dec n \<noteq> []"
  by (cases "n < 10") (simp_all add: dec_lt10 dec_ge10)

lemma dec_digits: "c \<in> set (dec n) \<Longrightarrow> is_digit c"
proof (induction n rule: dec.induct)
  case (1 n)
  then show ?case by (cases "n < 10") (auto simp: dec_lt10 dec_ge10)
qed

lemma length_dec: "0 < k \<Longrightarrow> n < 10 ^ k \<Longrightarrow> length (dec n) \<le> k"
proof (induction n arbitrary: k rule: dec.induct)
  case (1 n)
  show ?case
  proof (cases "n < 10")
    case True
    with "1.prems" show ?thesis by (simp add: dec_lt10)
  next
    case False
    with "1.prems" have k: "1 < k" "n div 10 < 10 ^ (k - 1)"
      by (cases k; cases "k = 1"; simp add: less_mult_imp_div_less mult.commute)+
    with "1.IH" [of "k - 1"] False show ?thesis by (simp add: dec_ge10)
  qed
qed

lemma length_dec_ge: "10 ^ k \<le> n \<Longrightarrow> k < length (dec n)"
proof (induction k arbitrary: n)
  case 0
  show ?case using dec_ne [of n] by (cases "dec n") auto
next
  case (Suc k)
  have "10 ^ k \<le> n div 10"
    using Suc.prems by (simp add: less_eq_div_iff_mult_less_eq mult.commute)
  moreover have "10 \<le> n"
    using Suc.prems by (metis le_trans mult_le_mono2 nat_mult_1_right one_le_power one_le_numeral power_Suc)
  ultimately show ?case
    using Suc.IH [of "n div 10"] by (simp add: dec_ge10)
qed

section \<open>Reading\<close>

primrec dec_val_from :: "nat \<Rightarrow> string \<Rightarrow> nat" where
  "dec_val_from a [] = a"
| "dec_val_from a (c # cs) = dec_val_from (10 * a + digit_val c) cs"

definition dec_val :: "string \<Rightarrow> nat" where
  "dec_val s = dec_val_from 0 s"

lemma dec_val_from_append [simp]:
  "dec_val_from a (s @ t) = dec_val_from (dec_val_from a s) t"
  by (induction s arbitrary: a) auto

lemma dec_val_dec [simp]: "dec_val (dec n) = n"
proof (induction n rule: dec.induct)
  case (1 n)
  then show ?case
    by (cases "n < 10") (simp_all add: dec_lt10 dec_ge10 dec_val_def)
qed

lemma dec_inject: "dec m = dec n \<longleftrightarrow> m = n"
  by (metis dec_val_dec)

text \<open>\<open>strtol\<close>-like: an optional minus sign, then digits.\<close>

fun int_val :: "string \<Rightarrow> int" where
  "int_val [] = 0"
| "int_val (c # cs) = (if c = CHR ''-'' then - int (dec_val cs) else int (dec_val (c # cs)))"

definition int_text :: "int \<Rightarrow> string" where
  "int_text i = (if i < 0 then CHR ''-'' # dec (nat (- i)) else dec (nat i))"

lemma dec_hd_not_minus: "hd (dec n) \<noteq> CHR ''-''"
  using dec_digits [of "hd (dec n)" n] by (auto simp: is_digit_def)

lemma int_val_int_text [simp]: "int_val (int_text i) = i"
proof (cases "i < 0")
  case False
  then have "int_val (dec (nat i)) = int (dec_val (dec (nat i)))"
    using dec_hd_not_minus [of "nat i"] by (cases "dec (nat i)") auto
  with False show ?thesis by (simp add: int_text_def)
qed (simp add: int_text_def)

section \<open>Field widths\<close>

text \<open>\<open>%0\<close>\<^emph>\<open>w\<close>\<open>d\<close> and \<open>%\<close>\<^emph>\<open>w\<close>\<open>d\<close> of a number that is not negative.\<close>

definition pad0 :: "nat \<Rightarrow> nat \<Rightarrow> string" where
  "pad0 w n = replicate (w - length (dec n)) (CHR ''0'') @ dec n"

definition pad_sp :: "nat \<Rightarrow> nat \<Rightarrow> string" where
  "pad_sp w n = replicate (w - length (dec n)) (CHR '' '') @ dec n"

lemma length_pad0: "0 < w \<Longrightarrow> n < 10 ^ w \<Longrightarrow> length (pad0 w n) = w"
  using length_dec [of w n] by (simp add: pad0_def)

lemma length_pad_sp: "0 < w \<Longrightarrow> n < 10 ^ w \<Longrightarrow> length (pad_sp w n) = w"
  using length_dec [of w n] by (simp add: pad_sp_def)

lemma dec_val_from_zeros [simp]: "dec_val_from 0 (replicate k (CHR ''0'')) = 0"
  by (induction k) (simp_all add: digit_val_def)

lemma dec_val_pad0 [simp]: "dec_val (pad0 w n) = n"
  using dec_val_dec [of n] by (simp add: pad0_def dec_val_def)

lemma pad0_inject: "pad0 w m = pad0 w n \<longleftrightarrow> m = n"
  by (metis dec_val_pad0)

text \<open>The signed conversions: a field of width \<open>w\<close> whose zeros come after the sign.\<close>

definition pad0_int :: "nat \<Rightarrow> int \<Rightarrow> string" where
  "pad0_int w i = (if i < 0 then CHR ''-'' # pad0 (w - 1) (nat (- i)) else pad0 w (nat i))"

definition pad_sp_int :: "nat \<Rightarrow> int \<Rightarrow> string" where
  "pad_sp_int w i = replicate (w - length (int_text i)) (CHR '' '') @ int_text i"

end
