(* ===== verification/Log_Stream.thy ===== *)
theory Log_Stream
  imports Decimal
begin

text \<open>
  \<open>FixedBuffer\<close> and \<open>LogStream\<close> (\<open>src/water/base/log_stream.h\<close>, \<open>log_stream.cc\<close>): a
  character array with a current position, and the \<open>operator<<\<close> overloads that format into
  it. The array keeps its size; every write goes through \<open>mem_write\<close>. The state theorem is
  that the position stays strictly inside the array, so that no overload and no
  \<open>DebugStr\<close> ever writes outside it, and that an item is written whole or not at all.
\<close>

section \<open>Integer to text\<close>

definition kDigits :: string where "kDigits = ''9876543210123456789''"

definition kDigitsHex :: string where "kDigitsHex = ''0123456789ABCDEF''"

text \<open>
  The \<open>do\<close> loop of \<open>Convert\<close>: \<open>%\<close> and \<open>/\<close> truncate towards zero, so the digits of a
  negative value come out of \<open>kZero\<close> at negative indices.
\<close>

function convert_loop :: "int \<Rightarrow> string" where
  "convert_loop i =
     (let lsd = i smod 10; i' = i sdiv 10; c = kDigits ! nat (9 + lsd) in
      if i' \<noteq> 0 then c # convert_loop i' else [c])"
  by pat_completeness auto
termination
proof (relation "measure (\<lambda>i. nat \<bar>i\<bar>)")
  fix i x i' :: int and c
  assume "i' = i sdiv 10" "i' \<noteq> 0"
  then show "(i', i) \<in> measure (\<lambda>i. nat \<bar>i\<bar>)"
    by (auto simp: signed_divide_int_def abs_mult)
qed simp

declare convert_loop.simps [simp del]

definition convert :: "int \<Rightarrow> string" where
  "convert value =
     (let p = convert_loop value;
          p = (if value < 0 then p @ [CHR ''-''] else p)
      in rev p)"

function convert_hex_loop :: "nat \<Rightarrow> string" where
  "convert_hex_loop i =
     (let lsd = i mod 16; i' = i div 16; c = kDigitsHex ! lsd in
      if i' \<noteq> 0 then c # convert_hex_loop i' else [c])"
  by pat_completeness auto
termination
  by (relation "measure id") auto

declare convert_hex_loop.simps [simp del]

definition convert_hex :: "64 word \<Rightarrow> string" where
  "convert_hex value = rev (convert_hex_loop (unat value))"

section \<open>\<open>FixedBuffer\<close>\<close>

definition kSmallBuffer :: nat where "kSmallBuffer = 4000"
definition kLargeBuffer :: nat where "kLargeBuffer = 4000 * 1000"

record fixed_buffer =
  data :: string
  cur :: nat

text \<open>The array is not initialised by the constructor: its characters are arbitrary.\<close>

definition fb_new :: "string \<Rightarrow> fixed_buffer" where
  "fb_new garbage = \<lparr>data = garbage, cur = 0\<rparr>"

definition fb_length :: "fixed_buffer \<Rightarrow> nat" where
  "fb_length b = cur b"

definition fb_avail :: "fixed_buffer \<Rightarrow> int" where
  "fb_avail b = int (length (data b)) - int (cur b)"

definition fb_add :: "fixed_buffer \<Rightarrow> nat \<Rightarrow> fixed_buffer" where
  "fb_add b len = b\<lparr>cur := cur b + len\<rparr>"

definition fb_reset :: "fixed_buffer \<Rightarrow> fixed_buffer" where
  "fb_reset b = b\<lparr>cur := 0\<rparr>"

definition fb_bzero :: "fixed_buffer \<Rightarrow> fixed_buffer" where
  "fb_bzero b = b\<lparr>data := replicate (length (data b)) (CHR 0x00)\<rparr>"

definition fb_to_string :: "fixed_buffer \<Rightarrow> string" where
  "fb_to_string b = window (data b) 0 (cur b)"

text \<open>\<open>static_cast<size_t>(Avail())\<close> wraps a negative value.\<close>

definition fb_append :: "fixed_buffer \<Rightarrow> string \<Rightarrow> fixed_buffer res" where
  "fb_append b buf =
     (if int (length buf) < fb_avail b mod 2 ^ 64
      then bind_res (mem_write (data b) (cur b) buf) (\<lambda>d.
             Inr (b\<lparr>data := d, cur := cur b + length buf\<rparr>))
      else Inr b)"

definition fb_debug_str :: "fixed_buffer \<Rightarrow> fixed_buffer res" where
  "fb_debug_str b =
     bind_res (mem_write (data b) (cur b) [CHR 0x00]) (\<lambda>d. Inr (b\<lparr>data := d\<rparr>))"

section \<open>\<open>LogStream\<close>\<close>

definition kMaxNumericSize :: nat where "kMaxNumericSize = 32"

definition format_integer :: "fixed_buffer \<Rightarrow> int \<Rightarrow> fixed_buffer res" where
  "format_integer b val =
     (if int kMaxNumericSize \<le> fb_avail b
      then bind_res (mem_write (data b) (cur b) (convert val @ [CHR 0x00])) (\<lambda>d.
             Inr (fb_add (b\<lparr>data := d\<rparr>) (length (convert val))))
      else Inr b)"

text \<open>\<open>operator<<(const void*)\<close> advances by the digits only, not by the \<open>0x\<close>.\<close>

definition ls_put_ptr :: "fixed_buffer \<Rightarrow> 64 word \<Rightarrow> fixed_buffer res" where
  "ls_put_ptr b val =
     (if int kMaxNumericSize \<le> fb_avail b
      then bind_res (mem_write (data b) (cur b) (CHR ''0'' # CHR ''x'' # convert_hex val @ [CHR 0x00]))
             (\<lambda>d. Inr (fb_add (b\<lparr>data := d\<rparr>) (length (convert_hex val))))
      else Inr b)"

text \<open>
  \<open>operator<<(double)\<close>, given the text \<open>%.12g\<close> formats the value to: \<open>snprintf\<close> stores at
  most 31 characters and a terminator, and returns the full length.
\<close>

definition ls_put_double :: "fixed_buffer \<Rightarrow> string \<Rightarrow> fixed_buffer res" where
  "ls_put_double b text =
     (if int kMaxNumericSize \<le> fb_avail b
      then bind_res (mem_write (data b) (cur b) (take (kMaxNumericSize - 1) text @ [CHR 0x00])) (\<lambda>d.
             Inr (fb_add (b\<lparr>data := d\<rparr>) (length text)))
      else Inr b)"

definition ls_put_bool :: "fixed_buffer \<Rightarrow> bool \<Rightarrow> fixed_buffer res" where
  "ls_put_bool b val = fb_append b (if val then ''1'' else ''0'')"

definition ls_put_char :: "fixed_buffer \<Rightarrow> char \<Rightarrow> fixed_buffer res" where
  "ls_put_char b val = fb_append b [val]"

text \<open>A C string is \<open>None\<close> for the null pointer, else its characters up to the terminator.\<close>

definition ls_put_cstr :: "fixed_buffer \<Rightarrow> string option \<Rightarrow> fixed_buffer res" where
  "ls_put_cstr b str = (case str of Some s \<Rightarrow> fb_append b s | None \<Rightarrow> fb_append b ''(null)'')"

definition ls_put_string :: "fixed_buffer \<Rightarrow> string \<Rightarrow> fixed_buffer res" where
  "ls_put_string b str = fb_append b str"

definition ls_append :: "fixed_buffer \<Rightarrow> string \<Rightarrow> fixed_buffer res" where
  "ls_append b str = fb_append b str"

definition ls_put_int :: "fixed_buffer \<Rightarrow> 32 word \<Rightarrow> fixed_buffer res" where
  "ls_put_int b val = format_integer b (sint val)"

definition ls_put_uint :: "fixed_buffer \<Rightarrow> 32 word \<Rightarrow> fixed_buffer res" where
  "ls_put_uint b val = format_integer b (uint val)"

definition ls_put_short :: "fixed_buffer \<Rightarrow> 16 word \<Rightarrow> fixed_buffer res" where
  "ls_put_short b val = ls_put_int b (scast val)"

definition ls_put_ushort :: "fixed_buffer \<Rightarrow> 16 word \<Rightarrow> fixed_buffer res" where
  "ls_put_ushort b val = ls_put_uint b (ucast val)"

definition ls_put_long :: "fixed_buffer \<Rightarrow> 64 word \<Rightarrow> fixed_buffer res" where
  "ls_put_long b val = format_integer b (sint val)"

definition ls_put_ulong :: "fixed_buffer \<Rightarrow> 64 word \<Rightarrow> fixed_buffer res" where
  "ls_put_ulong b val = format_integer b (uint val)"

definition ls_put_llong :: "fixed_buffer \<Rightarrow> 64 word \<Rightarrow> fixed_buffer res" where
  "ls_put_llong b val = format_integer b (sint val)"

definition ls_put_ullong :: "fixed_buffer \<Rightarrow> 64 word \<Rightarrow> fixed_buffer res" where
  "ls_put_ullong b val = format_integer b (uint val)"

text \<open>The overload set as one datatype, and a chain \<open>stream << a << b << ...\<close>.\<close>

datatype item =
    IBool bool | IChar char | ICStr "string option" | IString string
  | IShort "16 word" | IUShort "16 word" | IInt "32 word" | IUInt "32 word"
  | ILong "64 word" | IULong "64 word" | ILLong "64 word" | IULLong "64 word"
  | IPtr "64 word" | IDouble string

fun ls_put :: "fixed_buffer \<Rightarrow> item \<Rightarrow> fixed_buffer res" where
  "ls_put b (IBool v) = ls_put_bool b v"
| "ls_put b (IChar v) = ls_put_char b v"
| "ls_put b (ICStr v) = ls_put_cstr b v"
| "ls_put b (IString v) = ls_put_string b v"
| "ls_put b (IShort v) = ls_put_short b v"
| "ls_put b (IUShort v) = ls_put_ushort b v"
| "ls_put b (IInt v) = ls_put_int b v"
| "ls_put b (IUInt v) = ls_put_uint b v"
| "ls_put b (ILong v) = ls_put_long b v"
| "ls_put b (IULong v) = ls_put_ulong b v"
| "ls_put b (ILLong v) = ls_put_llong b v"
| "ls_put b (IULLong v) = ls_put_ullong b v"
| "ls_put b (IPtr v) = ls_put_ptr b v"
| "ls_put b (IDouble v) = ls_put_double b v"

fun ls_put_all :: "fixed_buffer \<Rightarrow> item list \<Rightarrow> fixed_buffer res" where
  "ls_put_all b [] = Inr b"
| "ls_put_all b (it # its) = bind_res (ls_put b it) (\<lambda>b. ls_put_all b its)"

section \<open>The loop of \<open>Convert\<close> against decimal text\<close>

lemma kDigits_nth: "d < 10 \<Longrightarrow> kDigits ! (9 + d) = digit d \<and> kDigits ! (9 - d) = digit d"
proof -
  assume "d < 10"
  moreover have "\<forall>d \<in> set [0..<10]. kDigits ! (9 + d) = digit d \<and> kDigits ! (9 - d) = digit d"
    by code_simp
  ultimately show ?thesis by simp
qed

lemma convert_digit: "kDigits ! nat (9 + i smod 10) = digit (nat (\<bar>i\<bar> mod 10))"
proof -
  have b: "nat (\<bar>i\<bar> mod 10) < 10" by simp
  consider "0 \<le> i" | "i < 0" by linarith
  then show ?thesis
  proof cases
    case 1
    then have "i smod 10 = \<bar>i\<bar> mod 10"
      by (simp add: smod_int_alt_def sgn_if)
    then have "nat (9 + i smod 10) = 9 + nat (\<bar>i\<bar> mod 10)"
      by (simp add: nat_add_distrib)
    with kDigits_nth [OF b] show ?thesis by simp
  next
    case 2
    then have "i smod 10 = - (\<bar>i\<bar> mod 10)"
      by (simp add: smod_int_alt_def)
    then have "nat (9 + i smod 10) = 9 - nat (\<bar>i\<bar> mod 10)"
      by simp
    with kDigits_nth [OF b] show ?thesis by simp
  qed
qed

lemma convert_loop_dec: "convert_loop i = rev (dec (nat \<bar>i\<bar>))"
proof (induction i rule: convert_loop.induct)
  case (1 i)
  have a: "\<bar>i sdiv 10\<bar> = \<bar>i\<bar> div 10"
    by (auto simp: signed_divide_int_def abs_mult sgn_if)
  then have z: "i sdiv 10 \<noteq> 0 \<longleftrightarrow> 10 \<le> nat \<bar>i\<bar>"
    by (metis abs_eq_0 div_pos_pos_trivial abs_ge_zero linorder_not_less nat_less_iff
        pos_imp_zdiv_pos_iff zero_less_numeral of_nat_numeral order_less_irrefl)
  show ?case
  proof (cases "i sdiv 10 = 0")
    case True
    with z have "nat \<bar>i\<bar> < 10" by simp
    with True show ?thesis
      by (simp add: convert_loop.simps [of i] Let_def convert_digit dec_lt10)
  next
    case False
    with z have "10 \<le> nat \<bar>i\<bar>" by simp
    then have "dec (nat \<bar>i\<bar>) = dec (nat \<bar>i sdiv 10\<bar>) @ [digit (nat (\<bar>i\<bar> mod 10))]"
      by (simp add: dec_ge10 a nat_div_distrib nat_mod_distrib)
    with "1.IH" [OF refl refl refl False] False show ?thesis
      by (simp add: convert_loop.simps [of i] Let_def convert_digit)
  qed
qed

lemma convert_eq_int_text: "convert i = int_text i"
  by (simp add: convert_def convert_loop_dec int_text_def Let_def)

text \<open>Hexadecimal digits read back to the value.\<close>

definition hex_digit_val :: "char \<Rightarrow> nat" where
  "hex_digit_val c = (if is_digit c then digit_val c else of_char c - 55)"

definition hex_val :: "string \<Rightarrow> nat" where
  "hex_val s = foldl (\<lambda>a c. 16 * a + hex_digit_val c) 0 s"

lemma kDigitsHex_val: "d < 16 \<Longrightarrow> hex_digit_val (kDigitsHex ! d) = d"
proof -
  assume "d < 16"
  moreover have "\<forall>d \<in> set [0..<16]. hex_digit_val (kDigitsHex ! d) = d"
    by code_simp
  ultimately show ?thesis by simp
qed

lemma convert_hex_loop_val: "hex_val (rev (convert_hex_loop n)) = n"
proof (induction n rule: convert_hex_loop.induct)
  case (1 i)
  show ?case
  proof (cases "i div 16 = 0")
    case True
    then have "i < 16" by (simp add: div_eq_0_iff)
    then show ?thesis
      by (simp add: convert_hex_loop.simps [of i] Let_def hex_val_def kDigitsHex_val)
  next
    case False
    have "hex_val (rev (convert_hex_loop (i div 16)) @ [kDigitsHex ! (i mod 16)])
        = 16 * (i div 16) + i mod 16"
      using "1.IH" [OF refl refl refl False] by (simp add: hex_val_def kDigitsHex_val)
    with False show ?thesis
      by (simp add: convert_hex_loop.simps [of i] Let_def)
  qed
qed

lemma length_convert_hex_loop: "0 < k \<Longrightarrow> n < 16 ^ k \<Longrightarrow> length (convert_hex_loop n) \<le> k"
proof (induction k arbitrary: n)
  case (Suc k)
  show ?case
  proof (cases "n div 16 = 0")
    case False
    then have "k \<noteq> 0" using Suc.prems by (intro notI) simp
    moreover have "n div 16 < 16 ^ k"
      using Suc.prems(2) by (simp add: less_mult_imp_div_less mult.commute)
    ultimately show ?thesis
      using Suc.IH [of "n div 16"] False by (simp add: convert_hex_loop.simps [of n] Let_def)
  qed (simp add: convert_hex_loop.simps [of n] Let_def)
qed simp

lemma length_convert_hex: "length (convert_hex v) \<le> 16"
  using length_convert_hex_loop [of 16 "unat v"] unsigned_less [of v, where 'a = nat]
  by (simp add: convert_hex_def)

lemma length_int_text: "\<bar>i\<bar> < 10 ^ 20 \<Longrightarrow> length (int_text i) \<le> 21"
  using length_dec [of 20 "nat i"] length_dec [of 20 "nat (- i)"]
  by (cases "i < 0") (simp_all add: int_text_def nat_less_iff)

section \<open>The buffer invariant\<close>

definition fb_inv :: "fixed_buffer \<Rightarrow> bool" where
  "fb_inv b \<longleftrightarrow> cur b < length (data b) \<and> length (data b) < 2 ^ 31"

lemma fb_avail_mod: "fb_inv b \<Longrightarrow> fb_avail b mod 2 ^ 64 = int (length (data b) - cur b)"
  by (simp add: fb_inv_def fb_avail_def of_nat_diff)

text \<open>Write a piece of text at the position and advance over its first \<open>k\<close> characters.\<close>

lemma fb_write:
  assumes "fb_inv b" and "cur b + length w \<le> length (data b)" and "k \<le> length w"
    and "cur b + k < length (data b)"
  obtains d where "mem_write (data b) (cur b) w = Inr d" "fb_inv (b\<lparr>data := d, cur := cur b + k\<rparr>)"
    "fb_to_string (b\<lparr>data := d, cur := cur b + k\<rparr>) = fb_to_string b @ take k w"
    "length d = length (data b)"
proof
  let ?d = "take (cur b) (data b) @ w @ drop (cur b + length w) (data b)"
  show "mem_write (data b) (cur b) w = Inr ?d"
    using assms(2) by (rule mem_write_ok)
  have "window ?d 0 (cur b + k) = window (data b) 0 (cur b) @ take k w"
  proof -
    have "window ?d 0 (cur b + k) = take (cur b + k) ?d"
      by (simp add: window_def)
    also have "\<dots> = take (cur b) (data b) @ take k w"
      using assms(2,3) by simp
    finally show ?thesis by (simp add: window_def)
  qed
  then show "fb_to_string (b\<lparr>data := ?d, cur := cur b + k\<rparr>) = fb_to_string b @ take k w"
    by (simp add: fb_to_string_def)
  show "fb_inv (b\<lparr>data := ?d, cur := cur b + k\<rparr>)" "length ?d = length (data b)"
    using assms by (simp_all add: fb_inv_def)
qed

text \<open>The text of an item, and what of it the stream leaves: of a pointer all but the last two
  characters.\<close>

definition item_text :: "item \<Rightarrow> string" where
  "item_text it = (case it of
      IBool v \<Rightarrow> (if v then ''1'' else ''0'')
    | IChar c \<Rightarrow> [c]
    | ICStr s \<Rightarrow> (case s of Some s \<Rightarrow> s | None \<Rightarrow> ''(null)'')
    | IString s \<Rightarrow> s
    | IShort w \<Rightarrow> int_text (sint w) | IUShort w \<Rightarrow> int_text (uint w)
    | IInt w \<Rightarrow> int_text (sint w) | IUInt w \<Rightarrow> int_text (uint w)
    | ILong w \<Rightarrow> int_text (sint w) | IULong w \<Rightarrow> int_text (uint w)
    | ILLong w \<Rightarrow> int_text (sint w) | IULLong w \<Rightarrow> int_text (uint w)
    | IPtr w \<Rightarrow> ''0x'' @ convert_hex w
    | IDouble s \<Rightarrow> s)"

definition left_text :: "item \<Rightarrow> string" where
  "left_text it = (case it of IPtr w \<Rightarrow> take (length (item_text it) - 2) (item_text it) | _ \<Rightarrow> item_text it)"

lemma left_text_ptr: "left_text (IPtr w) = take (length (convert_hex w)) (''0x'' @ convert_hex w)"
  by (simp add: left_text_def item_text_def)

lemma left_text_else: "(\<And>w. it \<noteq> IPtr w) \<Longrightarrow> left_text it = item_text it"
  by (cases it) (auto simp: left_text_def)

lemma left_text_two: "\<exists>a b. item_text (IPtr w) = left_text (IPtr w) @ [a, b]"
proof -
  let ?s = "item_text (IPtr w)" and ?n = "length (item_text (IPtr w)) - 2"
  have two: "length xs = 2 \<Longrightarrow> \<exists>a b. xs = [a, b]" for xs :: string
    by (auto simp: length_Suc_conv numeral_2_eq_2)
  have "length (drop ?n ?s) = 2" by (simp add: item_text_def)
  from two [OF this] obtain a b where "drop ?n ?s = [a, b]" by blast
  then have "?s = take ?n ?s @ [a, b]" by (metis append_take_drop_id)
  then show ?thesis by (auto simp: left_text_def)
qed

text \<open>What an item needs of \<open>Avail()\<close> to be written.\<close>

definition item_needs :: "item \<Rightarrow> nat" where
  "item_needs it = (case it of
      IBool v \<Rightarrow> 2 | IChar c \<Rightarrow> 2
    | ICStr s \<Rightarrow> Suc (length (item_text it)) | IString s \<Rightarrow> Suc (length (item_text it))
    | _ \<Rightarrow> kMaxNumericSize)"

text \<open>\<open>%.12g\<close> never yields more than 19 characters; 31 is what the code relies on.\<close>

definition item_ok :: "item \<Rightarrow> bool" where
  "item_ok it = (case it of IDouble s \<Rightarrow> length s < kMaxNumericSize | _ \<Rightarrow> True)"

definition ls_step :: "fixed_buffer \<Rightarrow> nat \<Rightarrow> string \<Rightarrow> fixed_buffer res \<Rightarrow> bool" where
  "ls_step b needs text r \<longleftrightarrow>
     (\<exists>c. r = Inr c \<and> fb_inv c \<and> length (data c) = length (data b) \<and>
       (if cur b + needs \<le> length (data b)
        then fb_to_string c = fb_to_string b @ text \<and> cur c = cur b + length text
        else c = b))"

lemma fb_append_step:
  assumes "fb_inv b"
  shows "ls_step b (Suc (length s)) s (fb_append b s)"
proof (cases "cur b + Suc (length s) \<le> length (data b)")
  case True
  obtain d where "mem_write (data b) (cur b) s = Inr d"
    "fb_inv (b\<lparr>data := d, cur := cur b + length s\<rparr>)"
    "fb_to_string (b\<lparr>data := d, cur := cur b + length s\<rparr>) = fb_to_string b @ take (length s) s"
    "length d = length (data b)"
    by (rule fb_write [OF assms, of s "length s"]) (use True in auto)
  with True show ?thesis
    using fb_avail_mod [OF assms] by (simp add: ls_step_def fb_append_def)
next
  case False
  then have "\<not> length s < length (data b) - cur b"
    by simp
  with False assms show ?thesis
    using fb_avail_mod [OF assms] by (simp add: ls_step_def fb_append_def)
qed

text \<open>A numeric field: \<open>w\<close> with its terminator is written, the position advances by \<open>k\<close>.\<close>

lemma numeric_step:
  assumes "fb_inv b" and "length w < kMaxNumericSize" and "k \<le> length w"
  shows "ls_step b kMaxNumericSize (take k w)
    (if int kMaxNumericSize \<le> fb_avail b
     then bind_res (mem_write (data b) (cur b) (w @ [CHR 0x00])) (\<lambda>d.
            Inr (fb_add (b\<lparr>data := d\<rparr>) k))
     else Inr b)"
proof (cases "cur b + kMaxNumericSize \<le> length (data b)")
  case True
  obtain d where "mem_write (data b) (cur b) (w @ [CHR 0x00]) = Inr d"
    "fb_inv (b\<lparr>data := d, cur := cur b + k\<rparr>)"
    "fb_to_string (b\<lparr>data := d, cur := cur b + k\<rparr>) = fb_to_string b @ take k (w @ [CHR 0x00])"
    "length d = length (data b)"
    by (rule fb_write [OF assms(1), of "w @ [CHR 0x00]" k]) (use True assms(2,3) in auto)
  with True assms(3) show ?thesis
    by (simp add: ls_step_def fb_avail_def fb_add_def)
next
  case False
  with assms(1) show ?thesis by (simp add: ls_step_def fb_avail_def)
qed

lemma format_integer_step:
  assumes "fb_inv b" and "\<bar>i\<bar> < 10 ^ 20"
  shows "ls_step b kMaxNumericSize (int_text i) (format_integer b i)"
  using numeric_step [OF assms(1), of "int_text i" "length (int_text i)"] length_int_text [OF assms(2)]
  unfolding format_integer_def convert_eq_int_text kMaxNumericSize_def
  by (simp split del: if_split)

lemma sint_abs: "\<bar>sint (w :: 'a::len word)\<bar> \<le> 2 ^ (LENGTH('a) - 1)"
  using sint_greater_eq [of w] sint_less [of w] by simp

lemma word_abs_bounds:
  "\<bar>sint (w16 :: 16 word)\<bar> < 10 ^ 20" "\<bar>uint w16\<bar> < 10 ^ 20"
  "\<bar>sint (w32 :: 32 word)\<bar> < 10 ^ 20" "\<bar>uint w32\<bar> < 10 ^ 20"
  "\<bar>sint (w64 :: 64 word)\<bar> < 10 ^ 20" "\<bar>uint w64\<bar> < 10 ^ 20"
  using sint_abs [of w16] sint_abs [of w32] sint_abs [of w64]
    unsigned_less [of w16, where 'a = int] unsigned_less [of w32, where 'a = int]
    unsigned_less [of w64, where 'a = int]
  by simp_all

lemma short_promotes: "sint (scast (w :: 16 word) :: 32 word) = sint w"
  "uint (ucast (w :: 16 word) :: 32 word) = uint w"
proof -
  show "sint (scast w :: 32 word) = sint w"
    using sint_greater_eq [of w] sint_less [of w]
    by (simp add: signed_scast_eq signed_take_bit_int_eq_self)
  show "uint (ucast w :: 32 word) = uint w"
    using unsigned_less [of w, where 'a = int] by (simp add: unsigned_ucast_eq take_bit_int_eq_self)
qed

lemma ls_put_step:
  assumes "fb_inv b" and "item_ok it"
  shows "ls_step b (item_needs it) (left_text it) (ls_put b it)"
proof (cases it)
  case (IPtr w)
  have "ls_step b kMaxNumericSize (take (length (convert_hex w)) (''0x'' @ convert_hex w)) (ls_put_ptr b w)"
    using numeric_step [OF assms(1), of "''0x'' @ convert_hex w" "length (convert_hex w)"]
      length_convert_hex [of w]
    unfolding ls_put_ptr_def kMaxNumericSize_def append_Cons append_Nil
    by (simp split del: if_split)
  with IPtr show ?thesis by (simp add: left_text_ptr item_needs_def)
next
  case (IDouble t)
  with assms(2) have t: "take (kMaxNumericSize - 1) t = t" "length t < kMaxNumericSize"
    by (simp_all add: item_ok_def)
  have "ls_step b kMaxNumericSize t (ls_put_double b t)"
    using numeric_step [OF assms(1) t(2), of "length t"] unfolding ls_put_double_def t(1)
    by (simp split del: if_split)
  with IDouble show ?thesis by (simp add: left_text_def item_text_def item_needs_def)
next
  case (IBool v)
  with fb_append_step [OF assms(1), of "''1''"] fb_append_step [OF assms(1), of "''0''"] show ?thesis
    by (simp add: ls_put_bool_def left_text_def item_text_def item_needs_def numeral_2_eq_2)
next
  case (IChar v)
  with fb_append_step [OF assms(1), of "[v]"] show ?thesis
    by (simp add: ls_put_char_def left_text_def item_text_def item_needs_def numeral_2_eq_2)
next
  case (ICStr v)
  with fb_append_step [OF assms(1)] fb_append_step [OF assms(1), of "''(null)''"] show ?thesis
    by (cases v) (simp_all add: ls_put_cstr_def left_text_def item_text_def item_needs_def)
next
  case (IString v)
  with fb_append_step [OF assms(1), of v] show ?thesis
    by (simp add: ls_put_string_def left_text_def item_text_def item_needs_def)
qed (use format_integer_step [OF assms(1)] word_abs_bounds in
      \<open>simp_all add: left_text_def item_text_def item_needs_def ls_put_short_def ls_put_ushort_def ls_put_int_def
        ls_put_uint_def ls_put_long_def ls_put_ulong_def ls_put_llong_def ls_put_ullong_def
        short_promotes\<close>)

text \<open>A chain of \<open><<\<close>: what ends up in the buffer, item by item.\<close>

fun chain_text :: "nat \<Rightarrow> nat \<Rightarrow> item list \<Rightarrow> string" where
  "chain_text sz pos [] = []"
| "chain_text sz pos (it # its) =
     (if pos + item_needs it \<le> sz
      then left_text it @ chain_text sz (pos + length (left_text it)) its
      else chain_text sz pos its)"

lemma ls_put_all_chain:
  assumes "fb_inv b" and "list_all item_ok its"
  shows "\<exists>c. ls_put_all b its = Inr c \<and> fb_inv c \<and> length (data c) = length (data b) \<and>
    fb_to_string c = fb_to_string b @ chain_text (length (data b)) (cur b) its"
  using assms
proof (induction its arbitrary: b)
  case (Cons it its)
  from ls_put_step [of b it] Cons.prems obtain c where c: "ls_put b it = Inr c" "fb_inv c"
    "length (data c) = length (data b)"
    "if cur b + item_needs it \<le> length (data b)
     then fb_to_string c = fb_to_string b @ left_text it \<and> cur c = cur b + length (left_text it)
     else c = b"
    by (auto simp: ls_step_def)
  with Cons.IH [of c] Cons.prems show ?case
    by (auto split: if_splits)
qed simp

lemma left_text_needs:
  assumes "item_ok it"
  shows "length (left_text it) \<le> item_needs it"
proof -
  have t: "length (int_text i) \<le> 32" if "\<bar>i\<bar> < 10 ^ 20" for i
    using length_int_text [OF that] by simp
  have h: "length (convert_hex w) \<le> 32" for w
    using length_convert_hex [of w] by simp
  from assms show ?thesis
    using word_abs_bounds [THEN t] h
    by (cases it) (auto simp: left_text_def item_text_def item_needs_def item_ok_def kMaxNumericSize_def
        split: option.split)
qed

lemma chain_text_fits:
  "pos + (\<Sum>it \<leftarrow> its. item_needs it) \<le> sz \<Longrightarrow> list_all item_ok its \<Longrightarrow>
   chain_text sz pos its = concat (map left_text its)"
proof (induction its arbitrary: pos)
  case (Cons it its)
  with left_text_needs [of it] show ?case by simp
qed simp

section \<open>Properties\<close>

text \<open>C34: \<open>Convert\<close> produces the decimal text of every integer, the most negative ones
  included: a minus sign and the digits without leading zeros, which read back to the
  value, in at most 21 characters for 64-bit arguments.\<close>

theorem convert_correct:
  "convert i = (if i < 0 then CHR ''-'' # dec (nat (- i)) else dec (nat i)) \<and>
   int_val (convert i) = i \<and> length (convert (sint (w :: 64 word))) \<le> 21 \<and>
   length (convert (uint w)) \<le> 21"
  using word_abs_bounds(5,6) [of w, THEN length_int_text] int_val_int_text [of i]
  by (simp add: convert_eq_int_text) (simp add: int_text_def)

text \<open>C33: A \<open>LogStream\<close> chain never writes outside its array and keeps the write position
  strictly inside it, so the terminator of \<open>DebugStr\<close> fits too. Every item is written whole
  or, when it does not fit, not at all, but for a pointer: of its text, \<open>0x\<close> and the
  hexadecimal digits, the last two characters are always lost.\<close>

theorem log_stream_chain:
  assumes "fb_inv b" and "list_all item_ok its"
  shows "\<exists>c. ls_put_all b its = Inr c \<and> fb_inv c \<and> length (data c) = length (data b) \<and>
    fb_to_string c = fb_to_string b @ chain_text (length (data b)) (cur b) its \<and>
    (\<exists>d. fb_debug_str c = Inr d) \<and>
    (\<forall>it. (\<forall>p. it \<noteq> IPtr p) \<longrightarrow> left_text it = item_text it) \<and>
    (\<forall>p. \<exists>x y. ''0x'' @ convert_hex p = left_text (IPtr p) @ [x, y] \<and> hex_val (convert_hex p) = unat p)"
proof -
  from ls_put_all_chain [OF assms] obtain c where c: "ls_put_all b its = Inr c" "fb_inv c"
    "length (data c) = length (data b)"
    "fb_to_string c = fb_to_string b @ chain_text (length (data b)) (cur b) its"
    by blast
  moreover from c have "\<exists>d. fb_debug_str c = Inr d"
    by (simp add: fb_debug_str_def fb_inv_def mem_write_ok)
  moreover have "\<exists>x y. ''0x'' @ convert_hex p = left_text (IPtr p) @ [x, y] \<and> hex_val (convert_hex p) = unat p" for p
    using left_text_two [of p] by (simp add: item_text_def convert_hex_def convert_hex_loop_val)
  ultimately show ?thesis using left_text_else by blast
qed

theorem log_stream_chain_witness:
  "\<exists>c. ls_put_all (fb_new (replicate kSmallBuffer (CHR 0x00))) [ICStr (Some ''n=''), IInt (- 42), IPtr 4660] = Inr c \<and>
     fb_to_string c = ''n=-420x12''"
proof -
  let ?b = "fb_new (replicate kSmallBuffer (CHR 0x00))" and ?its = "[ICStr (Some ''n=''), IInt (- 42), IPtr 4660]"
  have h: "convert_hex 4660 = ''1234''"
    by (simp add: convert_hex_def convert_hex_loop.simps Let_def kDigitsHex_def)
  have "fb_inv ?b" "list_all item_ok ?its"
    by (simp_all add: fb_inv_def fb_new_def item_ok_def kSmallBuffer_def)
  then obtain c where c: "ls_put_all ?b ?its = Inr c"
    "fb_to_string c = fb_to_string ?b @ chain_text (length (data ?b)) (cur ?b) ?its"
    using log_stream_chain [of ?b ?its] by blast
  moreover have "fb_to_string ?b = []"
    by (simp add: fb_to_string_def fb_new_def)
  moreover have "chain_text (length (data ?b)) (cur ?b) ?its = ''n=-420x12''"
    by (simp add: fb_new_def item_needs_def left_text_def item_text_def h int_text_def dec.simps digit_char
        kMaxNumericSize_def kSmallBuffer_def)
  ultimately show ?thesis by auto
qed

text \<open>\<open>operator<<(const void*)\<close> advances past the digits but not past the \<open>0x\<close> it
  wrote in front of them: the text that stays has lost its last two characters, although the
  digits themselves are the pointer's hexadecimal digits.\<close>

theorem pointer_text_truncated:
  assumes "fb_inv b" and "cur b + 32 \<le> length (data b)"
  shows "\<exists>c. ls_put_ptr b p = Inr c \<and> hex_val (convert_hex p) = unat p \<and>
    fb_to_string c = fb_to_string b @ take (length (convert_hex p)) (''0x'' @ convert_hex p)"
  using ls_put_step [OF assms(1), of "IPtr p"] assms(2)
  by (auto simp: ls_step_def item_ok_def left_text_ptr item_needs_def kMaxNumericSize_def
      convert_hex_def convert_hex_loop_val)

theorem pointer_text_truncated_witness:
  "\<exists>c. ls_put_ptr (fb_new (replicate kSmallBuffer (CHR 0x00))) 4660 = Inr c \<and> fb_to_string c = ''0x12''"
proof -
  have h: "convert_hex 4660 = ''1234''"
    by (simp add: convert_hex_def convert_hex_loop.simps Let_def kDigitsHex_def)
  show ?thesis
    using pointer_text_truncated [of "fb_new (replicate kSmallBuffer (CHR 0x00))" 4660]
    by (simp add: h fb_inv_def fb_new_def kSmallBuffer_def) (auto simp: fb_to_string_def)
qed

end
