(* ===== verification/Date_Time.thy ===== *)
theory Date_Time
  imports Decimal
begin

text \<open>
  \<open>Date\<close> (\<open>src/water/base/date.h\<close>, \<open>date.cc\<close>): a signed 64-bit count of microseconds
  since the epoch, an \<open>int\<close> here, with the conversions that leave its range a fault. What
  the class uses of the C library is defined first: IEEE double arithmetic (a dyadic
  rational \<open>m * 2\<^sup>e\<close> rounded to 53 bits, ties to even; no infinities, NaNs or
  subnormals), \<open>gmtime_r\<close> on the proleptic Gregorian calendar, and the conversions of
  \<open>strftime\<close> that the log file names need.
\<close>

section \<open>Doubles\<close>

datatype dbl = Dbl (dmant: int) (dexp: int)

fun nbits :: "nat \<Rightarrow> nat" where
  "nbits n = (if n = 0 then 0 else Suc (nbits (n div 2)))"

declare nbits.simps [simp del]

definition round53 :: "int \<Rightarrow> int \<Rightarrow> dbl" where
  "round53 m e =
     (let k = nbits (nat \<bar>m\<bar>) - 53 in
      if k = 0 then Dbl m e
      else let q = \<bar>m\<bar> div 2 ^ k; r = \<bar>m\<bar> mod 2 ^ k;
               q' = (if 2 ^ (k - 1) < r \<or> r = 2 ^ (k - 1) \<and> odd q then q + 1 else q)
           in Dbl (sgn m * q') (e + int k))"

definition dbl_of_int :: "int \<Rightarrow> dbl" where
  "dbl_of_int i = round53 i 0"

definition dbl_mul :: "dbl \<Rightarrow> dbl \<Rightarrow> dbl" where
  "dbl_mul a b = round53 (dmant a * dmant b) (dexp a + dexp b)"

definition dbl_align :: "int \<Rightarrow> dbl \<Rightarrow> int" where
  "dbl_align e a = dmant a * 2 ^ nat (dexp a - e)"

definition dbl_add :: "dbl \<Rightarrow> dbl \<Rightarrow> dbl" where
  "dbl_add a b = (let e = min (dexp a) (dexp b) in round53 (dbl_align e a + dbl_align e b) e)"

definition dbl_less :: "dbl \<Rightarrow> dbl \<Rightarrow> bool" where
  "dbl_less a b = (let e = min (dexp a) (dexp b) in dbl_align e a < dbl_align e b)"

text \<open>Conversion to an integer truncates towards zero.\<close>

definition dbl_trunc :: "dbl \<Rightarrow> int" where
  "dbl_trunc a = (if 0 \<le> dexp a then dmant a * 2 ^ nat (dexp a) else dmant a sdiv 2 ^ nat (- dexp a))"

lemma nbits_le: "n < 2 ^ k \<Longrightarrow> nbits n \<le> k"
proof (induction k arbitrary: n)
  case (Suc k)
  then show ?case by (simp add: nbits.simps [of n])
qed (simp add: nbits.simps)

lemma round53_exact: "\<bar>m\<bar> < 2 ^ 53 \<Longrightarrow> round53 m e = Dbl m e"
  using nbits_le [of "nat \<bar>m\<bar>" 53] by (simp add: round53_def nat_less_iff)

section \<open>\<open>gmtime_r\<close>\<close>

record tm =
  tm_year :: int   \<comment> \<open>years since 1900\<close>
  tm_mon :: nat    \<comment> \<open>0 to 11\<close>
  tm_mday :: nat   \<comment> \<open>1 to 31\<close>
  tm_hour :: nat
  tm_min :: nat
  tm_sec :: nat

definition is_leap :: "nat \<Rightarrow> bool" where
  "is_leap y \<longleftrightarrow> 4 dvd y \<and> (\<not> 100 dvd y \<or> 400 dvd y)"

definition year_len :: "nat \<Rightarrow> nat" where
  "year_len y = (if is_leap y then 366 else 365)"

definition month_lens :: "nat \<Rightarrow> nat list" where
  "month_lens y = [31, if is_leap y then 29 else 28, 31, 30, 31, 30, 31, 31, 30, 31, 30, 31]"

function split_year :: "nat \<Rightarrow> nat \<Rightarrow> nat \<times> nat" where
  "split_year d y = (if d < year_len y then (y, d) else split_year (d - year_len y) (Suc y))"
  by pat_completeness auto
termination
  by (relation "measure fst") (auto simp: year_len_def)

declare split_year.simps [simp del]

fun split_month :: "nat list \<Rightarrow> nat \<Rightarrow> nat \<Rightarrow> nat \<times> nat" where
  "split_month [] d m = (m, d)"
| "split_month (l # ls) d m = (if d < l then (m, d) else split_month ls (d - l) (Suc m))"

text \<open>The calendar repeats every 400 years, that is every 146097 days.\<close>

definition gmtime :: "int \<Rightarrow> tm" where
  "gmtime secs =
     (let days = secs div 86400; s = nat (secs mod 86400);
          (y, doy) = split_year (nat (days mod 146097)) 1970;
          (m, d) = split_month (month_lens y) doy 0
      in \<lparr>tm_year = int y + 400 * (days div 146097) - 1900, tm_mon = m, tm_mday = Suc d,
          tm_hour = s div 3600, tm_min = s mod 3600 div 60, tm_sec = s mod 60\<rparr>)"

text \<open>The inverse on broken-down times in range (\<open>timegm\<close>; \<open>mktime\<close> in a fixed zone).\<close>

definition days_before_year :: "int \<Rightarrow> int" where
  "days_before_year Y =
     (let n = nat ((Y - 1970) mod 400) in
      (\<Sum>i\<leftarrow>[1970..<1970 + n]. int (year_len i)) + (Y - 1970) div 400 * 146097)"

definition timegm :: "tm \<Rightarrow> int" where
  "timegm t =
     (let Y = tm_year t + 1900; y = 1970 + nat ((Y - 1970) mod 400) in
      (days_before_year Y + int (sum_list (take (tm_mon t) (month_lens y))) + int (tm_mday t) - 1) * 86400
      + int (tm_hour t) * 3600 + int (tm_min t) * 60 + int (tm_sec t))"

section \<open>\<open>Date\<close>\<close>

definition micro_seconds_per_sec :: int where "micro_seconds_per_sec = 1000000"

type_synonym date = int

definition date_of_micros :: "int \<Rightarrow> date" where
  "date_of_micros micro_seconds = micro_seconds"

definition date_zero :: date where "date_zero = 0"

definition int64_ok :: "int \<Rightarrow> bool" where
  "int64_ok i \<longleftrightarrow> - (2 ^ 63) \<le> i \<and> i < 2 ^ 63"

definition date_after :: "date \<Rightarrow> dbl \<Rightarrow> date res" where
  "date_after d seconds =
     (let r = dbl_trunc (dbl_add (dbl_of_int d) (dbl_mul seconds (dbl_of_int micro_seconds_per_sec)))
      in bind_res (check (int64_ok r) OutOfBounds) (\<lambda>_. Inr (date_of_micros r)))"

text \<open>\<open>Now\<close>, given what \<open>gettimeofday\<close> stored.\<close>

definition date_now :: "int \<Rightarrow> int \<Rightarrow> date" where
  "date_now tv_sec tv_usec = date_of_micros (tv_sec * micro_seconds_per_sec + tv_usec)"

definition date_less :: "date \<Rightarrow> date \<Rightarrow> bool" where "date_less a b = (a < b)"
definition date_greater :: "date \<Rightarrow> date \<Rightarrow> bool" where "date_greater a b = (b < a)"

definition is_same_second :: "date \<Rightarrow> date \<Rightarrow> bool" where
  "is_same_second a b = (a sdiv micro_seconds_per_sec = b sdiv micro_seconds_per_sec)"

definition round_second :: "date \<Rightarrow> date" where
  "round_second d = date_of_micros (d - d smod micro_seconds_per_sec)"

text \<open>\<open>snprintf\<close> into 128 characters keeps at most 127.\<close>

definition to_formatted_string :: "date \<Rightarrow> bool \<Rightarrow> string" where
  "to_formatted_string d show_micro_seconds =
     (let seconds = d sdiv micro_seconds_per_sec;
          t = gmtime seconds;
          head = pad_sp_int 4 (tm_year t + 1900) @ pad0 2 (tm_mon t + 1) @ pad0 2 (tm_mday t) @ '' '' @
                 pad0 2 (tm_hour t) @ '':'' @ pad0 2 (tm_min t) @ '':'' @ pad0 2 (tm_sec t)
      in take 127 (if show_micro_seconds
                   then head @ ''.'' @ pad0_int 6 (d smod micro_seconds_per_sec)
                   else head))"

text \<open>
  The \<open>strftime\<close> conversions in use; another conversion, or a text that does not fit the
  256 characters of the buffer, is \<open>None\<close>.
\<close>

fun strftime :: "string \<Rightarrow> tm \<Rightarrow> string option" where
  "strftime [] t = Some []"
| "strftime (CHR ''%'' # c # cs) t =
     (case strftime cs t of None \<Rightarrow> None
      | Some s \<Rightarrow>
          if c = CHR ''y'' then Some (pad0 2 (nat (tm_year t mod 100)) @ s)
          else if c = CHR ''m'' then Some (pad0 2 (tm_mon t + 1) @ s)
          else if c = CHR ''d'' then Some (pad0 2 (tm_mday t) @ s)
          else if c = CHR ''H'' then Some (pad0 2 (tm_hour t) @ s)
          else if c = CHR ''M'' then Some (pad0 2 (tm_min t) @ s)
          else if c = CHR ''S'' then Some (pad0 2 (tm_sec t) @ s)
          else None)"
| "strftime (c # cs) t = (if c = CHR ''%'' then None else map_option (Cons c) (strftime cs t))"

definition to_customed_formatted_string :: "date \<Rightarrow> string \<Rightarrow> string option" where
  "to_customed_formatted_string d fmt =
     (case strftime fmt (gmtime (d sdiv micro_seconds_per_sec)) of
        None \<Rightarrow> None
      | Some s \<Rightarrow> if length s < 256 then Some s else None)"

text \<open>\<open>RoundDay\<close>, given \<open>localtime\<close> and \<open>mktime\<close> of the process's time zone.\<close>

definition round_day :: "(int \<Rightarrow> tm) \<Rightarrow> (tm \<Rightarrow> int) \<Rightarrow> date \<Rightarrow> date" where
  "round_day localtime mktime d =
     (let t = localtime (d sdiv micro_seconds_per_sec);
          t = t\<lparr>tm_hour := 0, tm_min := 0, tm_sec := 0\<rparr>
      in date_of_micros (mktime t * micro_seconds_per_sec))"

section \<open>The calendar is a bijection\<close>

lemma split_year_sum:
  "split_year d y = (y', r) \<Longrightarrow>
   y \<le> y' \<and> r < year_len y' \<and> d = (\<Sum>i\<leftarrow>[y..<y']. year_len i) + r"
proof (induction d y arbitrary: y' r rule: split_year.induct)
  case (1 d y)
  show ?case
  proof (cases "d < year_len y")
    case True
    with "1.prems" show ?thesis by (simp add: split_year.simps [of d y])
  next
    case False
    with "1.prems" have "split_year (d - year_len y) (Suc y) = (y', r)"
      by (simp add: split_year.simps [of d y])
    with "1.IH" [OF False this] False show ?thesis
      by (auto simp: upt_rec [of y y'])
  qed
qed

lemma split_month_sum:
  "split_month ls d m = (m', r) \<Longrightarrow> d < sum_list ls \<Longrightarrow>
   m \<le> m' \<and> m' < m + length ls \<and> r < ls ! (m' - m) \<and> d = sum_list (take (m' - m) ls) + r"
proof (induction ls d m arbitrary: m' r rule: split_month.induct)
  case (2 l ls d m)
  show ?case
  proof (cases "d < l")
    case False
    with 2 have "Suc m \<le> m' \<and> m' < Suc m + length ls \<and> r < ls ! (m' - Suc m) \<and>
        d - l = sum_list (take (m' - Suc m) ls) + r"
      by auto
    then obtain k where "m' = Suc (m + k)" "k < length ls" "r < ls ! k"
      "d - l = sum_list (take k ls) + r"
      by (metis add_diff_cancel_left' add_Suc le_Suc_ex nat_add_left_cancel_less)
    with False show ?thesis by (simp add: Suc_diff_le)
  qed (use 2 in auto)
qed simp

lemma sum_month_lens: "sum_list (month_lens y) = year_len y"
  by (simp add: month_lens_def year_len_def)

lemma month_lens_le: "m < 12 \<Longrightarrow> month_lens y ! m \<le> 31"
  by (auto simp: month_lens_def less_Suc_eq numeral_eq_Suc)

lemma length_month_lens [simp]: "length (month_lens y) = 12"
  by (simp add: month_lens_def)

lemma cycle_400: "(\<Sum>i\<leftarrow>[1970..<2370]. year_len i) = 146097"
  by (simp add: upt_rec year_len_def is_leap_def)

lemma cycle_30: "(\<Sum>i\<leftarrow>[1970..<2000]. year_len i) = 10957"
  by (simp add: upt_rec year_len_def is_leap_def)

lemma years_mono: "k \<le> y \<Longrightarrow> a \<le> k \<Longrightarrow>
  (\<Sum>i\<leftarrow>[a..<k]. year_len i) \<le> (\<Sum>i\<leftarrow>[a..<y]. year_len i)"
  by (metis le_Suc_ex le_add1 map_append sum_list_append upt_add_eq_append)

lemma split_year_cycle:
  assumes "d < 146097" and "split_year d 1970 = (y, r)"
  shows "1970 \<le> y" "y < 2370" "r < year_len y" "d = (\<Sum>i\<leftarrow>[1970..<y]. year_len i) + r"
    "d < 10957 \<Longrightarrow> y < 2000"
proof -
  note y = split_year_sum [OF assms(2)]
  show "1970 \<le> y" "r < year_len y" "d = (\<Sum>i\<leftarrow>[1970..<y]. year_len i) + r"
    using y by blast+
  show "y < 2370"
  proof (rule ccontr)
    assume "\<not> y < 2370"
    then have "(\<Sum>i\<leftarrow>[1970..<2370]. year_len i) \<le> (\<Sum>i\<leftarrow>[1970..<y]. year_len i)"
      by (intro years_mono) linarith+
    with y cycle_400 assms(1) show False by linarith
  qed
  show "y < 2000" if "d < 10957"
  proof (rule ccontr)
    assume "\<not> y < 2000"
    then have "(\<Sum>i\<leftarrow>[1970..<2000]. year_len i) \<le> (\<Sum>i\<leftarrow>[1970..<y]. year_len i)"
      by (intro years_mono) linarith+
    with y cycle_30 that show False by linarith
  qed
qed

text \<open>The parts of a broken-down time, with what \<open>gmtime\<close> guarantees about them.\<close>

lemma gmtime_parts:
  obtains y doy m d where
    "gmtime secs = \<lparr>tm_year = int y + 400 * (secs div 86400 div 146097) - 1900, tm_mon = m,
       tm_mday = Suc d, tm_hour = nat (secs mod 86400) div 3600,
       tm_min = nat (secs mod 86400) mod 3600 div 60, tm_sec = nat (secs mod 86400) mod 60\<rparr>"
    "1970 \<le> y" "y < 2370" "m < 12" "d < month_lens y ! m"
    "nat (secs div 86400 mod 146097) = (\<Sum>i\<leftarrow>[1970..<y]. year_len i) + doy"
    "doy = sum_list (take m (month_lens y)) + d"
    "nat (secs div 86400 mod 146097) < 10957 \<Longrightarrow> y < 2000"
proof -
  let ?D = "nat (secs div 86400 mod 146097)"
  obtain y doy where yd: "split_year ?D 1970 = (y, doy)" by (metis surj_pair)
  obtain m d where md: "split_month (month_lens y) doy 0 = (m, d)" by (metis surj_pair)
  have "?D < 146097" by simp
  note y = split_year_cycle [OF this yd]
  have "doy < sum_list (month_lens y)"
    using y(3) by (simp add: sum_month_lens)
  from split_month_sum [OF md this] have m: "m < 12" "d < month_lens y ! m"
    "doy = sum_list (take m (month_lens y)) + d"
    by simp_all
  show thesis
    by (rule that [OF _ y(1,2) m(1,2) y(4) m(3) y(5)]) (simp_all add: gmtime_def Let_def yd md)
qed

lemma gmtime_ranges:
  "tm_mon (gmtime s) < 12" "1 \<le> tm_mday (gmtime s)" "tm_mday (gmtime s) \<le> 31"
  "tm_hour (gmtime s) < 24" "tm_min (gmtime s) < 60" "tm_sec (gmtime s) < 60"
proof -
  obtain y doy m d where p: "gmtime s = \<lparr>tm_year = int y + 400 * (s div 86400 div 146097) - 1900, tm_mon = m,
       tm_mday = Suc d, tm_hour = nat (s mod 86400) div 3600,
       tm_min = nat (s mod 86400) mod 3600 div 60, tm_sec = nat (s mod 86400) mod 60\<rparr>"
    "m < 12" "d < month_lens y ! m"
    by (rule gmtime_parts)
  have "nat (s mod 86400) < 86400" by simp
  then show "tm_mon (gmtime s) < 12" "1 \<le> tm_mday (gmtime s)" "tm_mday (gmtime s) \<le> 31"
    "tm_hour (gmtime s) < 24" "tm_min (gmtime s) < 60" "tm_sec (gmtime s) < 60"
    using p month_lens_le [OF p(2), of y] by (simp_all add: less_mult_imp_div_less)
qed

lemma sum_list_int: "int (\<Sum>i\<leftarrow>xs. f i) = (\<Sum>i\<leftarrow>xs. int (f i))"
  by (induction xs) simp_all

lemma timegm_record:
  "timegm \<lparr>tm_year = Y, tm_mon = m, tm_mday = Suc d, tm_hour = h, tm_min = mi, tm_sec = se\<rparr>
   = (days_before_year (Y + 1900)
      + int (sum_list (take m (month_lens (1970 + nat ((Y + 1900 - 1970) mod 400))))) + int d) * 86400
     + int h * 3600 + int mi * 60 + int se"
  by (simp add: timegm_def Let_def)

lemma timegm_gmtime [simp]: "timegm (gmtime s) = s"
proof -
  let ?q = "s div 86400 div 146097" and ?s = "nat (s mod 86400)"
  obtain y doy m d where p: "gmtime s = \<lparr>tm_year = int y + 400 * ?q - 1900, tm_mon = m,
       tm_mday = Suc d, tm_hour = ?s div 3600, tm_min = ?s mod 3600 div 60, tm_sec = ?s mod 60\<rparr>"
    "1970 \<le> y" "y < 2370"
    "nat (s div 86400 mod 146097) = (\<Sum>i\<leftarrow>[1970..<y]. year_len i) + doy"
    "doy = sum_list (take m (month_lens y)) + d"
    by (rule gmtime_parts)
  have e: "int y + 400 * ?q - 1970 = int (y - 1970) + ?q * 400"
    using p(2) by (simp add: of_nat_diff)
  have c: "(int y + 400 * ?q - 1970) mod 400 = int (y - 1970)"
    "(int y + 400 * ?q - 1970) div 400 = ?q"
    unfolding e using p(3) by simp_all
  have f: "s div 86400 mod 146097 = (\<Sum>i\<leftarrow>[1970..<y]. int (year_len i)) + int doy"
    using p(4) by (simp add: sum_list_int [symmetric] flip: of_nat_add)
  have n: "1970 + nat (int (y - 1970)) = y"
    using p(2) by simp
  from f have days: "days_before_year (int y + 400 * ?q) + int doy = s div 86400"
    using div_mult_mod_eq [of "s div 86400" 146097]
    unfolding days_before_year_def Let_def c n by linarith
  have secs: "int (?s div 3600) * 3600 + int (?s mod 3600 div 60) * 60 + int (?s mod 60) = s mod 86400"
  proof -
    have "?s div 3600 * 3600 + ?s mod 3600 = ?s"
      and "?s mod 3600 div 60 * 60 + ?s mod 3600 mod 60 = ?s mod 3600"
      by (rule div_mult_mod_eq)+
    moreover have "?s mod 3600 mod 60 = ?s mod 60"
      by (simp add: mod_mod_cancel)
    ultimately have "?s div 3600 * 3600 + ?s mod 3600 div 60 * 60 + ?s mod 60 = ?s"
      by linarith
    then have "int ?s = int (?s div 3600 * 3600 + ?s mod 3600 div 60 * 60 + ?s mod 60)"
      by simp
    then show ?thesis by simp
  qed
  have m: "int y + 400 * ?q - 1900 + 1900 = int y + 400 * ?q"
    by simp
  have "timegm (gmtime s) = (days_before_year (int y + 400 * ?q) + int (sum_list (take m (month_lens y))) + int d)
      * 86400 + s mod 86400"
    unfolding p(1) timegm_record m c(1) n using secs by linarith
  also have "days_before_year (int y + 400 * ?q) + int (sum_list (take m (month_lens y))) + int d = s div 86400"
    using days p(5) by linarith
  finally show ?thesis by simp
qed

lemma timegm_midnight:
  "timegm ((gmtime s)\<lparr>tm_hour := 0, tm_min := 0, tm_sec := 0\<rparr>) = s div 86400 * 86400"
proof -
  let ?t = "gmtime s"
  let ?X = "days_before_year (tm_year ?t + 1900)
    + int (sum_list (take (tm_mon ?t) (month_lens (1970 + nat ((tm_year ?t + 1900 - 1970) mod 400)))))
    + int (tm_mday ?t) - 1"
  have X: "timegm ?t = ?X * 86400 + int (tm_hour ?t) * 3600 + int (tm_min ?t) * 60 + int (tm_sec ?t)"
    "timegm (?t\<lparr>tm_hour := 0, tm_min := 0, tm_sec := 0\<rparr>) = ?X * 86400"
    unfolding timegm_def Let_def by simp_all
  have "int (tm_hour ?t) * 3600 + int (tm_min ?t) * 60 + int (tm_sec ?t) < 86400"
    using gmtime_ranges(4-6) [of s] by linarith
  then have "timegm ?t div 86400 = ?X"
    unfolding X(1) by simp
  then have "?X = s div 86400" by simp
  then show ?thesis unfolding X(2) by simp
qed

lemma timegm_inj: "gmtime a = gmtime b \<longleftrightarrow> a = b"
  by (metis timegm_gmtime)

text \<open>Up to the end of the year 9999 the year has four digits.\<close>

definition year_10000 :: int where "year_10000 = 253402300800"

lemma gmtime_year:
  assumes "0 \<le> s" and "s < year_10000"
  shows "1970 \<le> tm_year (gmtime s) + 1900" "tm_year (gmtime s) + 1900 \<le> 9999"
proof -
  let ?q = "s div 86400 div 146097"
  obtain y where p: "tm_year (gmtime s) = int y + 400 * ?q - 1900"
    "1970 \<le> y" "y < 2370" "nat (s div 86400 mod 146097) < 10957 \<Longrightarrow> y < 2000"
    by (rule gmtime_parts [of s]) auto
  have q: "0 \<le> ?q" using assms(1) by (simp add: pos_imp_zdiv_nonneg_iff)
  then show "1970 \<le> tm_year (gmtime s) + 1900" using p by simp
  have d: "s div 86400 < 2932897"
    using assms(2) by (simp add: year_10000_def div_less_iff_less_mult)
  have m: "0 \<le> s div 86400 mod 146097" "?q * 146097 + s div 86400 mod 146097 = s div 86400"
    by (rule pos_mod_sign, simp, rule div_mult_mod_eq)
  have "?q \<le> 19 \<or> ?q = 20 \<and> s div 86400 mod 146097 < 10957"
  proof (cases "?q \<le> 19")
    case False
    with d m have "?q = 20" by linarith
    moreover from this have "s div 86400 mod 146097 < 10957"
      using d m by linarith
    ultimately show ?thesis by blast
  qed blast
  then consider "?q \<le> 19" | "?q = 20" "s div 86400 mod 146097 < 10957"
    by blast
  then show "tm_year (gmtime s) + 1900 \<le> 9999"
  proof cases
    case 1
    with p(1,3) show ?thesis by linarith
  next
    case 2
    then have "y < 2000" by (intro p(4)) linarith
    with 2 p(1) show ?thesis by linarith
  qed
qed

lemma sdiv_second:
  assumes "0 \<le> d" and "d < year_10000 * 1000000"
  shows "0 \<le> d sdiv 1000000" "d sdiv 1000000 < year_10000"
proof -
  have e: "d sdiv 1000000 = d div 1000000"
    using assms(1) by (simp add: signed_divide_int_def sgn_if)
  show "0 \<le> d sdiv 1000000" "d sdiv 1000000 < year_10000"
    unfolding e using assms by (simp_all add: year_10000_def pos_imp_zdiv_nonneg_iff div_less_iff_less_mult)
qed

text \<open>The text of the seconds as a function of the broken-down time.\<close>

definition stamp :: "tm \<Rightarrow> string" where
  "stamp t = pad_sp_int 4 (tm_year t + 1900) @ pad0 2 (tm_mon t + 1) @ pad0 2 (tm_mday t) @ '' '' @
     pad0 2 (tm_hour t) @ '':'' @ pad0 2 (tm_min t) @ '':'' @ pad0 2 (tm_sec t)"

definition stamp_ok :: "tm \<Rightarrow> bool" where
  "stamp_ok t \<longleftrightarrow> 1000 \<le> tm_year t + 1900 \<and> tm_year t + 1900 \<le> 9999 \<and> tm_mon t < 12 \<and>
     tm_mday t \<le> 31 \<and> tm_hour t < 24 \<and> tm_min t < 60 \<and> tm_sec t < 60"

lemma year_text:
  assumes "stamp_ok t"
  shows "pad_sp_int 4 (tm_year t + 1900) = dec (nat (tm_year t + 1900))"
    "length (dec (nat (tm_year t + 1900))) = 4"
proof -
  have l: "3 < length (dec (nat (tm_year t + 1900)))" "length (dec (nat (tm_year t + 1900))) \<le> 4"
    using assms length_dec_ge [of 3 "nat (tm_year t + 1900)"] length_dec [of 4 "nat (tm_year t + 1900)"]
    by (simp_all add: stamp_ok_def nat_less_iff le_nat_iff)
  then show "length (dec (nat (tm_year t + 1900))) = 4" by simp
  with assms show "pad_sp_int 4 (tm_year t + 1900) = dec (nat (tm_year t + 1900))"
    by (simp add: pad_sp_int_def int_text_def stamp_ok_def)
qed

lemma length_pad0_2 [simp]: "n < 100 \<Longrightarrow> length (pad0 2 n) = 2"
  using length_pad0 [of 2 n] by simp

lemma stamp_lens:
  assumes "stamp_ok t"
  shows "length (pad0 2 (Suc (tm_mon t))) = 2" "length (pad0 2 (tm_mday t)) = 2"
    "length (pad0 2 (tm_hour t)) = 2" "length (pad0 2 (tm_min t)) = 2" "length (pad0 2 (tm_sec t)) = 2"
  using assms by (simp_all add: stamp_ok_def)

lemma length_stamp: "stamp_ok t \<Longrightarrow> length (stamp t) = 17"
  by (simp add: stamp_def year_text stamp_lens)

lemma stamp_inj:
  assumes "stamp_ok t" and "stamp_ok u" and "stamp t = stamp u"
  shows "t = (u :: tm)"
proof -
  from assms have "nat (tm_year t + 1900) = nat (tm_year u + 1900)" "tm_mon t = tm_mon u"
    "tm_mday t = tm_mday u" "tm_hour t = tm_hour u" "tm_min t = tm_min u" "tm_sec t = tm_sec u"
    by (simp_all add: stamp_def year_text stamp_lens dec_inject pad0_inject)
  moreover have "0 \<le> tm_year t + 1900" "0 \<le> tm_year u + 1900"
    using assms(1,2) by (simp_all add: stamp_ok_def)
  ultimately show ?thesis
    by (cases t, cases u) (simp add: nat_eq_iff)
qed

lemma gmtime_stamp_ok:
  assumes "0 \<le> d" and "d < year_10000 * 1000000"
  shows "stamp_ok (gmtime (d sdiv 1000000))"
  using gmtime_year [OF sdiv_second [OF assms]] gmtime_ranges [of "d sdiv 1000000"]
  by (simp add: stamp_ok_def)

lemma formatted_stamp:
  assumes "0 \<le> d" and "d < year_10000 * 1000000"
  shows "to_formatted_string d False = stamp (gmtime (d sdiv 1000000))"
  using length_stamp [OF gmtime_stamp_ok [OF assms]]
  by (simp add: to_formatted_string_def Let_def micro_seconds_per_sec_def stamp_def)

section \<open>Properties\<close>

text \<open>Until the end of the year 9999 \<open>ToFormattedString(false)\<close> is 17 characters long
  (the length the logger asserts and copies), and two dates have the same text exactly when
  \<open>IsSameSecond\<close> holds of them.\<close>

theorem formatted_same_second:
  assumes "0 \<le> a" and "a < year_10000 * 1000000" and "0 \<le> b" and "b < year_10000 * 1000000"
  shows "length (to_formatted_string a False) = 17 \<and>
    (to_formatted_string a False = to_formatted_string b False \<longleftrightarrow> is_same_second a b)"
proof -
  note oka = gmtime_stamp_ok [OF assms(1,2)] and okb = gmtime_stamp_ok [OF assms(3,4)]
  have "stamp (gmtime (a sdiv 1000000)) = stamp (gmtime (b sdiv 1000000)) \<longleftrightarrow>
      a sdiv 1000000 = b sdiv 1000000"
    using stamp_inj [OF oka okb] timegm_inj by auto
  then show ?thesis
    using length_stamp [OF oka]
    by (simp add: formatted_stamp assms is_same_second_def micro_seconds_per_sec_def)
qed

theorem formatted_same_second_witness:
  "to_formatted_string 1000000 False = to_formatted_string 1999999 False \<and>
   to_formatted_string 1999999 False \<noteq> to_formatted_string 2000000 False"
  using formatted_same_second [of 1000000 1999999] formatted_same_second [of 1999999 2000000]
  by (simp add: year_10000_def is_same_second_def micro_seconds_per_sec_def)

text \<open>\<open>After\<close> is exact in microseconds for a whole number of seconds as long as date,
  delay and sum stay below \<open>2\<^sup>5\<^sup>3\<close> microseconds: rounding to double loses nothing.\<close>

theorem date_after_exact:
  assumes "\<bar>d\<bar> < 2 ^ 53" and "\<bar>s * 1000000\<bar> < 2 ^ 53" and "\<bar>d + s * 1000000\<bar> < 2 ^ 53"
  shows "date_after d (dbl_of_int s) = Inr (d + s * 1000000)"
proof -
  have s: "\<bar>s\<bar> < 2 ^ 53" using assms(2) by simp
  have e: "dbl_of_int i = Dbl i 0" if "\<bar>i\<bar> < 2 ^ 53" for i
    using round53_exact [OF that] by (simp add: dbl_of_int_def)
  have "dbl_mul (Dbl s 0) (Dbl 1000000 0) = Dbl (s * 1000000) 0"
    using round53_exact [OF assms(2)] by (simp add: dbl_mul_def)
  moreover have "dbl_add (Dbl d 0) (Dbl (s * 1000000) 0) = Dbl (d + s * 1000000) 0"
    using round53_exact [OF assms(3)] by (simp add: dbl_add_def dbl_align_def)
  moreover have "int64_ok (d + s * 1000000)"
    using assms(3) by (simp add: int64_ok_def abs_less_iff)
  ultimately show ?thesis
    using e [OF assms(1)] e [OF s] e [of 1000000]
    by (simp add: date_after_def micro_seconds_per_sec_def dbl_trunc_def date_of_micros_def)
qed

theorem date_after_exact_witness:
  "date_after 1700000000000000 (dbl_of_int 5) = Inr 1700000005000000"
  using date_after_exact [of 1700000000000000 5] by simp

text \<open>\<open>RoundSecond\<close> and \<open>RoundDay\<close> of a date after the epoch give the start of its
  second and, in a time zone at a fixed offset from UTC, the start of its local day.\<close>

theorem round_second_day:
  assumes "0 \<le> d" and "\<And>s. localtime s = gmtime (s + off)" and "\<And>t. mktime t = timegm t - off"
  shows "round_second d = d div 1000000 * 1000000 \<and> is_same_second (round_second d) d \<and>
    round_day localtime mktime d = ((d div 1000000 + off) div 86400 * 86400 - off) * 1000000"
proof -
  have e: "x sdiv 1000000 = x div 1000000" "x smod 1000000 = x mod 1000000" if "0 \<le> x" for x :: int
    using that by (simp_all add: signed_divide_int_def smod_int_alt_def sgn_if)
  have r: "round_second d = d div 1000000 * 1000000"
    using e [OF assms(1)]
    by (simp add: round_second_def micro_seconds_per_sec_def date_of_micros_def minus_mod_eq_div_mult)
  show ?thesis
    using r e [OF assms(1)] assms(1)
    by (simp add: timegm_midnight round_day_def Let_def assms(2,3) micro_seconds_per_sec_def date_of_micros_def
        is_same_second_def e pos_imp_zdiv_nonneg_iff)
qed

theorem round_second_day_witness:
  "round_second 90061000001 = 90061000000 \<and> round_day gmtime timegm 90061000001 = 86400000000"
  using round_second_day [of 90061000001 gmtime 0 timegm] by simp

end
