(* ===== verification/Logger_Model.thy ===== *)
theory Logger_Model
  imports Log_Stream Date_Time
begin

text \<open>
  \<open>Logger\<close> (\<open>src/water/base/logger.h\<close>, \<open>logger.cc\<close>): one object per statement, which
  formats time, thread and level into its \<open>LogStream\<close>, lets the statement append, and
  hands the line to the output function when it is destroyed. The thread-local cache of the
  formatted second is the state \<open>tls\<close>; the clock, the thread id, \<open>errno\<close> and
  \<open>strerror\<close> are arguments. The main results: the cache never shows a stale second, and a
  line that fits is exactly its parts in order.
\<close>

section \<open>Levels and source files\<close>

datatype log_level = TRACE | DEBUG | INFO | WARN | ERROR | FATAL

primrec level_num :: "log_level \<Rightarrow> nat" where
  "level_num TRACE = 0"
| "level_num DEBUG = 1"
| "level_num INFO = 2"
| "level_num WARN = 3"
| "level_num ERROR = 4"
| "level_num FATAL = 5"

instantiation log_level :: linorder
begin

definition less_eq_log_level :: "log_level \<Rightarrow> log_level \<Rightarrow> bool" where
  "less_eq_log_level a b = (level_num a \<le> level_num b)"

definition less_log_level :: "log_level \<Rightarrow> log_level \<Rightarrow> bool" where
  "less_log_level a b = (level_num a < level_num b)"

instance
proof
  fix x y z :: log_level
  show "x \<le> y \<Longrightarrow> y \<le> x \<Longrightarrow> x = y"
    by (cases x; cases y) (simp_all add: less_eq_log_level_def)
qed (auto simp: less_eq_log_level_def less_log_level_def)

end

primrec level_str :: "log_level \<Rightarrow> string" where
  "level_str TRACE = '' TRACE ''"
| "level_str DEBUG = '' DEBUG ''"
| "level_str INFO = '' INFO  ''"
| "level_str WARN = '' WARN  ''"
| "level_str ERROR = '' ERROR ''"
| "level_str FATAL = '' FATAL ''"

record source_file =
  sf_data :: string
  sf_size :: int

text \<open>\<open>strchr(s, '/')\<close>: the suffix from the first slash on.\<close>

definition strchr_slash :: "string \<Rightarrow> string option" where
  "strchr_slash s = (case dropWhile (\<lambda>c. c \<noteq> CHR ''/'') s of [] \<Rightarrow> None | t \<Rightarrow> Some t)"

text \<open>The constructor for a string literal (\<open>size_\<close> starts as the array length less one).\<close>

definition sf_of_array :: "string \<Rightarrow> source_file" where
  "sf_of_array arr =
     (case strchr_slash arr of
        None \<Rightarrow> \<lparr>sf_data = arr, sf_size = int (length arr)\<rparr>
      | Some slash \<Rightarrow>
          let d = tl slash in
          \<lparr>sf_data = d, sf_size = int (length arr) - (int (length arr) - int (length d))\<rparr>)"

definition sf_of_cstr :: "string \<Rightarrow> source_file" where
  "sf_of_cstr filename =
     (let d = (case strchr_slash filename of None \<Rightarrow> filename | Some slash \<Rightarrow> tl slash)
      in \<lparr>sf_data = d, sf_size = int (length d)\<rparr>)"

section \<open>Time and thread\<close>

record tls =
  last_second :: nat
  last_time_string :: string
  tls_thread_id :: "32 word"

definition tls_init :: tls where
  "tls_init = \<lparr>last_second = 0, last_time_string = [], tls_thread_id = 0\<rparr>"

text \<open>\<open>operator<<(LogStream&, T)\<close> over the constructor of \<open>T\<close>, which asserts the length.\<close>

definition put_T :: "fixed_buffer \<Rightarrow> string \<Rightarrow> nat \<Rightarrow> fixed_buffer res" where
  "put_T b str len = bind_res (check (length str = len) AssertFailed) (\<lambda>_. ls_append b (take len str))"

definition put_source_file :: "fixed_buffer \<Rightarrow> source_file \<Rightarrow> fixed_buffer res" where
  "put_source_file b f = ls_append b (take (nat (sf_size f)) (sf_data f))"

definition format_time :: "tls \<Rightarrow> date \<Rightarrow> 32 word \<Rightarrow> fixed_buffer \<Rightarrow> (fixed_buffer \<times> tls) res" where
  "format_time t d gettid b =
     (let now = nat (d mod 2 ^ 64);
          micro_sec = now mod 1000000;
          now = now div 1000000;
          t = (if now \<noteq> last_second t
               then t\<lparr>last_second := now, last_time_string := take 32 (to_formatted_string d False)\<rparr>
               else t)
      in bind_res (put_T b (last_time_string t) 17) (\<lambda>b.
         bind_res (ls_put b (ICStr (Some (pad0 6 micro_sec @ '' UTC '')))) (\<lambda>b.
         let t = (if tls_thread_id t = 0 then t\<lparr>tls_thread_id := gettid\<rparr> else t) in
         bind_res (ls_put b (IInt (tls_thread_id t))) (\<lambda>b. Inr (b, t)))))"

section \<open>The logger object\<close>

record logger =
  log_stream :: fixed_buffer
  lg_source :: source_file
  lg_line :: "32 word"
  lg_level :: log_level

text \<open>The constructors; \<open>logger_line\<close> is the one without a level, which uses \<open>INFO\<close>.\<close>

definition logger_level ::
  "tls \<Rightarrow> date \<Rightarrow> 32 word \<Rightarrow> fixed_buffer \<Rightarrow> source_file \<Rightarrow> 32 word \<Rightarrow> log_level \<Rightarrow> (logger \<times> tls) res" where
  "logger_level t d gettid b file line level =
     bind_res (format_time t d gettid b) (\<lambda>(b, t).
     bind_res (put_T b (level_str level) 7) (\<lambda>b.
     Inr (\<lparr>log_stream = b, lg_source = file, lg_line = line, lg_level = level\<rparr>, t)))"

definition logger_line ::
  "tls \<Rightarrow> date \<Rightarrow> 32 word \<Rightarrow> fixed_buffer \<Rightarrow> source_file \<Rightarrow> 32 word \<Rightarrow> (logger \<times> tls) res" where
  "logger_line t d gettid b file line =
     bind_res (format_time t d gettid b) (\<lambda>(b, t).
     bind_res (put_T b (level_str INFO) 7) (\<lambda>b.
     Inr (\<lparr>log_stream = b, lg_source = file, lg_line = line, lg_level = INFO\<rparr>, t)))"

definition logger_syserr ::
  "(32 word \<Rightarrow> string) \<Rightarrow> 32 word \<Rightarrow> tls \<Rightarrow> date \<Rightarrow> 32 word \<Rightarrow> fixed_buffer \<Rightarrow> source_file \<Rightarrow> 32 word \<Rightarrow>
   (logger \<times> tls) res" where
  "logger_syserr strerror errno t d gettid b file line =
     bind_res (format_time t d gettid b) (\<lambda>(b, t).
     bind_res (if errno \<noteq> 0
               then bind_res (put_T b (level_str FATAL) 7) (\<lambda>b.
                    ls_put_all b [ICStr (Some (strerror errno)), ICStr (Some '' (errno = ''),
                                  IInt errno, ICStr (Some '') '')])
               else Inr b) (\<lambda>b.
     Inr (\<lparr>log_stream = b, lg_source = file, lg_line = line, lg_level = FATAL\<rparr>, t)))"

definition logger_func ::
  "tls \<Rightarrow> date \<Rightarrow> 32 word \<Rightarrow> fixed_buffer \<Rightarrow> source_file \<Rightarrow> 32 word \<Rightarrow> log_level \<Rightarrow> string \<Rightarrow>
   (logger \<times> tls) res" where
  "logger_func t d gettid b file line level func =
     bind_res (format_time t d gettid b) (\<lambda>(b, t).
     bind_res (put_T b (level_str level) 7) (\<lambda>b.
     bind_res (ls_put_all b [ICStr (Some ''[''), ICStr (Some func), ICStr (Some ''] '')]) (\<lambda>b.
     Inr (\<lparr>log_stream = b, lg_source = file, lg_line = line, lg_level = level\<rparr>, t))))"

text \<open>
  The destructor: the text handed to \<open>output_func_\<close>, and whether \<open>flush_func_\<close> is
  called after it.
\<close>

definition logger_end :: "logger \<Rightarrow> (string \<times> bool) res" where
  "logger_end lg =
     bind_res (put_T (log_stream lg) '' - '' 3) (\<lambda>b.
     bind_res (ls_put_all b [ICStr (Some (sf_data (lg_source lg))), ICStr (Some '':''),
                             IInt (lg_line lg), IChar (CHR 0x0A)]) (\<lambda>b.
     Inr (fb_to_string b, ERROR \<le> lg_level lg)))"

text \<open>
  The macros. \<open>LOG_TRACE\<close> and \<open>LOG_DEBUG\<close> pass the function name, \<open>LOG_INFO\<close> to
  \<open>LOG_FATAL\<close> do not; only the first three look at the global level. The result is the
  line and whether it is flushed, or \<open>None\<close> when the statement does nothing.
\<close>

definition log_macro ::
  "log_level \<Rightarrow> tls \<Rightarrow> date \<Rightarrow> 32 word \<Rightarrow> fixed_buffer \<Rightarrow> string \<Rightarrow> 32 word \<Rightarrow> string \<Rightarrow>
   log_level \<Rightarrow> item list \<Rightarrow> ((string \<times> bool) option \<times> tls) res" where
  "log_macro global t d gettid b file line func level args =
     (let run = (\<lambda>con. bind_res con (\<lambda>(lg, t).
                 bind_res (ls_put_all (log_stream lg) args) (\<lambda>b.
                 bind_res (logger_end (lg\<lparr>log_stream := b\<rparr>)) (\<lambda>out. Inr (Some out, t)))));
          sf = sf_of_array file
      in if level = TRACE then
           (if global \<le> TRACE then run (logger_func t d gettid b sf line TRACE func) else Inr (None, t))
         else if level = DEBUG then
           (if global \<le> DEBUG then run (logger_func t d gettid b sf line DEBUG func) else Inr (None, t))
         else if level = INFO then
           (if global \<le> INFO then run (logger_level t d gettid b sf line INFO) else Inr (None, t))
         else run (logger_level t d gettid b sf line level))"

text \<open>\<open>LOG_SYSERR\<close> looks at no level.\<close>

definition syserr_macro ::
  "(32 word \<Rightarrow> string) \<Rightarrow> 32 word \<Rightarrow> tls \<Rightarrow> date \<Rightarrow> 32 word \<Rightarrow> fixed_buffer \<Rightarrow> string \<Rightarrow> 32 word \<Rightarrow>
   item list \<Rightarrow> ((string \<times> bool) option \<times> tls) res" where
  "syserr_macro strerror errno t d gettid b file line args =
     bind_res (logger_syserr strerror errno t d gettid b (sf_of_array file) line) (\<lambda>(lg, t).
     bind_res (ls_put_all (log_stream lg) args) (\<lambda>b.
     bind_res (logger_end (lg\<lparr>log_stream := b\<rparr>)) (\<lambda>out. Inr (Some out, t))))"

section \<open>Source files\<close>

text \<open>The comment asks for the base name; this is the part after the last slash.\<close>

definition basename :: "string \<Rightarrow> string" where
  "basename s = rev (takeWhile (\<lambda>c. c \<noteq> CHR ''/'') (rev s))"

lemma strchr_slash_cases:
  "(strchr_slash s = None \<and> CHR ''/'' \<notin> set s) \<or>
   (\<exists>a r. s = a @ CHR ''/'' # r \<and> CHR ''/'' \<notin> set a \<and> strchr_slash s = Some (CHR ''/'' # r))"
proof (cases "CHR ''/'' \<in> set s")
  case True
  then obtain a r where "s = a @ CHR ''/'' # r" "CHR ''/'' \<notin> set a"
    by (meson split_list_first)
  moreover from this have "dropWhile (\<lambda>c. c \<noteq> CHR ''/'') s = CHR ''/'' # r"
    by (simp, subst dropWhile_append2) auto
  ultimately show ?thesis by (auto simp: strchr_slash_def)
next
  case False
  then have "dropWhile (\<lambda>c. c \<noteq> CHR ''/'') s = []"
    by (auto simp: dropWhile_eq_Nil_conv)
  then have "strchr_slash s = None"
    unfolding strchr_slash_def by (simp only: list.case)
  with False show ?thesis by blast
qed

lemma sf_array_cstr: "sf_of_array s = sf_of_cstr s"
  using strchr_slash_cases [of s] by (auto simp: sf_of_array_def sf_of_cstr_def)

lemma basename_no_slash: "CHR ''/'' \<notin> set s \<Longrightarrow> basename s = s"
proof -
  assume "CHR ''/'' \<notin> set s"
  then have "takeWhile (\<lambda>c. c \<noteq> CHR ''/'') (rev s) = rev s"
    by (intro takeWhile_eq_all_conv [THEN iffD2]) auto
  then show ?thesis by (simp only: basename_def rev_rev_ident)
qed

lemma basename_append: "basename (a @ CHR ''/'' # r) = basename r"
proof (cases "CHR ''/'' \<in> set r")
  case True
  then have "takeWhile (\<lambda>c. c \<noteq> CHR ''/'') (rev r @ CHR ''/'' # rev a)
           = takeWhile (\<lambda>c. c \<noteq> CHR ''/'') (rev r)"
    by (intro takeWhile_append1 [of "CHR ''/''"]) auto
  then show ?thesis by (simp add: basename_def)
next
  case False
  then have "takeWhile (\<lambda>c. c \<noteq> CHR ''/'') (rev r @ CHR ''/'' # rev a) = rev r"
    by (subst takeWhile_append2) auto
  with basename_no_slash [OF False] show ?thesis by (simp add: basename_def)
qed

lemma basename_slashfree: "CHR ''/'' \<notin> set (basename s)"
  unfolding basename_def by (auto dest: set_takeWhileD)

section \<open>The cached second\<close>

text \<open>
  What the cache holds: nothing yet, or the text of the second it names (of any date of that
  second, which is the same text).
\<close>

definition tls_ok :: "tls \<Rightarrow> bool" where
  "tls_ok t \<longleftrightarrow> (last_second t = 0 \<and> last_time_string t = []) \<or>
     (0 < last_second t \<and> int (last_second t) < year_10000 \<and>
      last_time_string t = stamp (gmtime (int (last_second t))))"

lemma tls_ok_init: "tls_ok tls_init"
  by (simp add: tls_ok_def tls_init_def)

definition date_ok :: "date \<Rightarrow> bool" where
  "date_ok d \<longleftrightarrow> 1000000 \<le> d \<and> d < year_10000 * 1000000"

lemma date_ok_second:
  assumes "date_ok d"
  shows "d sdiv 1000000 = d div 1000000" "0 < d div 1000000" "d div 1000000 < year_10000"
    "nat (d mod 2 ^ 64) = nat d" "nat d div 1000000 = nat (d div 1000000)"
    "nat d mod 1000000 = nat (d mod 1000000)"
proof -
  have d: "1000000 \<le> d" "d < 253402300800 * 1000000"
    using assms by (simp_all add: date_ok_def year_10000_def)
  show "d sdiv 1000000 = d div 1000000"
    using d(1) by (simp add: signed_divide_int_def sgn_if)
  show "0 < d div 1000000"
    using d(1) by (simp add: pos_imp_zdiv_pos_iff)
  show "d div 1000000 < year_10000"
    unfolding year_10000_def using d(2) by linarith
  show "nat (d mod 2 ^ 64) = nat d" "nat d div 1000000 = nat (d div 1000000)"
    "nat d mod 1000000 = nat (d mod 1000000)"
    using d by (simp_all add: nat_div_distrib nat_mod_distrib)
qed

definition cached :: "tls \<Rightarrow> date \<Rightarrow> 32 word \<Rightarrow> tls" where
  "cached t d gettid = \<lparr>last_second = nat (d div 1000000), last_time_string = to_formatted_string d False,
     tls_thread_id = (if tls_thread_id t = 0 then gettid else tls_thread_id t)\<rparr>"

lemma tls_ok_cached: "date_ok d \<Longrightarrow> tls_ok (cached t d gettid)"
  using date_ok_second [of d] formatted_stamp [of d]
  by (simp add: tls_ok_def cached_def date_ok_def)

text \<open>The time field as a list of items, whatever the cache held before.\<close>

definition time_items :: "date \<Rightarrow> 32 word \<Rightarrow> item list" where
  "time_items d tid = [IString (to_formatted_string d False),
     ICStr (Some (pad0 6 (nat (d mod 1000000)) @ '' UTC '')), IInt tid]"

lemma put_T_item: "length s = n \<Longrightarrow> put_T b s n = ls_put b (IString s)"
  by (simp add: put_T_def ls_append_def ls_put_string_def)

lemma put_T_bad: "length s \<noteq> n \<Longrightarrow> put_T b s n = Inl AssertFailed"
  by (simp add: put_T_def)

lemma ls_put_all_append:
  "ls_put_all b (xs @ ys) = bind_res (ls_put_all b xs) (\<lambda>b. ls_put_all b ys)"
  by (induction xs arbitrary: b) (auto simp: bind_res_def split: sum.splits)

lemma bind_bind: "bind_res (bind_res m f) g = bind_res m (\<lambda>x. bind_res (f x) g)"
  by (cases m) auto

lemma bind_Inr [simp]: "bind_res m Inr = m"
  by (cases m) auto

lemma format_time_cached:
  assumes "tls_ok t" and "date_ok d"
  shows "format_time t d gettid b =
    bind_res (ls_put_all b (time_items d (tls_thread_id (cached t d gettid))))
      (\<lambda>b. Inr (b, cached t d gettid))"
proof -
  note s = date_ok_second [OF assms(2)]
  have f: "to_formatted_string d False = stamp (gmtime (d div 1000000))"
    using formatted_stamp [of d] assms(2) s(1) by (simp add: date_ok_def)
  have l: "length (to_formatted_string d False) = 17"
    using f length_stamp [OF gmtime_stamp_ok [of d]] assms(2) s(1) by (simp add: date_ok_def)
  let ?t = "if nat (d div 1000000) \<noteq> last_second t
      then t\<lparr>last_second := nat (d div 1000000), last_time_string := take 32 (to_formatted_string d False)\<rparr>
      else t"
  have n: "int (last_second t) = d div 1000000" if "nat (d div 1000000) = last_second t"
    using s(2) by (simp flip: that)
  have t: "last_time_string ?t = to_formatted_string d False" "last_second ?t = nat (d div 1000000)"
    "tls_thread_id ?t = tls_thread_id t"
    using assms(1) f l s(2,3) n by (auto simp: tls_ok_def)
  then have e: "(if tls_thread_id ?t = 0 then ?t\<lparr>tls_thread_id := gettid\<rparr> else ?t) = cached t d gettid"
    by (cases ?t) (simp add: cached_def)
  show ?thesis
    unfolding format_time_def Let_def s(4-6) e t(1)
    by (simp add: put_T_item [OF l] time_items_def bind_bind)
qed

section \<open>The whole line\<close>

definition line_items ::
  "date \<Rightarrow> 32 word \<Rightarrow> log_level \<Rightarrow> string \<Rightarrow> item list \<Rightarrow> string \<Rightarrow> 32 word \<Rightarrow> item list" where
  "line_items d tid level func args file line =
     time_items d tid @ [IString (level_str level)] @
     (if level \<le> DEBUG then [ICStr (Some ''[''), ICStr (Some func), ICStr (Some ''] '')] else []) @
     args @
     [IString '' - '', ICStr (Some (sf_data (sf_of_array file))), ICStr (Some '':''), IInt line,
      IChar (CHR 0x0A)]"

lemma length_level_str [simp]: "length (level_str l) = 7"
  by (cases l) simp_all

lemma time_items_ok: "list_all item_ok (time_items d tid)"
  by (simp add: time_items_def item_ok_def)

lemma logger_end_items:
  "logger_end lg = bind_res (ls_put_all (log_stream lg)
      [IString '' - '', ICStr (Some (sf_data (lg_source lg))), ICStr (Some '':''), IInt (lg_line lg),
       IChar (CHR 0x0A)]) (\<lambda>b. Inr (fb_to_string b, ERROR \<le> lg_level lg))"
  by (simp add: logger_end_def put_T_item bind_bind)

lemma logger_level_items:
  assumes "tls_ok t" and "date_ok d"
  shows "logger_level t d tid b sf line l =
    bind_res (ls_put_all b (time_items d (tls_thread_id (cached t d tid)) @ [IString (level_str l)]))
      (\<lambda>b. Inr (\<lparr>log_stream = b, lg_source = sf, lg_line = line, lg_level = l\<rparr>, cached t d tid))"
  by (simp add: logger_level_def format_time_cached [OF assms] put_T_item bind_bind ls_put_all_append)

lemma logger_func_items:
  assumes "tls_ok t" and "date_ok d"
  shows "logger_func t d tid b sf line l func =
    bind_res (ls_put_all b (time_items d (tls_thread_id (cached t d tid)) @
        [IString (level_str l), ICStr (Some ''[''), ICStr (Some func), ICStr (Some ''] '')]))
      (\<lambda>b. Inr (\<lparr>log_stream = b, lg_source = sf, lg_line = line, lg_level = l\<rparr>, cached t d tid))"
  by (simp add: logger_func_def format_time_cached [OF assms] put_T_item bind_bind ls_put_all_append)

lemma level_cases:
  "l = TRACE \<or> l = DEBUG \<or> l = INFO \<or> (WARN \<le> l \<and> l \<noteq> TRACE \<and> l \<noteq> DEBUG \<and> l \<noteq> INFO \<and> \<not> l \<le> DEBUG)"
  by (cases l) (simp_all add: less_eq_log_level_def)

lemma level_order [simp]:
  "TRACE \<le> l" "DEBUG \<le> DEBUG" "\<not> INFO \<le> DEBUG" "\<not> WARN \<le> TRACE" "\<not> WARN \<le> DEBUG" "\<not> WARN \<le> INFO"
  by (simp_all add: less_eq_log_level_def)

text \<open>The statement as one chain of items, whatever its level.\<close>

lemma log_macro_items:
  assumes "tls_ok t" and "date_ok d"
  shows "log_macro global t d tid b file line func l args =
    (if WARN \<le> l \<or> global \<le> l
     then bind_res (ls_put_all b (line_items d (tls_thread_id (cached t d tid)) l func args file line))
            (\<lambda>c. Inr (Some (fb_to_string c, ERROR \<le> l), cached t d tid))
     else Inr (None, t))"
  using level_cases [of l]
  by (elim disjE conjE)
    (simp_all add: log_macro_def Let_def logger_level_items [OF assms] logger_func_items [OF assms]
      logger_end_items bind_bind ls_put_all_append line_items_def)

text \<open>\<open>LOG_SYSERR\<close>: the level is written only when \<open>errno\<close> is set.\<close>

definition syserr_items ::
  "(32 word \<Rightarrow> string) \<Rightarrow> 32 word \<Rightarrow> date \<Rightarrow> 32 word \<Rightarrow> item list \<Rightarrow> string \<Rightarrow> 32 word \<Rightarrow> item list" where
  "syserr_items strerror errno d tid args file line =
     time_items d tid @
     (if errno \<noteq> 0 then [IString (level_str FATAL), ICStr (Some (strerror errno)), ICStr (Some '' (errno = ''),
        IInt errno, ICStr (Some '') '')] else []) @
     args @
     [IString '' - '', ICStr (Some (sf_data (sf_of_array file))), ICStr (Some '':''), IInt line,
      IChar (CHR 0x0A)]"

lemma syserr_macro_items:
  assumes "tls_ok t" and "date_ok d"
  shows "syserr_macro strerror errno t d tid b file line args =
    bind_res (ls_put_all b (syserr_items strerror errno d (tls_thread_id (cached t d tid)) args file line))
      (\<lambda>c. Inr (Some (fb_to_string c, True), cached t d tid))"
  by (simp add: syserr_macro_def logger_syserr_def format_time_cached [OF assms] put_T_item bind_bind
      ls_put_all_append logger_end_items syserr_items_def less_eq_log_level_def)

text \<open>The time fields one thread prints for a sequence of dates, each into a new stream.\<close>

fun time_fields :: "tls \<Rightarrow> (date \<times> 32 word) list \<Rightarrow> (string list \<times> tls) res" where
  "time_fields t [] = Inr ([], t)"
| "time_fields t ((d, tid) # ds) =
     bind_res (format_time t d tid (fb_new (replicate kSmallBuffer (CHR 0x00)))) (\<lambda>(b, t).
     bind_res (time_fields t ds) (\<lambda>(out, t). Inr (fb_to_string b # out, t)))"

definition time_field :: "date \<Rightarrow> 32 word \<Rightarrow> string" where
  "time_field d tid = to_formatted_string d False @ pad0 6 (nat (d mod 1000000)) @ '' UTC '' @
     int_text (sint tid)"

lemma length_formatted: "date_ok d \<Longrightarrow> length (to_formatted_string d False) = 17"
  using formatted_stamp [of d] length_stamp [OF gmtime_stamp_ok [of d]] by (simp add: date_ok_def)

lemma length_micros: "length (pad0 6 (nat (d mod 1000000))) = 6"
  by (rule length_pad0) (simp_all add: nat_less_iff)

lemma time_items_text:
  assumes "date_ok d"
  shows "concat (map left_text (time_items d tid)) = time_field d tid"
    "(\<Sum>it \<leftarrow> time_items d tid. item_needs it) = 62"
  using length_formatted [OF assms] length_micros [of d]
  by (simp_all add: time_items_def time_field_def left_text_def item_text_def item_needs_def kMaxNumericSize_def)

lemma fresh_buffer:
  "length arr = kSmallBuffer \<Longrightarrow> fb_inv (fb_new arr)" "fb_to_string (fb_new arr) = []"
  "cur (fb_new arr) = 0" "data (fb_new arr) = arr"
  by (simp_all add: fb_inv_def fb_new_def kSmallBuffer_def fb_to_string_def)

lemma format_time_field:
  assumes "tls_ok t" and "date_ok d"
  obtains c where "format_time t d tid (fb_new (replicate kSmallBuffer (CHR 0x00)))
      = Inr (c, cached t d tid)" "fb_to_string c = time_field d (tls_thread_id (cached t d tid))"
proof -
  let ?b = "fb_new (replicate kSmallBuffer (CHR 0x00))" and ?its = "time_items d (tls_thread_id (cached t d tid))"
  have "chain_text kSmallBuffer 0 ?its = time_field d (tls_thread_id (cached t d tid))"
    using chain_text_fits [of 0 ?its kSmallBuffer] time_items_text [OF assms(2)] time_items_ok
    by (simp add: kSmallBuffer_def)
  with ls_put_all_chain [of ?b ?its] time_items_ok fresh_buffer [of "replicate kSmallBuffer (CHR 0x00)"]
  obtain c where "ls_put_all ?b ?its = Inr c" "fb_to_string c = time_field d (tls_thread_id (cached t d tid))"
    by auto
  with that show ?thesis by (simp add: format_time_cached [OF assms])
qed

section \<open>Properties\<close>

text \<open>C35: A thread's cached second is never stale: over any sequence of log dates after the
  first second of 1970 and before the year 10000, every time field is the text of its own
  date, microseconds included, with one thread id throughout, the one of the first
  line.\<close>

theorem time_never_stale:
  assumes "list_all date_ok ds" and "tid \<noteq> 0"
  shows "\<exists>t. time_fields tls_init (map (\<lambda>d. (d, tid)) ds) = Inr (map (\<lambda>d. time_field d tid) ds, t) \<and> tls_ok t"
proof -
  have "\<exists>t'. time_fields t (map (\<lambda>d. (d, tid)) ds) = Inr (map (\<lambda>d. time_field d tid) ds, t') \<and> tls_ok t'"
    if "tls_ok t" "tls_thread_id t \<in> {0, tid}" for t
    using that assms(1)
  proof (induction ds arbitrary: t)
    case (Cons d ds)
    have c: "tls_ok (cached t d tid)" "tls_thread_id (cached t d tid) = tid"
      using Cons.prems assms(2) tls_ok_cached by (auto simp: cached_def)
    from Cons.IH [OF c(1)] c(2) Cons.prems(3) obtain t' where
      "time_fields (cached t d tid) (map (\<lambda>d. (d, tid)) ds) = Inr (map (\<lambda>d. time_field d tid) ds, t')" "tls_ok t'"
      by auto
    moreover obtain b where "format_time t d tid (fb_new (replicate kSmallBuffer (CHR 0x00))) = Inr (b, cached t d tid)"
      "fb_to_string b = time_field d tid"
      using format_time_field [OF Cons.prems(1), of d tid] Cons.prems(3) c(2) by auto
    ultimately show ?case by simp
  qed simp
  then show ?thesis using tls_ok_init by (simp add: tls_init_def)
qed

theorem time_never_stale_witness:
  "\<exists>t. time_fields tls_init (map (\<lambda>d. (d, 7)) [1000000, 1500000, 2000001]) =
     Inr (map (\<lambda>d. time_field d 7) [1000000, 1500000, 2000001], t) \<and> tls_ok t"
  by (rule time_never_stale) (simp_all add: date_ok_def year_10000_def)

text \<open>The cache starts with second zero marked as formatted although its text is empty:
  a thread whose first line carries a date in the first second of 1970 (a \<open>Date\<close> of zero
  microseconds) fails the assertion on the length of the time text.\<close>

theorem epoch_second_asserts:
  assumes "0 \<le> d" and "d < 1000000"
  shows "format_time tls_init d tid b = Inl AssertFailed"
proof -
  have "nat (d mod 2 ^ 64) div 1000000 = 0"
    using assms by (simp add: div_eq_0_iff nat_less_iff)
  then show ?thesis
    by (simp add: format_time_def Let_def tls_init_def put_T_bad)
qed

theorem epoch_second_asserts_witness: "format_time tls_init 0 1 (fb_new []) = Inl AssertFailed"
  by (rule epoch_second_asserts) simp_all

text \<open>A log statement runs exactly when its level is WARN or above or reaches the global
  level. Its line is the chain of time, thread, level, function name (TRACE and DEBUG only),
  arguments, file and line number, with a newline, cut only at whole items; when the items
  fit into the 4000 bytes nothing is lost. It is flushed exactly from ERROR upwards.\<close>

theorem log_statement_line:
  assumes "tls_ok t" and "date_ok d" and "length arr = kSmallBuffer" and "list_all item_ok args"
  shows "log_macro global t d tid (fb_new arr) path line func l args =
      (if WARN \<le> l \<or> global \<le> l
       then Inr (Some (chain_text kSmallBuffer 0
              (line_items d (tls_thread_id (cached t d tid)) l func args path line), ERROR \<le> l), cached t d tid)
       else Inr (None, t)) \<and>
    (123 + length func + length path + (\<Sum>it \<leftarrow> args. item_needs it) \<le> kSmallBuffer \<longrightarrow>
     chain_text kSmallBuffer 0 (line_items d tid' l func args path line) =
       time_field d tid' @ level_str l @ (if l \<le> DEBUG then ''['' @ func @ ''] '' else []) @
       concat (map left_text args) @ '' - '' @ sf_data (sf_of_array path) @ '':'' @
       int_text (sint line) @ [CHR 0x0A])"
proof -
  have ok: "list_all item_ok (line_items d tid l func args path line)" for tid
    using assms(4) time_items_ok by (simp add: line_items_def item_ok_def)
  have "length (sf_data (sf_of_array path)) \<le> length path"
    using strchr_slash_cases [of path] by (auto simp: sf_of_array_def)
  then have "(\<Sum>it \<leftarrow> line_items d tid' l func args path line. item_needs it)
      \<le> 123 + length func + length path + (\<Sum>it \<leftarrow> args. item_needs it)"
    using time_items_text(2) [OF assms(2)]
    by (simp add: line_items_def item_needs_def item_text_def kMaxNumericSize_def)
  then have w: "chain_text kSmallBuffer 0 (line_items d tid' l func args path line) =
      concat (map left_text (line_items d tid' l func args path line))"
    if "123 + length func + length path + (\<Sum>it \<leftarrow> args. item_needs it) \<le> kSmallBuffer"
    using chain_text_fits [of 0 _ kSmallBuffer, OF _ ok] that by simp
  have e: "concat (map left_text (line_items d tid' l func args path line)) =
       time_field d tid' @ level_str l @ (if l \<le> DEBUG then ''['' @ func @ ''] '' else []) @
       concat (map left_text args) @ '' - '' @ sf_data (sf_of_array path) @ '':'' @
       int_text (sint line) @ [CHR 0x0A]"
    using time_items_text(1) [OF assms(2)] by (simp add: line_items_def left_text_def item_text_def)
  let ?its = "line_items d (tls_thread_id (cached t d tid)) l func args path line"
  obtain c where "ls_put_all (fb_new arr) ?its = Inr c" "fb_to_string c = chain_text kSmallBuffer 0 ?its"
    using ls_put_all_chain [OF fresh_buffer(1) [OF assms(3)] ok] by (auto simp: fresh_buffer assms(3))
  then show ?thesis
    unfolding log_macro_items [OF assms(1,2)] using w e by simp
qed

theorem log_statement_line_witness:
  "log_macro DEBUG tls_init 1000000 7 (fb_new (replicate kSmallBuffer (CHR 0x00))) ''a.cc'' 3 ''main'' TRACE [] =
     Inr (None, tls_init) \<and>
   (\<exists>s. log_macro DEBUG tls_init 1000000 7 (fb_new (replicate kSmallBuffer (CHR 0x00))) ''a.cc'' 3 ''main'' ERROR [] =
     Inr (Some (s, True), cached tls_init 1000000 7))"
  using log_statement_line [where t = tls_init and d = 1000000 and arr = "replicate kSmallBuffer (CHR 0x00)"
      and args = "[]" and global = DEBUG and tid = 7 and path = "''a.cc''" and line = 3 and func = "''main''" and l = TRACE]
    log_statement_line [where t = tls_init and d = 1000000 and arr = "replicate kSmallBuffer (CHR 0x00)"
      and args = "[]" and global = DEBUG and tid = 7 and path = "''a.cc''" and line = 3 and func = "''main''" and l = ERROR]
  by (simp add: tls_ok_init date_ok_def year_10000_def less_eq_log_level_def)

text \<open>\<open>SourceFile\<close> keeps the text after the first slash, for a literal and for a
  \<open>const char*\<close> alike; this is the base name its comment asks for exactly when the path
  has at most one slash.\<close>

theorem source_file_basename:
  "sf_of_array s = sf_of_cstr s \<and> nat (sf_size (sf_of_array s)) = length (sf_data (sf_of_array s)) \<and>
   (sf_data (sf_of_array s) = basename s \<longleftrightarrow> length (filter (\<lambda>c. c = CHR ''/'') s) \<le> 1)"
proof -
  have f: "filter (\<lambda>c. c = CHR ''/'') a = [] \<longleftrightarrow> CHR ''/'' \<notin> set a" for a
    by (auto simp: filter_empty_conv)
  have "nat (sf_size (sf_of_array s)) = length (sf_data (sf_of_array s))"
    by (simp add: sf_array_cstr sf_of_cstr_def Let_def)
  moreover have "sf_data (sf_of_array s) = basename s \<longleftrightarrow> length (filter (\<lambda>c. c = CHR ''/'') s) \<le> 1"
    using strchr_slash_cases [of s]
  proof (elim disjE exE conjE)
    assume "strchr_slash s = None" "CHR ''/'' \<notin> set s"
    then show ?thesis using f [of s] by (simp add: sf_of_array_def basename_no_slash)
  next
    fix a r assume s: "s = a @ CHR ''/'' # r" "CHR ''/'' \<notin> set a" "strchr_slash s = Some (CHR ''/'' # r)"
    have "r = basename r \<longleftrightarrow> CHR ''/'' \<notin> set r"
      using basename_no_slash [of r] basename_slashfree [of r] by auto
    then show ?thesis
      using s f [of a] f [of r] by (auto simp: sf_of_array_def basename_append)
  qed
  ultimately show ?thesis by (simp add: sf_array_cstr)
qed

end
