(* ===== verification/Traces.thy ===== *)
theory Traces
  imports Water_Prelude
begin

text \<open>
  Runs of labelled step relations, shared by the components that have threads: the run itself,
  and the interfaces by which a component proves facts about all its runs. \<open>step_invariant\<close>
  is an invariant with a start state; \<open>step_account\<close> adds a quantity that every step changes
  by an amount its label names; \<open>step_order\<close> is its ordered form, a line; \<open>step_preorder\<close> is a
  relation no step takes back; \<open>step_refines\<close> is a simulation of an abstract relation.
\<close>

named_theorems step_simps \<open>which state a labelled step leads to\<close>

inductive run :: "('s \<Rightarrow> 'a \<Rightarrow> 's \<Rightarrow> bool) \<Rightarrow> 's \<Rightarrow> 'a list \<Rightarrow> 's \<Rightarrow> bool"
  for step where
  run_nil: "run step s [] s"
| run_cons: "step s a t \<Longrightarrow> run step t as u \<Longrightarrow> run step s (a # as) u"

inductive_cases run_nilE: "run step s [] t"
inductive_cases run_consE: "run step s (a # as) t"

lemma run_simps [simp]:
  "run step s [] t \<longleftrightarrow> t = s"
  "run step s (a # as) u \<longleftrightarrow> (\<exists>t. step s a t \<and> run step t as u)"
  by (auto intro: run.intros elim: run_nilE run_consE)

lemma run_append: "run step s (as @ bs) u \<longleftrightarrow> (\<exists>t. run step s as t \<and> run step t bs u)"
  by (induction as arbitrary: s) auto

lemma run_join: "run step s as t \<Longrightarrow> run step t bs u \<Longrightarrow> run step s (as @ bs) u"
  by (auto simp: run_append)

lemma run_mono:
  "run step s as t \<Longrightarrow> (\<And>s a t. step s a t \<Longrightarrow> step' s a t) \<Longrightarrow> run step' s as t"
  by (induction rule: run.induct) auto

lemma concat_map_Nil [simp]: "concat (map (\<lambda>a. []) as) = []"
  by (induction as) simp_all

locale step_invariant =
  fixes step :: "'s \<Rightarrow> 'a \<Rightarrow> 's \<Rightarrow> bool"
    and inv :: "'s \<Rightarrow> bool"
  assumes step_inv: "inv s \<Longrightarrow> step s a t \<Longrightarrow> inv t"
begin

lemma run_inv: "run step s as t \<Longrightarrow> inv s \<Longrightarrow> inv t"
  by (induction rule: run.induct) (auto intro: step_inv)

end

locale step_account = step_invariant step inv
  for step :: "'s \<Rightarrow> 'a \<Rightarrow> 's \<Rightarrow> bool" and inv :: "'s \<Rightarrow> bool" +
  fixes enters :: "'a \<Rightarrow> 'm::comm_monoid_add"
    and leaves :: "'a \<Rightarrow> 'm"
    and held :: "'s \<Rightarrow> 'm"
  assumes step_balance: "inv s \<Longrightarrow> step s a t \<Longrightarrow> held t + leaves a = held s + enters a"
begin

text \<open>What is held at the end and what has left is what was held and what has entered.\<close>

lemma run_balance:
  "run step s as t \<Longrightarrow> inv s \<Longrightarrow>
   held t + sum_list (map leaves as) = held s + sum_list (map enters as)"
proof (induction rule: run.induct)
  case (run_cons s a t as u)
  have u: "held u + sum_list (map leaves as) = held t + sum_list (map enters as)"
    using run_cons.IH run_cons.prems run_cons.hyps(1) step_inv by blast
  have t: "held t + leaves a = held s + enters a"
    using run_cons.prems run_cons.hyps(1) by (rule step_balance)
  have "held u + (leaves a + sum_list (map leaves as)) = leaves a + (held u + sum_list (map leaves as))"
    by (simp only: add.left_commute)
  also have "\<dots> = held t + leaves a + sum_list (map enters as)"
    by (simp only: u add.commute add.left_commute add.assoc)
  also have "\<dots> = held s + (enters a + sum_list (map enters as))"
    by (simp only: t add.assoc)
  finally show ?case by simp
qed simp

end

locale step_budget = step_invariant step inv
  for step :: "'s \<Rightarrow> 'a \<Rightarrow> 's \<Rightarrow> bool" and inv :: "'s \<Rightarrow> bool" +
  fixes cost :: "'a \<Rightarrow> nat"
    and budget :: "'s \<Rightarrow> nat"
    and grant :: "'a \<Rightarrow> nat"
  assumes step_cost: "inv s \<Longrightarrow> step s a t \<Longrightarrow> cost a + budget t \<le> budget s + grant a"
begin

text \<open>What a run costs is paid from what the start had and what came in on the way.\<close>

lemma run_cost:
  "run step s as t \<Longrightarrow> inv s \<Longrightarrow>
   sum_list (map cost as) + budget t \<le> budget s + sum_list (map grant as)"
proof (induction rule: run.induct)
  case (run_cons s a t as u)
  have "inv t" using run_cons.prems run_cons.hyps(1) by (rule step_inv)
  with run_cons.IH step_cost [OF run_cons.prems run_cons.hyps(1)] show ?case by simp
qed simp

end

locale step_order = step_invariant step inv
  for step :: "'s \<Rightarrow> 'a \<Rightarrow> 's \<Rightarrow> bool" and inv :: "'s \<Rightarrow> bool" +
  fixes enters :: "'a \<Rightarrow> 'x list"
    and leaves :: "'a \<Rightarrow> 'x list"
    and line :: "'s \<Rightarrow> 'x list"
  assumes step_line: "inv s \<Longrightarrow> step s a t \<Longrightarrow> leaves a @ line t = line s @ enters a"
begin

text \<open>First in, first out: what has left, in order, followed by the line is what entered.\<close>

lemma run_line:
  "run step s as t \<Longrightarrow> inv s \<Longrightarrow>
   concat (map leaves as) @ line t = line s @ concat (map enters as)"
proof (induction rule: run.induct)
  case (run_cons s a t as u)
  have "concat (map leaves as) @ line u = line t @ concat (map enters as)"
    using run_cons.IH run_cons.prems run_cons.hyps(1) step_inv by blast
  moreover have "leaves a @ line t = line s @ enters a"
    using run_cons.prems run_cons.hyps(1) by (rule step_line)
  ultimately show ?case
    by (simp flip: append_assoc) (simp add: append_assoc)
qed simp

end

locale step_preorder = step_invariant step inv
  for step :: "'s \<Rightarrow> 'a \<Rightarrow> 's \<Rightarrow> bool" and inv :: "'s \<Rightarrow> bool" +
  fixes rel :: "'s \<Rightarrow> 's \<Rightarrow> bool"
  assumes rel_refl: "rel s s"
    and rel_trans: "rel s t \<Longrightarrow> rel t u \<Longrightarrow> rel s u"
    and step_rel: "inv s \<Longrightarrow> step s a t \<Longrightarrow> rel s t"
begin

text \<open>What no step takes back, no run takes back.\<close>

lemma run_rel: "run step s as t \<Longrightarrow> inv s \<Longrightarrow> rel s t"
proof (induction rule: run.induct)
  case (run_nil s)
  show ?case by (rule rel_refl)
next
  case (run_cons s a t as u)
  have "rel t u" using run_cons.IH step_inv [OF run_cons.prems run_cons.hyps(1)] by blast
  with step_rel [OF run_cons.prems run_cons.hyps(1)] show ?case by (rule rel_trans)
qed

end

locale step_refines = step_invariant step inv
  for step :: "'s \<Rightarrow> 'a \<Rightarrow> 's \<Rightarrow> bool" and inv :: "'s \<Rightarrow> bool" +
  fixes abs_step :: "'t \<Rightarrow> 'b \<Rightarrow> 't \<Rightarrow> bool"
    and abs_act :: "'a \<Rightarrow> 'b option"
    and abs :: "'s \<Rightarrow> 't"
  assumes step_sim: "inv s \<Longrightarrow> step s a t \<Longrightarrow>
      (case abs_act a of None \<Rightarrow> abs t = abs s | Some b \<Rightarrow> abs_step (abs s) b (abs t))"
begin

lemma run_sim:
  "run step s as t \<Longrightarrow> inv s \<Longrightarrow> run abs_step (abs s) (List.map_filter abs_act as) (abs t)"
proof (induction rule: run.induct)
  case (run_cons s a t as u)
  have "run abs_step (abs t) (List.map_filter abs_act as) (abs u)"
    using run_cons.IH run_cons.prems run_cons.hyps(1) step_inv by blast
  with step_sim [OF run_cons.prems run_cons.hyps(1)] show ?case
    by (auto simp: List.map_filter_simps split: option.splits)
qed (simp add: List.map_filter_simps)

end

end
