(* ===== verification/Async_Logger.thy ===== *)
theory Async_Logger
  imports Traces Date_Time "HOL-Library.Multiset"
begin

text \<open>
  \<open>AsyncFileLogger\<close> (\<open>src/water/base/async_file_logger.h\<close>, \<open>async_file_logger.cc\<close>): the
  double-buffered log back end. Producers append under the mutex; the log thread collects full
  buffers and writes them to a \<open>LoggerFile\<close>, which is rolled by size. The thread is a program
  counter and the whole object a step relation: each step is a region under the mutex or one
  unlocked access of the thread, and a wait may return at any time. The test, \<open>front\<close> and \<open>pop\<close>
  of \<open>write_buffers_\<close> in the writing loop are without the mutex and race with \<open>push\<close>; the model
  takes each test, and \<open>front\<close> with \<open>pop\<close>, as one step, and says nothing of what a real race on
  the \<open>std::queue\<close> may do. Strings are
  \<open>std::string\<close> with their capacity; a buffer is in one place at a time, so the shared
  pointers are values. \<open>can_open\<close> says for which names \<open>fopen\<close> succeeds.
\<close>

section \<open>Buffers\<close>

definition MEM_BUFFER_SIZE :: nat where "MEM_BUFFER_SIZE = 4 * 1024 * 1024"

record str_buf =
  sb_text :: string
  sb_cap :: nat

text \<open>A new string after \<open>reserve(MEM_BUFFER_SIZE)\<close>; growth doubles the capacity.\<close>

definition sb_new :: str_buf where
  "sb_new = \<lparr>sb_text = [], sb_cap = MEM_BUFFER_SIZE\<rparr>"

definition sb_append :: "str_buf \<Rightarrow> string \<Rightarrow> str_buf" where
  "sb_append b s = (let n = length (sb_text b) + length s
     in \<lparr>sb_text = sb_text b @ s, sb_cap = (if n \<le> sb_cap b then sb_cap b else max (2 * sb_cap b) n)\<rparr>)"

definition sb_clear :: "str_buf \<Rightarrow> str_buf" where
  "sb_clear b = b\<lparr>sb_text := []\<rparr>"

section \<open>Log files\<close>

record file_world =
  files :: "string \<Rightarrow> string option"
  file_seq :: "64 word"

record logger_file =
  lf_fp :: bool
  lf_create_date :: date
  lf_full_name :: string
  lf_path :: string
  lf_base :: string
  lf_ext :: string

definition lf_open ::
  "(string \<Rightarrow> bool) \<Rightarrow> date \<Rightarrow> string \<Rightarrow> string \<Rightarrow> string \<Rightarrow> file_world \<Rightarrow> logger_file \<times> file_world" where
  "lf_open can_open now path base ext w =
     (let full = path @ base @ ext; ok = can_open full
      in (\<lparr>lf_fp = ok, lf_create_date = now, lf_full_name = full, lf_path = path, lf_base = base,
           lf_ext = ext\<rparr>,
          if ok \<and> files w full = None then w\<lparr>files := (files w)(full \<mapsto> [])\<rparr> else w))"

definition lf_new_name :: "logger_file \<Rightarrow> file_world \<Rightarrow> string" where
  "lf_new_name lf w =
     (let seq = ''.'' @ pad0 6 (unat (file_seq w mod 1000000));
          date_text = (case to_customed_formatted_string (lf_create_date lf) ''%y%m%d-%H%M%S'' of
             Some s \<Rightarrow> s | None \<Rightarrow> [])
      in lf_path lf @ lf_base lf @ ''.'' @ date_text @ seq @ lf_ext lf)"

definition rename_file :: "string \<Rightarrow> string \<Rightarrow> (string \<Rightarrow> string option) \<Rightarrow> string \<Rightarrow> string option" where
  "rename_file old new fs = (case fs old of None \<Rightarrow> fs | Some c \<Rightarrow> fs(old := None, new \<mapsto> c))"

text \<open>The destructor: close, take a sequence number, rename.\<close>

definition lf_close :: "logger_file \<Rightarrow> file_world \<Rightarrow> file_world" where
  "lf_close lf w =
     (if lf_fp lf
      then w\<lparr>files := rename_file (lf_full_name lf) (lf_new_name lf w) (files w),
             file_seq := file_seq w + 1\<rparr>
      else w)"

definition lf_write_log :: "logger_file \<Rightarrow> string \<Rightarrow> file_world \<Rightarrow> file_world" where
  "lf_write_log lf buf w =
     (if lf_fp lf
      then (case files w (lf_full_name lf) of
              Some c \<Rightarrow> w\<lparr>files := (files w)(lf_full_name lf \<mapsto> c @ buf)\<rparr>
            | None \<Rightarrow> w)
      else w)"

definition lf_get_length :: "logger_file \<Rightarrow> file_world \<Rightarrow> nat" where
  "lf_get_length lf w =
     (if lf_fp lf then (case files w (lf_full_name lf) of Some c \<Rightarrow> length c | None \<Rightarrow> 0) else 0)"

section \<open>The logger\<close>

record async_logger =
  log_buffer :: "str_buf option"
  next_buffer :: "str_buf option"
  write_buffers :: "str_buf list"
  tmp_buffers :: "str_buf list"
  stop_flag :: bool
  file_path :: string
  file_base_name :: string
  file_ext_name :: string
  size_limit :: nat
  the_file :: "logger_file option"
  lost_counter :: "64 word"

text \<open>The constructor; it gives \<open>stop_flag_\<close> no value, so what it holds is an argument.\<close>

definition al_new :: "bool \<Rightarrow> async_logger" where
  "al_new garbage = \<lparr>log_buffer = Some sb_new, next_buffer = Some sb_new, write_buffers = [],
     tmp_buffers = [], stop_flag = garbage, file_path = ''./'', file_base_name = ''water'',
     file_ext_name = ''.log'', size_limit = 20 * 1024 * 1024, the_file = None, lost_counter = 0\<rparr>"

definition set_file_size_limit :: "nat \<Rightarrow> async_logger \<Rightarrow> async_logger" where
  "set_file_size_limit n l = l\<lparr>size_limit := n\<rparr>"

definition set_file_name :: "string \<Rightarrow> string \<Rightarrow> string \<Rightarrow> async_logger \<Rightarrow> async_logger" where
  "set_file_name base ext path l =
     (let l = l\<lparr>file_base_name := base\<rparr>;
          c = (case ext of [] \<Rightarrow> CHR 0x00 | c # _ \<Rightarrow> c);
          l = (if c = CHR ''.'' then l\<lparr>file_ext_name := ext\<rparr> else l\<lparr>file_ext_name := ''.'' @ ext\<rparr>);
          l = l\<lparr>file_path := path\<rparr>;
          l = (if file_path l = [] then l\<lparr>file_path := ''./''\<rparr> else l);
          l = (if last (file_path l) \<noteq> CHR ''/'' then l\<lparr>file_path := file_path l @ ''/''\<rparr> else l)
      in l)"

definition lost_text :: "64 word \<Rightarrow> string" where
  "lost_text n = int_text (sint n) @ '' log information is lost'' @ [CHR 0x0A]"

definition al_output :: "string \<Rightarrow> async_logger \<Rightarrow> async_logger" where
  "al_output msg l =
     (if MEM_BUFFER_SIZE < length msg then l
      else
        let b = (case log_buffer l of None \<Rightarrow> sb_new | Some b \<Rightarrow> b);
            (b, l) = (if sz_sub (sb_cap b) (length (sb_text b)) < length msg
                      then (case next_buffer l of
                              Some n \<Rightarrow> (n, l\<lparr>write_buffers := write_buffers l @ [b], next_buffer := None\<rparr>)
                            | None \<Rightarrow> (sb_new, l\<lparr>write_buffers := write_buffers l @ [b]\<rparr>))
                      else (b, l))
        in if 25 < length (write_buffers l)
           then l\<lparr>log_buffer := Some b, lost_counter := lost_counter l + 1\<rparr>
           else
             let b = (if 0 < lost_counter l then sb_append b (lost_text (lost_counter l)) else b)
             in l\<lparr>log_buffer := Some (sb_append b msg), lost_counter := 0\<rparr>)"

text \<open>\<open>SwapBuffer\<close>, with the string \<open>b\<close> that \<open>log_buffer_ptr_\<close> points to.\<close>

definition al_swap_buffer :: "str_buf \<Rightarrow> async_logger \<Rightarrow> async_logger" where
  "al_swap_buffer b l =
     (let l = l\<lparr>write_buffers := write_buffers l @ [b]\<rparr>
      in case next_buffer l of
           Some n \<Rightarrow> l\<lparr>log_buffer := Some (sb_clear n), next_buffer := None\<rparr>
         | None \<Rightarrow> l\<lparr>log_buffer := Some sb_new\<rparr>)"

definition al_flush :: "async_logger \<Rightarrow> async_logger res" where
  "al_flush l =
     (case log_buffer l of None \<Rightarrow> Inl OutOfBounds
      | Some b \<Rightarrow> Inr (if sb_text b \<noteq> [] then al_swap_buffer b l else l))"

definition al_write_log_to_file ::
  "(string \<Rightarrow> bool) \<Rightarrow> date \<Rightarrow> string \<Rightarrow> async_logger \<Rightarrow> file_world \<Rightarrow> async_logger \<times> file_world" where
  "al_write_log_to_file can_open now buf l w =
     (let (lf, w) = (case the_file l of
                       Some lf \<Rightarrow> (lf, w)
                     | None \<Rightarrow> lf_open can_open now (file_path l) (file_base_name l) (file_ext_name l) w);
          w = lf_write_log lf buf w
      in if size_limit l < lf_get_length lf w
         then (l\<lparr>the_file := None\<rparr>, lf_close lf w)
         else (l\<lparr>the_file := Some lf\<rparr>, w))"

text \<open>
  The destructor after the join: at most one buffer is written, then the members go, the open
  file with its renaming among them. The second component is the text written.
\<close>

definition al_destroy ::
  "(string \<Rightarrow> bool) \<Rightarrow> date \<Rightarrow> async_logger \<Rightarrow> file_world \<Rightarrow> (string \<times> async_logger \<times> file_world) res" where
  "al_destroy can_open now l w =
     (case log_buffer l of None \<Rightarrow> Inl OutOfBounds
      | Some b \<Rightarrow>
          let l = (if sb_text b \<noteq> [] then l\<lparr>write_buffers := write_buffers l @ [b]\<rparr> else l);
              (out, l, w) = (case write_buffers l of
                 [] \<Rightarrow> ([], l, w)
               | f # fs \<Rightarrow> (sb_text f, al_write_log_to_file can_open now (sb_text f)
                               (l\<lparr>write_buffers := fs\<rparr>) w))
          in Inr (out, l\<lparr>the_file := None\<rparr>, case the_file l of Some lf \<Rightarrow> lf_close lf w | None \<Rightarrow> w))"

section \<open>The log thread\<close>

text \<open>
  Where \<open>LogThreadFunc\<close> stands: not started, before the test of the outer loop, with the
  mutex before the test of the inner loop, in \<open>wait_for\<close>, before the test of the writing
  loop, with a buffer taken from the queue, with a written and cleared buffer to hand back,
  returned.
\<close>

datatype log_pc = LIdle | LTop | LLocked | LWait | LDrain | LTaken str_buf | LWritten str_buf | LExit

record al_sys =
  lg :: async_logger
  world :: file_world
  pc :: log_pc

definition al_swap_queues :: "async_logger \<Rightarrow> async_logger" where
  "al_swap_queues l = l\<lparr>tmp_buffers := write_buffers l, write_buffers := tmp_buffers l\<rparr>"

text \<open>
  The actions: an \<open>Output\<close> with the text it adds to the log buffer (\<open>out_text\<close> says which),
  \<open>Flush\<close>, \<open>StartLogging\<close>, the store to \<open>stop_flag_\<close> in the destructor, and the thread's
  own moves. A timeout does what \<open>Flush\<close> does, without the notification, before it collects.
\<close>

datatype al_act =
    Output string string | FlushCall | StartLogging | SetStop
  | TestStop | TestEmpty | Woken | Timeout | Drained | TakeFront string | WriteFile date string | HandBack

definition out_text :: "string \<Rightarrow> async_logger \<Rightarrow> string" where
  "out_text msg l =
     (if MEM_BUFFER_SIZE < length msg \<or> 25 < length (write_buffers (al_output msg l)) then []
      else if 0 < lost_counter l then lost_text (lost_counter l) @ msg else msg)"

inductive al_step :: "(string \<Rightarrow> bool) \<Rightarrow> al_sys \<Rightarrow> al_act \<Rightarrow> al_sys \<Rightarrow> bool" for can_open where
  put_output: "al_step can_open s (Output msg (out_text msg (lg s))) (s\<lparr>lg := al_output msg (lg s)\<rparr>)"
| put_flush: "al_flush (lg s) = Inr l \<Longrightarrow> al_step can_open s FlushCall (s\<lparr>lg := l\<rparr>)"
| start: "pc s = LIdle \<Longrightarrow> al_step can_open s StartLogging (s\<lparr>pc := LTop\<rparr>)"
| set_stop: "al_step can_open s SetStop (s\<lparr>lg := (lg s)\<lparr>stop_flag := True\<rparr>\<rparr>)"
| test_stop: "pc s = LTop \<Longrightarrow>
    al_step can_open s TestStop (s\<lparr>pc := (if stop_flag (lg s) then LExit else LLocked)\<rparr>)"
| test_empty: "pc s = LLocked \<Longrightarrow>
    al_step can_open s TestEmpty
      (if write_buffers (lg s) = [] \<and> \<not> stop_flag (lg s) then s\<lparr>pc := LWait\<rparr>
       else s\<lparr>lg := al_swap_queues (lg s), pc := LDrain\<rparr>)"
| woken: "pc s = LWait \<Longrightarrow> al_step can_open s Woken (s\<lparr>pc := LLocked\<rparr>)"
| timeout: "pc s = LWait \<Longrightarrow> al_flush (lg s) = Inr l \<Longrightarrow>
    al_step can_open s Timeout (s\<lparr>lg := al_swap_queues l, pc := LDrain\<rparr>)"
| drained: "pc s = LDrain \<Longrightarrow> write_buffers (lg s) = [] \<Longrightarrow>
    al_step can_open s Drained (s\<lparr>pc := LTop\<rparr>)"
| take_front: "pc s = LDrain \<Longrightarrow> write_buffers (lg s) = b # bs \<Longrightarrow>
    al_step can_open s (TakeFront (sb_text b)) (s\<lparr>lg := (lg s)\<lparr>write_buffers := bs\<rparr>, pc := LTaken b\<rparr>)"
| write_file: "pc s = LTaken b \<Longrightarrow> al_write_log_to_file can_open now (sb_text b) (lg s) (world s) = (l, w) \<Longrightarrow>
    al_step can_open s (WriteFile now (sb_text b)) (s\<lparr>lg := l, world := w, pc := LWritten (sb_clear b)\<rparr>)"
| hand_back: "pc s = LWritten b \<Longrightarrow>
    al_step can_open s HandBack (s\<lparr>lg := (lg s)\<lparr>next_buffer := Some b\<rparr>, pc := LDrain\<rparr>)"

inductive_cases al_stepE: "al_step can_open s a t"

inductive_simps al_step_simps [step_simps]:
  "al_step can_open s (Output msg txt) t"
  "al_step can_open s FlushCall t"
  "al_step can_open s StartLogging t"
  "al_step can_open s SetStop t"
  "al_step can_open s TestStop t"
  "al_step can_open s TestEmpty t"
  "al_step can_open s Woken t"
  "al_step can_open s Timeout t"
  "al_step can_open s Drained t"
  "al_step can_open s (TakeFront txt) t"

lemma al_step_file [step_simps]:
  "al_step can_open s (WriteFile now txt) t \<longleftrightarrow>
     (case pc s of LTaken b \<Rightarrow> txt = sb_text b \<and>
        t = (case al_write_log_to_file can_open now (sb_text b) (lg s) (world s) of
               (l, w) \<Rightarrow> s\<lparr>lg := l, world := w, pc := LWritten (sb_clear b)\<rparr>) | _ \<Rightarrow> False)"
  "al_step can_open s HandBack t \<longleftrightarrow>
     (case pc s of LWritten b \<Rightarrow> t = s\<lparr>lg := (lg s)\<lparr>next_buffer := Some b\<rparr>, pc := LDrain\<rparr> | _ \<Rightarrow> False)"
  by (auto elim: al_stepE intro: al_step.intros split: log_pc.splits prod.splits)

definition al_start :: "bool \<Rightarrow> file_world \<Rightarrow> al_sys" where
  "al_start garbage w = \<lparr>lg = al_new garbage, world = w, pc = LIdle\<rparr>"

text \<open>The logger as a program sets it up: \<open>SetFileName\<close>, \<open>set_file_size_limit\<close>.\<close>

definition al_ready :: "bool \<Rightarrow> string \<Rightarrow> string \<Rightarrow> string \<Rightarrow> nat \<Rightarrow> file_world \<Rightarrow> al_sys" where
  "al_ready garbage base ext path limit w =
     \<lparr>lg = set_file_size_limit limit (set_file_name base ext path (al_new garbage)), world = w, pc = LIdle\<rparr>"

section \<open>What the logger holds\<close>

definition texts :: "str_buf list \<Rightarrow> string" where
  "texts bs = concat (map sb_text bs)"

lemma texts_simps [simp]:
  "texts [] = []" "texts (b # bs) = sb_text b @ texts bs" "texts (xs @ ys) = texts xs @ texts ys"
  by (simp_all add: texts_def)

definition log_text :: "async_logger \<Rightarrow> string" where
  "log_text l = (case log_buffer l of None \<Rightarrow> [] | Some b \<Rightarrow> sb_text b)"

definition draining :: "log_pc \<Rightarrow> bool" where
  "draining p = (case p of LDrain \<Rightarrow> True | LTaken b \<Rightarrow> True | LWritten b \<Rightarrow> True | _ \<Rightarrow> False)"

definition taken :: "log_pc \<Rightarrow> string" where
  "taken p = (case p of LTaken b \<Rightarrow> sb_text b | _ \<Rightarrow> [])"

lemma pc_simps [simp]:
  "draining LDrain" "draining (LTaken b)" "draining (LWritten b)"
  "\<not> draining LIdle" "\<not> draining LTop" "\<not> draining LLocked" "\<not> draining LWait" "\<not> draining LExit"
  "taken (LTaken b) = sb_text b" "taken LDrain = []" "taken (LWritten b) = []"
  "taken LIdle = []" "taken LTop = []" "taken LLocked = []" "taken LWait = []" "taken LExit = []"
  by (simp_all add: draining_def taken_def)

text \<open>
  All text held, in the order in which the thread would write it if nobody else moved: it
  writes what it collected one round ago first.
\<close>

definition al_line :: "al_sys \<Rightarrow> string" where
  "al_line s = taken (pc s) @
     (if draining (pc s) then texts (write_buffers (lg s)) @ texts (tmp_buffers (lg s))
      else texts (tmp_buffers (lg s)) @ texts (write_buffers (lg s))) @ log_text (lg s)"

fun entered :: "al_act \<Rightarrow> string" where
  "entered (Output msg txt) = txt"
| "entered _ = []"

fun written :: "al_act \<Rightarrow> string" where
  "written (WriteFile now txt) = txt"
| "written _ = []"

text \<open>
  The invariant: the log buffer is there, an idle buffer is empty, every buffer keeps at least
  the reserved capacity, and nothing empty is queued.
\<close>

definition empty_buf :: "str_buf \<Rightarrow> bool" where
  "empty_buf b \<longleftrightarrow> sb_text b = [] \<and> MEM_BUFFER_SIZE \<le> sb_cap b"

definition full_buf :: "str_buf \<Rightarrow> bool" where
  "full_buf b \<longleftrightarrow> sb_text b \<noteq> [] \<and> MEM_BUFFER_SIZE \<le> sb_cap b"

definition log_inv :: "async_logger \<Rightarrow> bool" where
  "log_inv l \<longleftrightarrow> (\<exists>b. log_buffer l = Some b \<and> MEM_BUFFER_SIZE \<le> sb_cap b \<and> length (sb_text b) \<le> sb_cap b) \<and>
     (case next_buffer l of None \<Rightarrow> True | Some n \<Rightarrow> empty_buf n) \<and>
     list_all full_buf (write_buffers l) \<and> list_all full_buf (tmp_buffers l)"

definition pc_inv :: "log_pc \<Rightarrow> bool" where
  "pc_inv p = (case p of LTaken b \<Rightarrow> full_buf b | LWritten b \<Rightarrow> empty_buf b | _ \<Rightarrow> True)"

text \<open>
  How many buffers can wait. Outside the writing loop at most 26 are queued, and with 26 the
  log buffer is empty, so that nothing more is queued; within it one more may come.
\<close>

definition queue_bound :: "bool \<Rightarrow> async_logger \<Rightarrow> bool" where
  "queue_bound d l \<longleftrightarrow>
     (let n = (if d then 27 else 26) in
      length (write_buffers l) \<le> n \<and> (length (write_buffers l) = n \<longrightarrow> log_text l = []) \<and>
      length (tmp_buffers l) \<le> 26)"

definition al_inv :: "al_sys \<Rightarrow> bool" where
  "al_inv s \<longleftrightarrow> log_inv (lg s) \<and> pc_inv (pc s) \<and> queue_bound (draining (pc s)) (lg s)"

lemma sb_new_empty [simp]: "empty_buf sb_new" "sb_text sb_new = []" "sb_cap sb_new = MEM_BUFFER_SIZE"
  by (simp_all add: empty_buf_def sb_new_def)

lemma sb_clear_simps [simp]: "sb_text (sb_clear b) = []" "sb_cap (sb_clear b) = sb_cap b"
  by (simp_all add: sb_clear_def)

lemma sb_append_simps:
  "sb_text (sb_append b s) = sb_text b @ s" "sb_cap b \<le> sb_cap (sb_append b s)"
  "length (sb_text (sb_append b s)) \<le> sb_cap (sb_append b s)"
  by (auto simp: sb_append_def Let_def)

lemma log_inv_E:
  assumes "log_inv l"
  obtains b where "log_buffer l = Some b" "log_text l = sb_text b" "MEM_BUFFER_SIZE \<le> sb_cap b"
    "length (sb_text b) \<le> sb_cap b"
  using assms by (auto simp: log_inv_def log_text_def)

lemma al_new_inv: "al_inv (al_start g w)"
  by (simp add: al_inv_def al_start_def al_new_def log_inv_def pc_inv_def queue_bound_def log_text_def)

lemma al_ready_inv: "al_inv (al_ready g base ext path limit w)"
proof -
  have "log_inv (set_file_size_limit limit (set_file_name base ext path l)) = log_inv l"
    "queue_bound d (set_file_size_limit limit (set_file_name base ext path l)) = queue_bound d l" for l d
    by (simp_all add: set_file_size_limit_def set_file_name_def Let_def log_inv_def queue_bound_def log_text_def)
  with al_new_inv [of g w] show ?thesis by (simp add: al_inv_def al_start_def al_ready_def)
qed

text \<open>\<open>Output\<close>: the buffer it continues with, and the two branches.\<close>

lemma al_output_rotate:
  assumes "log_inv l" and "length msg \<le> MEM_BUFFER_SIZE"
  obtains b l' where
    "al_output msg l =
       (if 25 < length (write_buffers l') then l'\<lparr>log_buffer := Some b, lost_counter := lost_counter l + 1\<rparr>
        else l'\<lparr>log_buffer := Some (sb_append (if 0 < lost_counter l then sb_append b (lost_text (lost_counter l))
               else b) msg), lost_counter := 0\<rparr>)"
    "log_inv (l'\<lparr>log_buffer := Some b\<rparr>)" "tmp_buffers l' = tmp_buffers l"
    "texts (write_buffers l') @ sb_text b = texts (write_buffers l) @ log_text l"
    "write_buffers l' = write_buffers l \<and> sb_text b = log_text l \<or>
     length (write_buffers l') = Suc (length (write_buffers l)) \<and> sb_text b = [] \<and> log_text l \<noteq> []"
proof -
  from assms(1) obtain b where b: "log_buffer l = Some b" "log_text l = sb_text b"
    "MEM_BUFFER_SIZE \<le> sb_cap b" "length (sb_text b) \<le> sb_cap b" by (rule log_inv_E)
  show ?thesis
  proof (cases "sb_cap b - length (sb_text b) < length msg")
    case False
    show ?thesis
      by (rule that [of l b]) (use assms b False in \<open>simp_all add: al_output_def Let_def log_inv_def\<close>)
  next
    case True
    have f: "full_buf b" using True assms(2) b(3,4) by (auto simp: full_buf_def)
    show ?thesis
    proof (cases "next_buffer l")
      case None
      show ?thesis
        by (rule that [of "l\<lparr>write_buffers := write_buffers l @ [b]\<rparr>" sb_new])
          (use assms b True None f in \<open>simp_all add: al_output_def Let_def log_inv_def full_buf_def\<close>)
    next
      case (Some n)
      then have "empty_buf n" using assms(1) by (simp add: log_inv_def)
      show ?thesis
        by (rule that [of "l\<lparr>write_buffers := write_buffers l @ [b], next_buffer := None\<rparr>" n])
          (use assms b True Some f \<open>empty_buf n\<close> in \<open>simp_all add: al_output_def Let_def log_inv_def full_buf_def empty_buf_def\<close>)
    qed
  qed
qed

lemma al_output_ok:
  assumes "log_inv l"
  shows "log_inv (al_output msg l)" "tmp_buffers (al_output msg l) = tmp_buffers l"
    "texts (write_buffers (al_output msg l)) @ log_text (al_output msg l) =
       texts (write_buffers l) @ log_text l @ out_text msg l"
    "queue_bound d l \<Longrightarrow> queue_bound d (al_output msg l)"
proof -
  have *: "log_inv (al_output msg l) \<and> tmp_buffers (al_output msg l) = tmp_buffers l \<and>
    texts (write_buffers (al_output msg l)) @ log_text (al_output msg l) =
       texts (write_buffers l) @ log_text l @ out_text msg l \<and>
    (queue_bound d l \<longrightarrow> queue_bound d (al_output msg l))"
  proof (cases "length msg \<le> MEM_BUFFER_SIZE")
    case False
    with assms show ?thesis by (simp add: al_output_def out_text_def)
  next
    case True
    from al_output_rotate [OF assms this] obtain b l' where o: "al_output msg l =
       (if 25 < length (write_buffers l') then l'\<lparr>log_buffer := Some b, lost_counter := lost_counter l + 1\<rparr>
        else l'\<lparr>log_buffer := Some (sb_append (if 0 < lost_counter l then sb_append b (lost_text (lost_counter l))
               else b) msg), lost_counter := 0\<rparr>)"
      and i: "log_inv (l'\<lparr>log_buffer := Some b\<rparr>)" "tmp_buffers l' = tmp_buffers l"
      and t: "texts (write_buffers l') @ sb_text b = texts (write_buffers l) @ log_text l"
      and q: "write_buffers l' = write_buffers l \<and> sb_text b = log_text l \<or>
     length (write_buffers l') = Suc (length (write_buffers l)) \<and> sb_text b = [] \<and> log_text l \<noteq> []"
      by blast
    have c: "MEM_BUFFER_SIZE \<le> sb_cap b" using i(1) by (simp add: log_inv_def)
    show ?thesis
    proof (cases "25 < length (write_buffers l')")
      case drop: True
      have "queue_bound d (al_output msg l)" if "queue_bound d l"
        using that drop q i(2) by (auto simp: o queue_bound_def Let_def log_text_def)
      then show ?thesis
        using drop i t by (simp add: o log_inv_def out_text_def log_text_def)
    next
      case False
      let ?b = "sb_append (if 0 < lost_counter l then sb_append b (lost_text (lost_counter l)) else b) msg"
      have "sb_text ?b = sb_text b @ out_text msg l"
        using False True by (simp add: out_text_def o sb_append_simps)
      moreover have "MEM_BUFFER_SIZE \<le> sb_cap ?b" "length (sb_text ?b) \<le> sb_cap ?b"
        using c sb_append_simps(2,3) order_trans by (metis (full_types))+
      moreover have "queue_bound d (al_output msg l)" if "queue_bound d l"
        using that False i(2) by (simp add: o queue_bound_def Let_def)
      ultimately show ?thesis
        using False i t by (simp add: o log_inv_def log_text_def flip: append_assoc)
    qed
  qed
  then show "log_inv (al_output msg l)" "tmp_buffers (al_output msg l) = tmp_buffers l"
    "texts (write_buffers (al_output msg l)) @ log_text (al_output msg l) =
       texts (write_buffers l) @ log_text l @ out_text msg l"
    "queue_bound d l \<Longrightarrow> queue_bound d (al_output msg l)" by blast+
qed

lemma al_swap_buffer_ok:
  assumes "log_inv l" and "log_buffer l = Some b" and "sb_text b \<noteq> []"
  shows "log_inv (al_swap_buffer b l)" "tmp_buffers (al_swap_buffer b l) = tmp_buffers l"
    "write_buffers (al_swap_buffer b l) = write_buffers l @ [b]" "log_text (al_swap_buffer b l) = []"
    "stop_flag (al_swap_buffer b l) = stop_flag l"
  using assms
  by (auto simp: al_swap_buffer_def log_inv_def log_text_def full_buf_def empty_buf_def split: option.splits)

lemma al_flush_E:
  assumes "log_inv l" and "al_flush l = Inr l'"
  shows "log_inv l'" "tmp_buffers l' = tmp_buffers l" "stop_flag l' = stop_flag l"
    "texts (write_buffers l') @ log_text l' = texts (write_buffers l) @ log_text l"
    "queue_bound d l \<Longrightarrow> queue_bound d l'" "log_text l' = []"
proof -
  from assms(1) obtain b where b: "log_buffer l = Some b" "log_text l = sb_text b" by (rule log_inv_E)
  have "log_inv l' \<and> tmp_buffers l' = tmp_buffers l \<and> stop_flag l' = stop_flag l \<and>
    texts (write_buffers l') @ log_text l' = texts (write_buffers l) @ log_text l \<and>
    (queue_bound d l \<longrightarrow> queue_bound d l') \<and> log_text l' = []"
  proof (cases "sb_text b = []")
    case True
    with assms b show ?thesis by (simp add: al_flush_def)
  next
    case False
    with assms(2) b(1) have l: "l' = al_swap_buffer b l" by (simp add: al_flush_def)
    show ?thesis
      using al_swap_buffer_ok [OF assms(1) b(1) False] b False
      by (simp add: l queue_bound_def Let_def)
  qed
  then show "log_inv l'" "tmp_buffers l' = tmp_buffers l" "stop_flag l' = stop_flag l"
    "texts (write_buffers l') @ log_text l' = texts (write_buffers l) @ log_text l"
    "queue_bound d l \<Longrightarrow> queue_bound d l'" "log_text l' = []" by blast+
qed

lemma al_flush_total: "log_inv l \<Longrightarrow> \<exists>l'. al_flush l = Inr l'"
  by (auto simp: al_flush_def log_inv_def)

lemma write_log_fields:
  assumes "al_write_log_to_file can_open now buf l w = (l', w')"
  shows "log_inv l' = log_inv l" "log_text l' = log_text l" "queue_bound d l' = queue_bound d l"
    "write_buffers l' = write_buffers l" "tmp_buffers l' = tmp_buffers l" "stop_flag l' = stop_flag l"
  using assms
  by (auto simp: al_write_log_to_file_def Let_def log_inv_def log_text_def queue_bound_def
      split: prod.splits if_splits)

lemma swap_queues_ok:
  "log_inv (al_swap_queues l) = log_inv l" "log_text (al_swap_queues l) = log_text l"
  "queue_bound False l \<Longrightarrow> queue_bound True (al_swap_queues l)"
  by (auto simp: al_swap_queues_def log_inv_def log_text_def queue_bound_def)

lemma al_step_inv:
  assumes "al_inv s" and "al_step can_open s a t"
  shows "al_inv t"
  using assms(2)
proof (cases rule: al_step.cases)
  case (put_output msg)
  with assms(1) al_output_ok(1) [of "lg s" msg] al_output_ok(4) [of "lg s" _ msg] show ?thesis by (simp add: al_inv_def)
next
  case (put_flush l)
  with assms(1) al_flush_E(1) [of "lg s" l] al_flush_E(5) [of "lg s" l] show ?thesis by (simp add: al_inv_def)
next
  case start
  with assms(1) show ?thesis by (simp add: al_inv_def pc_inv_def)
next
  case set_stop
  with assms(1) show ?thesis by (simp add: al_inv_def log_inv_def queue_bound_def log_text_def)
next
  case test_stop
  with assms(1) show ?thesis by (simp add: al_inv_def pc_inv_def)
next
  case test_empty
  with assms(1) swap_queues_ok [of "lg s"] show ?thesis by (simp add: al_inv_def pc_inv_def)
next
  case woken
  with assms(1) show ?thesis by (simp add: al_inv_def pc_inv_def)
next
  case (timeout l)
  with assms(1) al_flush_E(1) [of "lg s" l] al_flush_E(5) [of "lg s" l] swap_queues_ok [of l] show ?thesis
    by (simp add: al_inv_def pc_inv_def)
next
  case drained
  with assms(1) show ?thesis by (simp add: al_inv_def pc_inv_def queue_bound_def)
next
  case (take_front b bs)
  with assms(1) show ?thesis
    by (auto simp: al_inv_def pc_inv_def queue_bound_def log_inv_def log_text_def)
next
  case (write_file b now l w)
  with assms(1) write_log_fields [OF write_file(4)] show ?thesis
    by (simp add: al_inv_def pc_inv_def full_buf_def empty_buf_def)
next
  case (hand_back b)
  with assms(1) show ?thesis
    by (simp add: al_inv_def pc_inv_def log_inv_def queue_bound_def log_text_def)
qed

text \<open>
  Steps keep the order of the line, except that a buffer queued during the writing loop
  overtakes the buffers collected before it.
\<close>

definition overtakes :: "al_sys \<Rightarrow> al_act \<Rightarrow> bool" where
  "overtakes s a \<longleftrightarrow> draining (pc s) \<and> tmp_buffers (lg s) \<noteq> [] \<and>
     (case a of Output msg txt \<Rightarrow> True | FlushCall \<Rightarrow> True | _ \<Rightarrow> False)"

lemma al_step_line:
  assumes "al_inv s" and "al_step can_open s a t" and "\<not> overtakes s a"
  shows "written a @ al_line t = al_line s @ entered a"
  using assms(2)
proof (cases rule: al_step.cases)
  case (put_output msg)
  with assms(1,3) al_output_ok(2,3) [of "lg s" msg] show ?thesis
    by (cases "tmp_buffers (lg s)") (auto simp: al_inv_def al_line_def overtakes_def)
next
  case (put_flush l)
  with assms(1,3) al_flush_E(2,4) [of "lg s" l] show ?thesis
    by (cases "tmp_buffers (lg s)") (auto simp: al_inv_def al_line_def overtakes_def)
next
  case (timeout l)
  with assms(1) al_flush_E(2,4) [of "lg s" l] show ?thesis
    by (simp add: al_inv_def al_line_def al_swap_queues_def log_text_def)
next
  case (write_file b now l w)
  with write_log_fields [OF write_file(4)] show ?thesis by (simp add: al_line_def)
qed (auto simp: al_line_def al_swap_queues_def log_text_def)

lemma al_step_held:
  assumes "al_inv s" and "al_step can_open s a t"
  shows "mset (al_line t) + mset (written a) = mset (al_line s) + mset (entered a)"
proof (cases "overtakes s a")
  case False
  from al_step_line [OF assms False] show ?thesis
    by (metis mset_append add.commute)
next
  case True
  have i: "log_inv (lg s)" using assms(1) by (simp add: al_inv_def)
  from True consider msg tx where "a = Output msg tx" | "a = FlushCall"
    by (auto simp: overtakes_def split: al_act.splits)
  then show ?thesis
  proof cases
    case 1
    with assms(2) have "tx = out_text msg (lg s)" "t = s\<lparr>lg := al_output msg (lg s)\<rparr>"
      by (auto simp: step_simps)
    with 1 arg_cong [OF al_output_ok(3) [OF i, of msg], of mset] al_output_ok(2) [OF i, of msg] show ?thesis
      by (simp add: al_line_def add_ac)
  next
    case 2
    with assms(2) obtain l where "al_flush (lg s) = Inr l" "t = s\<lparr>lg := l\<rparr>"
      by (auto simp: step_simps)
    with 2 al_flush_E(2) [OF i, of l] arg_cong [OF al_flush_E(4) [OF i, of l], of mset] show ?thesis
      by (simp add: al_line_def add_ac)
  qed
qed

interpretation al: step_account "al_step can_open" al_inv "\<lambda>a. mset (entered a)" "\<lambda>a. mset (written a)"
  "\<lambda>s. mset (al_line s)"
  by unfold_locales (fact al_step_inv, fact al_step_held)

text \<open>The steps without overtaking: nobody queues a buffer while the thread writes.\<close>

definition quiet_step :: "(string \<Rightarrow> bool) \<Rightarrow> al_sys \<Rightarrow> al_act \<Rightarrow> al_sys \<Rightarrow> bool" where
  "quiet_step can_open s a t \<longleftrightarrow> al_step can_open s a t \<and> \<not> overtakes s a"

interpretation alq: step_order "quiet_step can_open" al_inv entered written al_line
  by unfold_locales (auto simp: quiet_step_def intro: al_step_inv al_step_line)

lemma al_line_ready [simp]: "al_line (al_ready g base ext path limit w) = []"
  by (simp add: al_line_def al_ready_def set_file_size_limit_def set_file_name_def al_new_def log_text_def Let_def)

section \<open>Stopping\<close>

definition thread_act :: "al_act \<Rightarrow> bool" where
  "thread_act a = (case a of Output m t \<Rightarrow> False | FlushCall \<Rightarrow> False | StartLogging \<Rightarrow> False
     | SetStop \<Rightarrow> False | _ \<Rightarrow> True)"

text \<open>The calls that may queue a buffer.\<close>

definition queues :: "al_act \<Rightarrow> bool" where
  "queues a = (case a of Output m t \<Rightarrow> True | FlushCall \<Rightarrow> True | _ \<Rightarrow> False)"

text \<open>The steps the thread has left once the flag is set, if nobody queues a buffer.\<close>

definition steps_left :: "al_sys \<Rightarrow> nat" where
  "steps_left s =
     (let w = length (write_buffers (lg s)); t = length (tmp_buffers (lg s)) in
      case pc s of LIdle \<Rightarrow> 1 | LExit \<Rightarrow> 0 | LTop \<Rightarrow> 1 | LLocked \<Rightarrow> 3 * t + 3 | LWait \<Rightarrow> 3 * t + 4
      | LDrain \<Rightarrow> 3 * w + 2 | LTaken b \<Rightarrow> 3 * w + 4 | LWritten b \<Rightarrow> 3 * w + 3)"

lemma thread_step_left:
  assumes "al_inv s" and "stop_flag (lg s)" and "al_step can_open s a t" and "thread_act a"
  shows "stop_flag (lg t) \<and> steps_left t < steps_left s"
  using assms(3)
proof (cases rule: al_step.cases)
  case (timeout l)
  with assms(1,2) al_flush_E(2,3) [of "lg s" l] show ?thesis
    by (simp add: al_inv_def steps_left_def al_swap_queues_def)
next
  case (write_file b now l w)
  with assms(2) write_log_fields [OF write_file(4)] show ?thesis by (simp add: steps_left_def)
qed (use assms(2,4) in \<open>auto simp: steps_left_def al_swap_queues_def thread_act_def Let_def\<close>)

lemma al_output_length: "length (write_buffers (al_output msg l)) \<le> Suc (length (write_buffers l))"
  by (simp add: al_output_def Let_def split: option.split)

lemma al_output_stop: "stop_flag (al_output msg l) = stop_flag l"
  by (simp add: al_output_def Let_def split: option.split)

lemma al_flush_length: "al_flush l = Inr l' \<Longrightarrow> length (write_buffers l') \<le> Suc (length (write_buffers l))"
  by (auto simp: al_flush_def al_swap_buffer_def Let_def split: option.splits if_splits)

text \<open>A call that queues a buffer during the writing loop costs the thread one more round of it.\<close>

lemma other_step_left:
  assumes "al_inv s" and "stop_flag (lg s)" and "al_step can_open s a t" and "\<not> thread_act a"
  shows "stop_flag (lg t) \<and> steps_left t \<le> steps_left s + (if queues a then 3 else 0)"
  using assms(3)
proof (cases rule: al_step.cases)
  case (put_output msg)
  have "tmp_buffers (al_output msg (lg s)) = tmp_buffers (lg s)"
    using assms(1) al_output_ok(2) by (simp add: al_inv_def)
  with put_output assms(2) al_output_length [of msg "lg s"] show ?thesis
    by (auto simp: steps_left_def al_output_stop queues_def Let_def split: log_pc.split)
next
  case (put_flush l)
  have "tmp_buffers l = tmp_buffers (lg s)" "stop_flag l = stop_flag (lg s)"
    using assms(1) al_flush_E(2,3) put_flush(3) by (auto simp: al_inv_def)
  with put_flush assms(2) al_flush_length [OF put_flush(3)] show ?thesis
    by (auto simp: steps_left_def queues_def Let_def split: log_pc.split)
qed (use assms(2,4) in \<open>auto simp: steps_left_def thread_act_def queues_def Let_def split: log_pc.split\<close>)

lemma step_left:
  assumes "al_inv s \<and> stop_flag (lg s)" and "al_step can_open s a t"
  shows "al_inv t \<and> stop_flag (lg t)"
    "(if thread_act a then 1 else 0) + steps_left t \<le> steps_left s + (if queues a then 3 else 0)"
  using assms al_step_inv [OF _ assms(2)] thread_step_left [OF _ _ assms(2)] other_step_left [OF _ _ assms(2)]
  by (cases "thread_act a"; auto)+

interpretation als: step_budget "al_step can_open" "\<lambda>s. al_inv s \<and> stop_flag (lg s)" "\<lambda>a. if thread_act a then 1 else 0"
  steps_left "\<lambda>a. if queues a then 3 else 0"
  by unfold_locales (fact step_left(1), fact step_left(2))

lemma sum_list_filter: "sum_list (map (\<lambda>a. if P a then k else (0 :: nat)) as) = k * length (filter P as)"
  by (induction as) simp_all

lemma thread_can_step:
  assumes "al_inv s" and "pc s \<noteq> LIdle" and "pc s \<noteq> LExit"
  shows "\<exists>a t. thread_act a \<and> al_step can_open s a t"
proof (cases "pc s")
  case LDrain
  show ?thesis
  proof (cases "write_buffers (lg s)")
    case Nil
    with LDrain show ?thesis by (intro exI [of _ Drained]) (auto simp: step_simps thread_act_def)
  next
    case (Cons b bs)
    with LDrain show ?thesis by (intro exI [of _ "TakeFront (sb_text b)"]) (auto simp: step_simps thread_act_def)
  qed
next
  case (LTaken b)
  then show ?thesis
    by (intro exI [of _ "WriteFile 0 (sb_text b)"])
      (cases "al_write_log_to_file can_open 0 (sb_text b) (lg s) (world s)", auto simp: step_simps thread_act_def)
next
  case LTop
  then show ?thesis by (intro exI [of _ TestStop]) (auto simp: step_simps thread_act_def)
next
  case LLocked
  then show ?thesis by (intro exI [of _ TestEmpty]) (auto simp: step_simps thread_act_def)
next
  case LWait
  then show ?thesis by (intro exI [of _ Woken]) (auto simp: step_simps thread_act_def)
next
  case (LWritten b)
  then show ?thesis by (intro exI [of _ HandBack]) (auto simp: step_simps thread_act_def)
qed (use assms in auto)

section \<open>Properties\<close>

text \<open>Lines can be written in the wrong order: what a producer flushes while the thread is
  in its writing loop is written before what the thread collected earlier. There is a run in
  which \<open>a\<close> is accepted before \<open>b\<close> and the file holds \<open>ba\<close>.\<close>

definition overtaking_run :: "al_act list" where
  "overtaking_run = [StartLogging, TestStop, Output ''a'' ''a'', FlushCall, TestEmpty,
     Output ''b'' ''b'', FlushCall, TakeFront ''b'', WriteFile 0 ''b'', HandBack, Drained,
     TestStop, TestEmpty, Timeout, TakeFront ''a'', WriteFile 0 ''a'']"

theorem log_lines_overtake:
  "concat (map entered overtaking_run) = ''ab'' \<and>
   (\<exists>s. run (al_step (\<lambda>n. True)) (al_start False \<lparr>files = Map.empty, file_seq = 0\<rparr>) overtaking_run s \<and>
     files (world s) ''./water.log'' = Some ''ba'')"
  by (simp add: overtaking_run_def step_simps al_start_def al_new_def
        out_text_def al_output_def MEM_BUFFER_SIZE_def sb_new_def sb_append_def Let_def al_flush_def
        al_swap_buffer_def al_swap_queues_def sb_clear_def al_write_log_to_file_def lf_open_def
        lf_write_log_def lf_get_length_def)

text \<open>C31: \<open>Output\<close> on every branch: a line of more than 4 MB vanishes without a trace; when
  more than 25 buffers wait the line is dropped and counted; otherwise the line is appended
  whole at the end, after a notice with the number of lines dropped since the last one
  accepted, and the count starts again.\<close>

theorem output_accounting:
  assumes "log_inv l"
  shows "texts (write_buffers (al_output msg l)) @ log_text (al_output msg l) =
      texts (write_buffers l) @ log_text l @ out_text msg l \<and>
    (MEM_BUFFER_SIZE < length msg \<longrightarrow> al_output msg l = l) \<and>
    (length msg \<le> MEM_BUFFER_SIZE \<and> 25 < length (write_buffers (al_output msg l)) \<longrightarrow>
       out_text msg l = [] \<and> lost_counter (al_output msg l) = lost_counter l + 1) \<and>
    (length msg \<le> MEM_BUFFER_SIZE \<and> length (write_buffers (al_output msg l)) \<le> 25 \<longrightarrow>
       out_text msg l = (if lost_counter l = 0 then msg
         else int_text (sint (lost_counter l)) @ '' log information is lost'' @ [CHR 0x0A] @ msg) \<and>
       lost_counter (al_output msg l) = 0)"
proof (cases "length msg \<le> MEM_BUFFER_SIZE")
  case False
  with al_output_ok(3) [OF assms, of msg] show ?thesis by (simp add: al_output_def)
next
  case True
  from al_output_rotate [OF assms True] obtain b l' where "al_output msg l =
       (if 25 < length (write_buffers l') then l'\<lparr>log_buffer := Some b, lost_counter := lost_counter l + 1\<rparr>
        else l'\<lparr>log_buffer := Some (sb_append (if 0 < lost_counter l then sb_append b (lost_text (lost_counter l))
               else b) msg), lost_counter := 0\<rparr>)" by blast
  then have "lost_counter (al_output msg l) =
      (if 25 < length (write_buffers (al_output msg l)) then lost_counter l + 1 else 0)"
    by simp
  moreover have "0 < lost_counter l \<longleftrightarrow> lost_counter l \<noteq> 0"
    by (simp add: word_gt_0)
  ultimately show ?thesis
    using True al_output_ok(3) [OF assms, of msg] by (simp add: out_text_def lost_text_def)
qed

theorem output_accounting_witness:
  "lost_counter (al_output ''x'' (al_new False)) = 0 \<and> log_text (al_output ''x'' (al_new False)) = ''x''"
proof -
  have i: "log_inv (al_new False)"
    using al_new_inv [of False undefined] by (simp add: al_inv_def al_start_def)
  have w: "length (write_buffers (al_output ''x'' (al_new False))) = 0"
    by (simp add: al_output_def al_new_def sb_new_def MEM_BUFFER_SIZE_def Let_def)
  show ?thesis
    using output_accounting [OF i, of "''x''"] w
    by (simp add: MEM_BUFFER_SIZE_def al_new_def log_text_def)
qed

lemma new_name_ne:
  assumes "lf_full_name lf = lf_path lf @ lf_base lf @ lf_ext lf"
  shows "lf_new_name lf w \<noteq> lf_full_name lf"
proof
  assume "lf_new_name lf w = lf_full_name lf"
  then have "length (lf_new_name lf w) = length (lf_path lf @ lf_base lf @ lf_ext lf)"
    using assms by simp
  then show False by (simp add: lf_new_name_def Let_def)
qed

definition sample_file :: logger_file where
  "sample_file = \<lparr>lf_fp = True, lf_create_date = 0, lf_full_name = ''./w.log'', lf_path = ''./'',
     lf_base = ''w'', lf_ext = ''.log''\<rparr>"

text \<open>Writing a buffer to an open log file appends it and, once the file is longer than the
  limit, moves the file to its dated, numbered name, takes the next sequence number and starts
  over; a file that could not be opened swallows the text and is never opened again.\<close>

theorem write_log_rolls:
  assumes "the_file l = Some lf" and "files w (lf_full_name lf) = Some old"
    and "lf_full_name lf = lf_path lf @ lf_base lf @ lf_ext lf"
  shows "al_write_log_to_file can_open now buf l w =
    (if \<not> lf_fp lf then (l, w)
     else if size_limit l < length (old @ buf)
     then (l\<lparr>the_file := None\<rparr>,
           \<lparr>files = (files w)(lf_full_name lf := None, lf_new_name lf w \<mapsto> old @ buf), file_seq = file_seq w + 1\<rparr>)
     else (l, w\<lparr>files := (files w)(lf_full_name lf \<mapsto> old @ buf)\<rparr>))"
proof -
  have "lf_new_name lf (w\<lparr>files := f\<rparr>) = lf_new_name lf w" for f
    by (simp add: lf_new_name_def)
  then show ?thesis
    using assms(1,2) new_name_ne [OF assms(3), of w]
    by (simp add: al_write_log_to_file_def lf_write_log_def lf_get_length_def lf_close_def rename_file_def)
qed

theorem write_log_rolls_witness:
  "\<exists>l w. al_write_log_to_file (\<lambda>n. True) 0 ''abc'' ((al_new False)\<lparr>size_limit := 2, the_file := Some sample_file\<rparr>)
      \<lparr>files = [''./w.log'' \<mapsto> []], file_seq = 0\<rparr> = (l, w) \<and>
    the_file l = None \<and> file_seq w = 1 \<and> files w (lf_new_name sample_file \<lparr>files = [''./w.log'' \<mapsto> []], file_seq = 0\<rparr>) = Some ''abc''"
  using write_log_rolls [of "(al_new False)\<lparr>size_limit := 2, the_file := Some sample_file\<rparr>" sample_file
      "\<lparr>files = [''./w.log'' \<mapsto> []], file_seq = 0\<rparr>" "[]" "\<lambda>n. True" 0 "''abc''"]
  by (simp add: sample_file_def)

text \<open>C32: The log thread ends. Once the stop flag is set, whatever else happens, it takes a
  number of further steps that is bounded by what is queued, at most 85, and by three more for
  every \<open>Output\<close> or \<open>Flush\<close> called meanwhile, for each of these may queue a buffer while it
  writes; so only producers that never stop can keep it from ending. And until it has returned
  it can always take a step, if it was started.\<close>

theorem log_thread_stops:
  assumes "run (al_step can_open) (al_ready g base ext path limit w) before s" and "stop_flag (lg s)"
    and "run (al_step can_open) s as t"
  shows "length (filter thread_act as) + steps_left t \<le> steps_left s + 3 * length (filter queues as) \<and>
    steps_left s \<le> 3 * 27 + 4 \<and>
    (pc t = LIdle \<or> pc t = LExit \<or> (\<exists>a u. thread_act a \<and> al_step can_open t a u))"
proof -
  have i: "al_inv s" using assms(1) al_ready_inv by (rule al.run_inv)
  have "steps_left s \<le> 3 * 27 + 4"
    using i by (cases "pc s") (auto simp: al_inv_def queue_bound_def steps_left_def Let_def)
  moreover have "al_inv t" using assms(3) i by (rule al.run_inv)
  ultimately show ?thesis
    using als.run_cost [OF assms(3)] i assms(2) thread_can_step [of t can_open] by (auto simp: sum_list_filter)
qed

theorem log_thread_stops_witness:
  "\<exists>s t. run (al_step (\<lambda>n. True)) (al_ready True ''w'' ''.log'' ''./'' 9 \<lparr>files = Map.empty, file_seq = 0\<rparr>) [StartLogging] s \<and>
    run (al_step (\<lambda>n. True)) s [Output ''a'' ''a'', TestStop] t \<and> 1 + steps_left t \<le> steps_left s + 3 \<and> pc t = LExit"
proof -
  let ?r = "run (al_step (\<lambda>n. True))" and ?i = "al_ready True ''w'' ''.log'' ''./'' 9 \<lparr>files = Map.empty, file_seq = 0\<rparr>"
  obtain s t where r: "?r ?i [StartLogging] s" "?r s [Output ''a'' ''a'', TestStop] t" "stop_flag (lg s)" "pc t = LExit"
    by (simp add: step_simps al_ready_def set_file_size_limit_def set_file_name_def al_new_def out_text_def al_output_def
        MEM_BUFFER_SIZE_def sb_new_def Let_def)
  have "filter thread_act [Output ''a'' ''a'', TestStop] = [TestStop]" "filter queues [Output ''a'' ''a'', TestStop] = [Output ''a'' ''a'']"
    by (simp_all add: thread_act_def queues_def)
  then have "1 + steps_left t \<le> steps_left s + 3"
    using log_thread_stops [OF r(1,3,2)] by simp
  with r(1,2,4) show ?thesis by blast
qed

end
