(* ===== verification/Log_Files.thy ===== *)
theory Log_Files
  imports Async_Logger
begin

text \<open>
  The files an \<open>AsyncFileLogger\<close> leaves: the current one, and those \<open>LoggerFile\<close> renamed when
  they passed the limit, whose names carry a sequence number. Together, in the order of these
  numbers, they hold what the log thread wrote.
\<close>

definition rolled_name :: "string \<Rightarrow> string \<Rightarrow> string \<Rightarrow> string \<Rightarrow> nat \<Rightarrow> string" where
  "rolled_name path base ext date_text k = path @ base @ ''.'' @ date_text @ (''.'' @ pad0 6 k) @ ext"

definition contents_of :: "file_world \<Rightarrow> string \<Rightarrow> string" where
  "contents_of w name = (case files w name of None \<Rightarrow> [] | Some c \<Rightarrow> c)"

definition log_name :: "async_logger \<Rightarrow> string" where
  "log_name l = file_path l @ file_base_name l @ file_ext_name l"

text \<open>The files renamed so far, in order, and the open file.\<close>

definition rolled_ok :: "async_logger \<Rightarrow> file_world \<Rightarrow> (string \<times> string) list \<Rightarrow> bool" where
  "rolled_ok l w rolled \<longleftrightarrow> length rolled < 1000000 \<and> file_seq w = of_nat (length rolled) \<and>
     (\<forall>i < length rolled. (\<exists>d. fst (rolled ! i) = rolled_name (file_path l) (file_base_name l) (file_ext_name l) d i) \<and>
        files w (fst (rolled ! i)) = Some (snd (rolled ! i)))"

text \<open>An open file of this logger.\<close>

definition own_file :: "async_logger \<Rightarrow> logger_file \<Rightarrow> bool" where
  "own_file l lf \<longleftrightarrow> lf_fp lf \<and> lf_full_name lf = log_name l \<and> lf_path lf = file_path l \<and> lf_base lf = file_base_name l \<and>
     lf_ext lf = file_ext_name l"

definition file_ok :: "async_logger \<Rightarrow> file_world \<Rightarrow> bool" where
  "file_ok l w \<longleftrightarrow> (case the_file l of None \<Rightarrow> True | Some lf \<Rightarrow> own_file l lf \<and> files w (log_name l) \<noteq> None)"

text \<open>These depend on the configured names only.\<close>

definition same_names :: "async_logger \<Rightarrow> async_logger \<Rightarrow> bool" where
  "same_names l l' \<longleftrightarrow> file_path l' = file_path l \<and> file_base_name l' = file_base_name l \<and> file_ext_name l' = file_ext_name l"

lemma same_namesD:
  "same_names l l' \<Longrightarrow> log_name l' = log_name l" "same_names l l' \<Longrightarrow> own_file l' lf = own_file l lf"
  "same_names l l' \<Longrightarrow> rolled_ok l' w rolled = rolled_ok l w rolled"
  by (simp_all add: same_names_def log_name_def own_file_def rolled_ok_def)

lemma same_names_updates [simp]:
  "same_names l l" "same_names l (l\<lparr>the_file := f\<rparr>)" "same_names l (l\<lparr>write_buffers := bs\<rparr>)"
  by (simp_all add: same_names_def)

lemma rolled_name_length:
  "k < 1000000 \<Longrightarrow> length (rolled_name path base ext d k) = length path + length base + length ext + length d + 8"
  by (simp add: rolled_name_def length_pad0)

lemma rolled_name_eq:
  assumes "i < 1000000" and "j < 1000000" and "rolled_name path base ext d i = rolled_name path base ext e j"
  shows "i = j"
proof -
  have "length d = length e"
    using arg_cong [OF assms(3), of length] assms(1,2) by (simp add: rolled_name_length)
  with assms(3) show ?thesis by (simp add: rolled_name_def pad0_inject)
qed

lemma rolled_name_ne: "k < 1000000 \<Longrightarrow> rolled_name path base ext d k \<noteq> path @ base @ ext"
  using rolled_name_length [of k path base ext d] by (auto dest: arg_cong [where f = length])

text \<open>Closing the open file renames it: it becomes the last of the renamed files.\<close>

lemma close_rolled:
  assumes "rolled_ok l w rolled" and "own_file l lf" and "files w (log_name l) = Some c" and "length rolled + 1 < 1000000"
  obtains new where "rolled_ok l (lf_close lf w) (rolled @ [(new, c)])" "files (lf_close lf w) (log_name l) = None"
proof -
  let ?new = "lf_new_name lf w"
  have k: "length rolled < 1000000" "file_seq w = of_nat (length rolled)" using assms(1) by (simp_all add: rolled_ok_def)
  have r: "\<exists>d. fst (rolled ! i) = rolled_name (file_path l) (file_base_name l) (file_ext_name l) d i"
    "files w (fst (rolled ! i)) = Some (snd (rolled ! i))" if "i < length rolled" for i
    using assms(1) that by (simp_all add: rolled_ok_def)
  have ne: "fst (rolled ! i) \<noteq> log_name l" if "i < length rolled" for i
    using r(1) [OF that] rolled_name_ne [of i, symmetric] that k(1) by (auto simp: log_name_def)
  have "unat (file_seq w mod 1000000) = length rolled"
    using k by (simp add: unat_mod unat_of_nat)
  then obtain d where d: "?new = rolled_name (file_path l) (file_base_name l) (file_ext_name l) d (length rolled)"
    using assms(2) by (auto simp: own_file_def lf_new_name_def Let_def rolled_name_def)
  then have nn: "?new \<noteq> log_name l" using rolled_name_ne [OF k(1)] by (simp add: log_name_def)
  have old: "fst (rolled ! i) \<noteq> ?new" if "i < length rolled" for i
  proof
    assume "fst (rolled ! i) = ?new"
    with r(1) [OF that] d obtain e where "rolled_name (file_path l) (file_base_name l) (file_ext_name l) e i =
        rolled_name (file_path l) (file_base_name l) (file_ext_name l) d (length rolled)" by metis
    then have "i = length rolled" by (rule rolled_name_eq [rotated 2]) (use that k(1) in simp_all)
    with that show False by simp
  qed
  have e: "lf_close lf w = w\<lparr>files := (files w)(log_name l := None, ?new \<mapsto> c), file_seq := file_seq w + 1\<rparr>"
    using assms(2,3) by (simp add: own_file_def lf_close_def rename_file_def)
  have "rolled_ok l (lf_close lf w) (rolled @ [(?new, c)])"
    using assms(4) k r ne d old by (auto simp: rolled_ok_def e nth_append less_Suc_eq)
  moreover have "files (lf_close lf w) (log_name l) = None" using nn by (simp add: e)
  ultimately show ?thesis by (rule that)
qed

text \<open>One write, to the open file or to one opened for it, with the rolling over.\<close>

definition written_to :: "logger_file \<Rightarrow> string \<Rightarrow> async_logger \<Rightarrow> file_world \<Rightarrow> async_logger \<times> file_world" where
  "written_to lf c l w =
     (let v = w\<lparr>files := (files w)(log_name l \<mapsto> c)\<rparr> in
      if size_limit l < length c then (l\<lparr>the_file := None\<rparr>, lf_close lf v) else (l\<lparr>the_file := Some lf\<rparr>, v))"

lemma write_open:
  assumes "file_ok l w" and "the_file l = Some lf"
  shows "al_write_log_to_file can_open now buf l w = written_to lf (contents_of w (log_name l) @ buf) l w"
  using assms by (auto simp: file_ok_def own_file_def al_write_log_to_file_def lf_write_log_def lf_get_length_def
      contents_of_def written_to_def)

lemma write_log_E:
  assumes "file_ok l w" and "can_open (log_name l)"
  obtains lf where "own_file l lf"
    "al_write_log_to_file can_open now buf l w = written_to lf (contents_of w (log_name l) @ buf) l w"
proof (cases "the_file l")
  case None
  obtain lf w0 where o: "lf_open can_open now (file_path l) (file_base_name l) (file_ext_name l) w = (lf, w0)" by fastforce
  have lf: "own_file l lf" "w0 = (if files w (log_name l) = None then w\<lparr>files := (files w)(log_name l \<mapsto> [])\<rparr> else w)"
    using o assms(2) by (auto simp: lf_open_def own_file_def log_name_def Let_def)
  let ?l = "l\<lparr>the_file := Some lf\<rparr>"
  have "al_write_log_to_file can_open now buf l w = al_write_log_to_file can_open now buf ?l w0"
    using None o by (simp add: al_write_log_to_file_def Let_def)
  also have "\<dots> = written_to lf (contents_of w0 (log_name ?l) @ buf) ?l w0"
    by (rule write_open) (use lf in \<open>simp_all add: file_ok_def own_file_def log_name_def\<close>)
  also have "\<dots> = written_to lf (contents_of w (log_name l) @ buf) l w"
    by (auto simp: written_to_def log_name_def contents_of_def lf(2) Let_def)
  finally show ?thesis using that lf by blast
next
  case (Some lf)
  with assms(1) show ?thesis by (intro that [OF _ write_open [OF assms(1) Some]]) (simp add: file_ok_def)
qed

lemma write_rolled:
  assumes "rolled_ok l w rolled" and "file_ok l w" and "can_open (log_name l)" and "length rolled + 1 < 1000000"
    and "al_write_log_to_file can_open now buf l w = (l', w')"
  obtains more where "rolled_ok l' w' (rolled @ more)" "file_ok l' w'" "same_names l l'" "length more \<le> 1"
    "concat (map snd (rolled @ more)) @ contents_of w' (log_name l) =
       concat (map snd rolled) @ contents_of w (log_name l) @ buf"
proof -
  let ?c = "contents_of w (log_name l) @ buf" and ?v = "w\<lparr>files := (files w)(log_name l \<mapsto> contents_of w (log_name l) @ buf)\<rparr>"
  obtain lf where lf: "own_file l lf" "al_write_log_to_file can_open now buf l w = written_to lf ?c l w"
    by (rule write_log_E [OF assms(2), of can_open now buf]) (rule assms(3))
  with assms(5) have w: "(l', w') = written_to lf ?c l w" by simp
  have "fst (rolled ! i) \<noteq> log_name l" if "i < length rolled" for i
    using assms(1) that rolled_name_ne [of i] by (force simp: rolled_ok_def log_name_def)
  then have v: "rolled_ok l ?v rolled" using assms(1) by (auto simp: rolled_ok_def)
  show ?thesis
  proof (cases "size_limit l < length ?c")
    case False
    with w have e: "l' = l\<lparr>the_file := Some lf\<rparr>" "w' = ?v" by (simp_all add: written_to_def Let_def)
    have "rolled_ok l' w' rolled" using v same_namesD(3) [of l l'] by (simp add: e)
    moreover have "file_ok l' w'" using lf(1) same_namesD(1,2) [of l l'] by (simp add: file_ok_def e)
    ultimately show ?thesis using that [of "[]"] by (simp add: e contents_of_def)
  next
    case True
    with w have e: "l' = l\<lparr>the_file := None\<rparr>" "w' = lf_close lf ?v" by (simp_all add: written_to_def Let_def)
    obtain new where "rolled_ok l w' (rolled @ [(new, ?c)])" "files w' (log_name l) = None"
      unfolding e(2) by (rule close_rolled [OF v lf(1) _ assms(4), of ?c]) simp
    moreover have "file_ok l' w'" by (simp add: file_ok_def e)
    ultimately show ?thesis
      using that [of "[(new, ?c)]"] same_namesD(3) [of l l'] by (simp add: e(1) contents_of_def)
  qed
qed

text \<open>All other steps leave the files alone.\<close>

definition is_write :: "al_act \<Rightarrow> bool" where
  "is_write a = (case a of WriteFile now tx \<Rightarrow> True | _ \<Rightarrow> False)"

definition same_files :: "al_sys \<Rightarrow> al_sys \<Rightarrow> bool" where
  "same_files s t \<longleftrightarrow> world t = world s \<and> the_file (lg t) = the_file (lg s) \<and> same_names (lg s) (lg t)"

lemma al_output_files:
  "the_file (al_output msg l) = the_file l" "file_path (al_output msg l) = file_path l"
  "file_base_name (al_output msg l) = file_base_name l" "file_ext_name (al_output msg l) = file_ext_name l"
  by (simp_all add: al_output_def Let_def split: option.split)

lemma al_flush_files:
  assumes "al_flush l = Inr l'"
  shows "the_file l' = the_file l" "file_path l' = file_path l" "file_base_name l' = file_base_name l"
    "file_ext_name l' = file_ext_name l" "lost_counter l' = lost_counter l"
  using assms by (auto simp: al_flush_def al_swap_buffer_def Let_def split: option.splits if_splits)

lemma al_step_files:
  assumes "al_step can_open s a t" and "\<not> is_write a"
  shows "same_files s t"
  using assms by (cases rule: al_step.cases)
    (auto simp: is_write_def same_files_def same_names_def al_output_files al_swap_queues_def dest: al_flush_files)

text \<open>So in any run the files hold what was there and then what was written, in order.\<close>

definition log_files :: "al_sys \<Rightarrow> (string \<times> string) list \<Rightarrow> string" where
  "log_files s rolled = concat (map snd rolled) @ contents_of (world s) (log_name (lg s))"

lemma run_files:
  assumes "run (al_step can_open) s as t" and "rolled_ok (lg s) (world s) rolled" and "file_ok (lg s) (world s)"
    and "can_open (log_name (lg s))" and "length rolled + length (filter is_write as) < 1000000"
  shows "\<exists>rolled'. rolled_ok (lg t) (world t) rolled' \<and> file_ok (lg t) (world t) \<and> log_name (lg t) = log_name (lg s) \<and>
    length rolled' \<le> length rolled + length (filter is_write as) \<and>
    log_files t rolled' = log_files s rolled @ concat (map written as)"
  using assms
proof (induction arbitrary: rolled rule: run.induct)
  case (run_cons s a t as u)
  show ?case
  proof (cases "is_write a")
    case True
    then obtain d tx where a: "a = WriteFile d tx" by (auto simp: is_write_def split: al_act.splits)
    with run_cons.hyps(1) have w: "al_write_log_to_file can_open d tx (lg s) (world s) = (lg t, world t)"
      by (auto simp: step_simps split: log_pc.splits prod.splits)
    obtain more where m: "rolled_ok (lg t) (world t) (rolled @ more)" "file_ok (lg t) (world t)" "same_names (lg s) (lg t)"
      "length more \<le> 1" "concat (map snd (rolled @ more)) @ contents_of (world t) (log_name (lg s)) =
        concat (map snd rolled) @ contents_of (world s) (log_name (lg s)) @ tx"
      by (rule write_rolled [OF run_cons.prems(1-3) _ w]) (use run_cons.prems(4) True in simp_all)
    note n = same_namesD(1) [OF m(3)]
    from run_cons.IH [OF m(1,2)] run_cons.prems(3,4) True m(4) n obtain rolled' where
      "rolled_ok (lg u) (world u) rolled'" "file_ok (lg u) (world u)" "log_name (lg u) = log_name (lg t)"
      "length rolled' \<le> length (rolled @ more) + length (filter is_write as)"
      "log_files u rolled' = log_files t (rolled @ more) @ concat (map written as)" by auto
    with m(4,5) True a n show ?thesis by (intro exI [of _ rolled']) (simp add: log_files_def)
  next
    case False
    then have w: "written a = []" by (cases a) (simp_all add: is_write_def)
    have f: "same_files s t" by (rule al_step_files [OF run_cons.hyps(1) False])
    then have n: "same_names (lg s) (lg t)" "world t = world s" "the_file (lg t) = the_file (lg s)"
      by (simp_all add: same_files_def)
    note sn = same_namesD [OF n(1)]
    have "rolled_ok (lg t) (world t) rolled" "file_ok (lg t) (world t)" "log_files t rolled = log_files s rolled"
      using run_cons.prems(1,2) n sn by (auto simp: file_ok_def log_files_def split: option.splits)
    with run_cons.IH [of rolled] run_cons.prems sn(1) False w show ?thesis by simp
  qed
qed auto

text \<open>If \<open>fopen\<close> fails, nothing ever reaches a file.\<close>

definition no_file :: "async_logger \<Rightarrow> bool" where
  "no_file l \<longleftrightarrow> (case the_file l of None \<Rightarrow> True | Some lf \<Rightarrow> \<not> lf_fp lf)"

lemma write_no_file:
  assumes "no_file l" and "\<not> can_open (log_name l)" and "al_write_log_to_file can_open now buf l w = (l', w')"
  shows "no_file l'" "w' = w" "same_names l l'"
  using assms
  by (auto simp: no_file_def al_write_log_to_file_def lf_open_def lf_write_log_def lf_get_length_def log_name_def Let_def
      split: option.splits if_splits)

lemma run_no_file:
  "run (al_step can_open) s as t \<Longrightarrow> no_file (lg s) \<Longrightarrow> \<not> can_open (log_name (lg s)) \<Longrightarrow>
   world t = world s \<and> no_file (lg t) \<and> log_name (lg t) = log_name (lg s)"
proof (induction rule: run.induct)
  case (run_cons s a t as u)
  have "world t = world s \<and> no_file (lg t) \<and> log_name (lg t) = log_name (lg s)"
  proof (cases "is_write a")
    case True
    then obtain d tx where "a = WriteFile d tx" by (auto simp: is_write_def split: al_act.splits)
    with run_cons.hyps(1) have w: "al_write_log_to_file can_open d tx (lg s) (world s) = (lg t, world t)"
      by (auto simp: step_simps split: log_pc.splits prod.splits)
    show ?thesis using write_no_file [OF run_cons.prems w] same_namesD(1) by simp
  next
    case False
    with al_step_files [OF run_cons.hyps(1)] run_cons.prems(1) same_namesD(1) show ?thesis
      by (auto simp: same_files_def no_file_def)
  qed
  with run_cons.IH run_cons.prems show ?case by simp
qed simp

text \<open>What the destructor adds, and the file it leaves renamed.\<close>

lemma destroy_files:
  assumes "rolled_ok l w rolled" and "file_ok l w" and "can_open (log_name l)" and "length rolled + 2 < 1000000"
    and "al_destroy can_open now l w = Inr (out, l', w')"
  obtains rolled' where "rolled_ok l' w' rolled'"
    "concat (map snd rolled') @ contents_of w' (log_name l) = concat (map snd rolled) @ contents_of w (log_name l) @ out"
proof -
  obtain l1 w1 rolled1 where m: "rolled_ok l1 w1 rolled1" "file_ok l1 w1" "same_names l l1" "length rolled1 \<le> length rolled + 1"
    "l' = l1\<lparr>the_file := None\<rparr>" "w' = (case the_file l1 of Some lf \<Rightarrow> lf_close lf w1 | None \<Rightarrow> w1)"
    "concat (map snd rolled1) @ contents_of w1 (log_name l) = concat (map snd rolled) @ contents_of w (log_name l) @ out"
  proof -
    obtain b where b: "log_buffer l = Some b" using assms(5) by (auto simp: al_destroy_def split: option.splits)
    define bs where "bs = (if sb_text b \<noteq> [] then write_buffers l @ [b] else write_buffers l)"
    show ?thesis
    proof (cases bs)
      case Nil
      with assms(5) b have "out = []" "l' = l\<lparr>the_file := None\<rparr>" "w' = (case the_file l of Some lf \<Rightarrow> lf_close lf w | None \<Rightarrow> w)"
        by (auto simp: al_destroy_def bs_def split: if_splits)
      with assms(1,2) show ?thesis by (intro that [of l w rolled]) simp_all
    next
      case (Cons f fs)
      let ?l = "l\<lparr>write_buffers := fs\<rparr>"
      obtain l1 w1 where w1: "al_write_log_to_file can_open now (sb_text f) ?l w = (l1, w1)" by fastforce
      with Cons assms(5) b have d: "out = sb_text f" "l' = l1\<lparr>the_file := None\<rparr>"
        "w' = (case the_file l1 of Some lf \<Rightarrow> lf_close lf w1 | None \<Rightarrow> w1)"
        by (auto simp: al_destroy_def bs_def Let_def split: if_splits)
      note sn = same_namesD [of l ?l, OF same_names_updates(3)]
      have "rolled_ok ?l w rolled" "file_ok ?l w" "can_open (log_name ?l)" "length rolled + 1 < 1000000"
        using assms(1-4) sn by (simp_all add: file_ok_def split: option.splits)
      then obtain more where "rolled_ok l1 w1 (rolled @ more)" "file_ok l1 w1" "same_names ?l l1" "length more \<le> 1"
        "concat (map snd (rolled @ more)) @ contents_of w1 (log_name ?l) =
          concat (map snd rolled) @ contents_of w (log_name ?l) @ sb_text f"
        by (rule write_rolled [OF _ _ _ _ w1])
      with d sn(1) show ?thesis by (intro that [of l1 w1 "rolled @ more"]) (simp_all add: same_names_def)
    qed
  qed
  note n = same_namesD(1) [OF m(3)]
  show ?thesis
  proof (cases "the_file l1")
    case None
    with m same_namesD(3) [of l1 l'] n show ?thesis by (intro that [of rolled1]) simp_all
  next
    case (Some lf)
    with m(2) obtain c where c: "own_file l1 lf" "files w1 (log_name l1) = Some c" by (auto simp: file_ok_def)
    obtain new where "rolled_ok l1 (lf_close lf w1) (rolled1 @ [(new, c)])" "files (lf_close lf w1) (log_name l1) = None"
      by (rule close_rolled [OF m(1) c]) (use m(4) assms(4) in simp_all)
    with m(5-7) Some c(2) n same_namesD(3) [of l1 l'] show ?thesis
      by (intro that [of "rolled1 @ [(new, c)]"]) (simp_all add: contents_of_def)
  qed
qed

section \<open>From the start\<close>

lemma ready_files:
  assumes "file_seq w = 0"
  shows "rolled_ok (lg (al_ready g base ext path limit w)) w []" "file_ok (lg (al_ready g base ext path limit w)) w"
    "no_file (lg (al_ready g base ext path limit w))" "world (al_ready g base ext path limit w) = w"
  using assms
  by (simp_all add: rolled_ok_def file_ok_def no_file_def al_ready_def set_file_size_limit_def set_file_name_def al_new_def Let_def)

lemma ready_run_files:
  assumes "run (al_step can_open) (al_ready g base ext path limit w) as s" and "file_seq w = 0"
    and "can_open (log_name (lg (al_ready g base ext path limit w)))" and "length (filter is_write as) < 1000000"
  obtains rolled where "rolled_ok (lg s) (world s) rolled" "file_ok (lg s) (world s)"
    "log_name (lg s) = log_name (lg (al_ready g base ext path limit w))" "length rolled \<le> length (filter is_write as)"
    "log_files s rolled = contents_of w (log_name (lg (al_ready g base ext path limit w))) @ concat (map written as)"
  using run_files [OF assms(1), of "[]"] ready_files [OF assms(2), where g = g and base = base and ext = ext and path = path and limit = limit]
    assms(3,4)
  by (auto simp: log_files_def)

section \<open>Properties\<close>

text \<open>C10: Whatever the interleaving of producers, flushes, timeouts, stop and log thread, no
  accepted text is lost or duplicated before the destructor: what the thread took to write and
  what is still held make up exactly what was accepted, and never more than 27 + 26 buffers
  wait. If the log file can be opened, what the thread took is in the files, in that order: the
  renamed files in the order of their numbers and then the current one hold what the file held
  before and this text. If it cannot be opened, no file changes, so all of it is gone. (From a
  sequence number 0, and for fewer than a million writes, after which names repeat.)\<close>

theorem log_text_conserved:
  assumes "run (al_step can_open) (al_ready g base ext path limit w) as s" and "file_seq w = 0"
    and "length (filter is_write as) < 1000000" and "name = log_name (lg (al_ready g base ext path limit w))"
  shows "mset (concat (map written as)) + mset (al_line s) = mset (concat (map entered as)) \<and>
    length (write_buffers (lg s)) \<le> 27 \<and> length (tmp_buffers (lg s)) \<le> 26 \<and>
    (can_open name \<longrightarrow> (\<exists>rolled. rolled_ok (lg s) (world s) rolled \<and>
       concat (map snd rolled) @ contents_of (world s) name = contents_of w name @ concat (map written as) \<and>
       mset (concat (map snd rolled) @ contents_of (world s) name) + mset (al_line s) =
         mset (contents_of w name) + mset (concat (map entered as)))) \<and>
    (\<not> can_open name \<longrightarrow> world s = w)"
proof -
  have m: "sum_list (map (\<lambda>a. mset (f a)) as) = mset (concat (map f as))" for f :: "al_act \<Rightarrow> string"
    by (induction as) auto
  have "al_inv s" using assms(1) al_ready_inv by (rule al.run_inv)
  then have "length (write_buffers (lg s)) \<le> 27 \<and> length (tmp_buffers (lg s)) \<le> 26"
    by (auto simp: al_inv_def queue_bound_def Let_def split: if_splits)
  moreover have e: "mset (concat (map written as)) + mset (al_line s) = mset (concat (map entered as))"
    using al.run_balance [OF assms(1) al_ready_inv] by (simp add: m add.commute)
  moreover have "\<exists>rolled. rolled_ok (lg s) (world s) rolled \<and>
      concat (map snd rolled) @ contents_of (world s) name = contents_of w name @ concat (map written as) \<and>
      mset (concat (map snd rolled) @ contents_of (world s) name) + mset (al_line s) =
        mset (contents_of w name) + mset (concat (map entered as))" if op: "can_open name"
  proof -
    obtain rolled where "rolled_ok (lg s) (world s) rolled" "log_name (lg s) = name"
      "log_files s rolled = contents_of w name @ concat (map written as)"
      by (rule ready_run_files [OF assms(1,2) _ assms(3)]) (use op assms(4) in auto)
    with e show ?thesis by (intro exI [of _ rolled]) (simp add: log_files_def add.assoc)
  qed
  moreover have "world s = w" if "\<not> can_open name"
    using run_no_file [OF assms(1)] ready_files(3,4) [OF assms(2)] that assms(4) by metis
  ultimately show ?thesis by blast
qed

definition demo_world0 :: file_world where
  "demo_world0 = \<lparr>files = [''./w.log'' \<mapsto> ''old''], file_seq = 0\<rparr>"

definition demo_ready :: al_sys where
  "demo_ready = al_ready False ''w'' ''.log'' ''./'' 100 demo_world0"

lemmas demo_simps = step_simps quiet_step_def overtakes_def demo_ready_def demo_world0_def al_ready_def set_file_size_limit_def
  set_file_name_def al_new_def out_text_def al_output_def MEM_BUFFER_SIZE_def sb_new_def sb_append_def Let_def al_flush_def
  al_swap_buffer_def al_swap_queues_def sb_clear_def al_write_log_to_file_def lf_open_def lf_write_log_def lf_get_length_def
  log_name_def log_text_def al_line_def contents_of_def is_write_def

text \<open>One line, collected after a timeout, and written a round later.\<close>

definition write_run :: "al_act list" where
  "write_run = [StartLogging, TestStop, TestEmpty, Output ''a'' ''a'', Timeout, Drained, TestStop, TestEmpty, Timeout,
     TakeFront ''a'', WriteFile 0 ''a'']"

theorem log_text_conserved_witness:
  "\<exists>s rolled. run (al_step (\<lambda>n. True)) demo_ready write_run s \<and> rolled_ok (lg s) (world s) rolled \<and>
     concat (map snd rolled) @ contents_of (world s) ''./w.log'' = ''olda''"
proof -
  obtain s where s: "run (al_step (\<lambda>n. True)) demo_ready write_run s"
    by (simp add: write_run_def demo_simps)
  have "log_name (lg demo_ready) = ''./w.log''" "contents_of demo_world0 ''./w.log'' = ''old''"
    "concat (map written write_run) = ''a''" "length (filter is_write write_run) < 1000000" "file_seq demo_world0 = 0"
    by (simp_all add: write_run_def demo_simps)
  with s log_text_conserved [OF s [unfolded demo_ready_def], of "''./w.log''"] show ?thesis
    by (auto simp: demo_ready_def)
qed

text \<open>C30: The destructor, after a run in which nobody queued a buffer while the thread was
  writing: the text comes out in the order it was accepted up to the stop, but of what is then
  still held the destructor writes one buffer only; what the thread had collected for its next
  round and all later buffers are lost. The renamed files, of which the open one becomes the
  last, and a current one that was never opened then hold exactly what the file held before,
  what the thread wrote and this one buffer. (If the log file can be opened, from a sequence number 0, fewer than a million
  writes.)\<close>

theorem destructor_loses_buffers:
  assumes "run (quiet_step can_open) (al_ready g base ext path limit w) as s" and "pc s = LExit"
    and "al_destroy can_open now (lg s) (world s) = Inr (out, l, w')" and "file_seq w = 0"
    and "length (filter is_write as) + 2 < 1000000" and "name = log_name (lg (al_ready g base ext path limit w))"
    and "can_open name"
  shows "\<exists>lost rolled. concat (map entered as) =
      concat (map written as) @ texts (tmp_buffers (lg s)) @ out @ lost \<and>
    texts (write_buffers (lg s)) @ log_text (lg s) = out @ lost \<and>
    (write_buffers (lg s) \<noteq> [] \<longrightarrow> out = sb_text (hd (write_buffers (lg s)))) \<and>
    (write_buffers (lg s) = [] \<longrightarrow> lost = []) \<and>
    rolled_ok l w' rolled \<and>
    concat (map snd rolled) @ contents_of w' name = contents_of w name @ concat (map written as) @ out"
proof -
  have q: "run (al_step can_open) (al_ready g base ext path limit w) as s"
    using assms(1) by (rule run_mono) (simp add: quiet_step_def)
  obtain rolled where r: "rolled_ok (lg s) (world s) rolled" "file_ok (lg s) (world s)" "log_name (lg s) = name"
    "length rolled \<le> length (filter is_write as)" "log_files s rolled = contents_of w name @ concat (map written as)"
    by (rule ready_run_files [OF q assms(4)]) (use assms(5-7) in auto)
  obtain rolled' where r': "rolled_ok l w' rolled'"
    "concat (map snd rolled') @ contents_of w' (log_name (lg s)) =
       concat (map snd rolled) @ contents_of (world s) (log_name (lg s)) @ out"
    by (rule destroy_files [OF r(1,2) _ _ assms(3)]) (use r(3,4) assms(5,7) in simp_all)
  have f: "concat (map snd rolled') @ contents_of w' name = contents_of w name @ concat (map written as) @ out"
    using r' r(3,5) by (simp add: log_files_def flip: append_assoc)
  have e: "concat (map entered as) = concat (map written as) @ texts (tmp_buffers (lg s)) @
      texts (write_buffers (lg s)) @ log_text (lg s)"
    using alq.run_line [OF assms(1) al_ready_inv] assms(2) by (simp add: al_line_def [of s])
  have "al_inv s" using assms(1) al_ready_inv by (rule alq.run_inv)
  then obtain b where b: "log_buffer (lg s) = Some b" "log_text (lg s) = sb_text b"
    by (auto simp: al_inv_def elim: log_inv_E)
  show ?thesis
  proof (cases "write_buffers (lg s)")
    case Nil
    with assms(3) b have "out = log_text (lg s)"
      by (auto simp: al_destroy_def Let_def split: prod.splits if_splits)
    with Nil e r'(1) f show ?thesis by (intro exI [of _ "[]"] exI [of _ rolled']) simp
  next
    case (Cons g gs)
    with assms(3) b have "out = sb_text g"
      by (auto simp: al_destroy_def Let_def split: prod.splits if_splits)
    with Cons e r'(1) f show ?thesis by (intro exI [of _ "texts gs @ log_text (lg s)"] exI [of _ rolled']) simp
  qed
qed

text \<open>The smallest loss: one line, one timeout, stop. Nothing reaches a file.\<close>

definition loss_run :: "al_act list" where
  "loss_run = [StartLogging, TestStop, TestEmpty, Output ''a'' ''a'', Timeout, Drained, SetStop, TestStop]"

theorem destructor_loses_buffers_witness:
  "\<exists>s l w rolled. run (quiet_step (\<lambda>n. True)) demo_ready loss_run s \<and>
     al_destroy (\<lambda>n. True) 0 (lg s) (world s) = Inr ([], l, w) \<and> rolled_ok l w rolled \<and>
     concat (map snd rolled) @ contents_of w ''./w.log'' = ''old'' \<and> concat (map entered loss_run) = ''a''"
proof -
  obtain s l w where s: "run (quiet_step (\<lambda>n. True)) demo_ready loss_run s" "pc s = LExit"
    "al_destroy (\<lambda>n. True) 0 (lg s) (world s) = Inr ([], l, w)"
    by (simp add: loss_run_def al_destroy_def demo_simps)
  have "log_name (lg demo_ready) = ''./w.log''" "contents_of demo_world0 ''./w.log'' = ''old''"
    "concat (map written loss_run) = []" "concat (map entered loss_run) = ''a''" "length (filter is_write loss_run) + 2 < 1000000"
    "file_seq demo_world0 = 0"
    by (simp_all add: loss_run_def demo_simps)
  with s destructor_loses_buffers [OF s(1) [unfolded demo_ready_def] s(2,3), of "''./w.log''"] show ?thesis
    by (auto simp: demo_ready_def)
qed

end
