(* ===== verification/Log_System.thy ===== *)
theory Log_System
  imports Logger_Model Log_Files
begin

text \<open>
  Logging as a whole: the static members of \<open>Logger\<close>, any number of threads that execute log
  statements, each with its thread-local cache, and an \<open>AsyncFileLogger\<close> behind
  \<open>set_output_func\<close>, as \<open>src/tests/test_asyncfilelogger.cc\<close> connects them. A statement builds
  its line without a lock; \<open>~Logger\<close> then calls \<open>output_func_\<close> and, from \<open>ERROR\<close> upwards,
  \<open>flush_func_\<close>, and other threads and the log thread move between the two calls.
\<close>

section \<open>Statements\<close>

text \<open>The functions \<open>output_func_\<close> and \<open>flush_func_\<close> may be: those for \<open>stdout\<close>, or those of the
  \<open>AsyncFileLogger\<close>.\<close>

datatype log_sink = StdSink | FileSink

record log_statics =
  global_level :: log_level
  log_sink :: log_sink

definition statics_init :: log_statics where
  "statics_init = \<lparr>global_level = DEBUG, log_sink = StdSink\<rparr>"

definition set_output_func :: "log_sink \<Rightarrow> log_statics \<Rightarrow> log_statics" where
  [simp]: "set_output_func k st = st\<lparr>log_sink := k\<rparr>"

definition set_log_level :: "log_level \<Rightarrow> log_statics \<Rightarrow> log_statics" where
  [simp]: "set_log_level l st = st\<lparr>global_level := l\<rparr>"

definition default_output_func :: "string \<Rightarrow> string \<Rightarrow> string" where
  [simp]: "default_output_func msg std = std @ msg"

text \<open>A statement: its level, or \<open>None\<close> for \<open>LOG_SYSERR\<close>, its place and what it appends.\<close>

record log_stmt =
  st_level :: "log_level option"
  st_file :: string
  st_line :: "32 word"
  st_func :: string
  st_args :: "item list"

text \<open>What clock, \<open>gettid\<close>, \<open>errno\<close> and the memory of the new \<open>FixedBuffer\<close> hold.\<close>

record log_env =
  now :: date
  tid :: "32 word"
  err_no :: "32 word"
  arr :: string

definition run_stmt ::
  "(32 word \<Rightarrow> string) \<Rightarrow> log_level \<Rightarrow> tls \<Rightarrow> log_env \<Rightarrow> log_stmt \<Rightarrow> ((string \<times> bool) option \<times> tls) res" where
  "run_stmt strerror global t env st =
     (case st_level st of
        Some l \<Rightarrow> log_macro global t (now env) (tid env) (fb_new (arr env)) (st_file st) (st_line st) (st_func st) l (st_args st)
      | None \<Rightarrow> syserr_macro strerror (err_no env) t (now env) (tid env) (fb_new (arr env)) (st_file st) (st_line st) (st_args st))"

text \<open>A thread between statements, before the call of \<open>output_func_\<close>, before \<open>flush_func_\<close>.\<close>

datatype log_todo = TIdle | TOutput string bool | TFlush

record log_thread =
  th_tls :: tls
  th_todo :: log_todo

record log_sys =
  statics :: log_statics
  std_out :: string
  back_end :: al_sys
  threads :: "nat \<Rightarrow> log_thread"

definition set_todo :: "nat \<Rightarrow> log_todo \<Rightarrow> log_sys \<Rightarrow> log_sys" where
  "set_todo i td s = s\<lparr>threads := (threads s)(i := (threads s i)\<lparr>th_todo := td\<rparr>)\<rparr>"

text \<open>\<open>DefaultOutputFunc\<close> and \<open>DefaultFlushFunc\<close>, or \<open>Output\<close> and \<open>Flush\<close>.\<close>

definition call_output :: "string \<Rightarrow> log_sys \<Rightarrow> log_sys" where
  "call_output msg s =
     (case log_sink (statics s) of
        StdSink \<Rightarrow> s\<lparr>std_out := default_output_func msg (std_out s)\<rparr>
      | FileSink \<Rightarrow> s\<lparr>back_end := (back_end s)\<lparr>lg := al_output msg (lg (back_end s))\<rparr>\<rparr>)"

definition call_flush :: "log_sys \<Rightarrow> log_sys res" where
  "call_flush s =
     (case log_sink (statics s) of
        StdSink \<Rightarrow> Inr s
      | FileSink \<Rightarrow> bind_res (al_flush (lg (back_end s))) (\<lambda>l. Inr (s\<lparr>back_end := (back_end s)\<lparr>lg := l\<rparr>\<rparr>)))"

section \<open>The step relation\<close>

text \<open>
  \<open>OutputCall\<close> carries the line and the text that enters the log buffer with it, \<open>None\<close> for
  \<open>stdout\<close>. \<open>BackEnd\<close> is a step of the \<open>AsyncFileLogger\<close> that is not one of these calls.
\<close>

datatype ls_act =
    SetLevel log_level | SetSink log_sink | LogStmt nat log_env log_stmt "string option"
  | OutputCall nat string "string option" | FlushFunc nat log_sink | BackEnd al_act

definition entering :: "string \<Rightarrow> log_sys \<Rightarrow> string option" where
  "entering msg s =
     (case log_sink (statics s) of StdSink \<Rightarrow> None | FileSink \<Rightarrow> Some (out_text msg (lg (back_end s))))"

definition own_act :: "al_act \<Rightarrow> bool" where
  "own_act a = (case a of Output msg txt \<Rightarrow> False | FlushCall \<Rightarrow> False | _ \<Rightarrow> True)"

definition stmt_fits :: "log_env \<Rightarrow> log_stmt \<Rightarrow> bool" where
  "stmt_fits env st \<longleftrightarrow> date_ok (now env) \<and> length (arr env) = kSmallBuffer \<and> list_all item_ok (st_args st)"

inductive log_step :: "(32 word \<Rightarrow> string) \<Rightarrow> (string \<Rightarrow> bool) \<Rightarrow> log_sys \<Rightarrow> ls_act \<Rightarrow> log_sys \<Rightarrow> bool"
  for strerror can_open where
  ls_set_level: "log_step strerror can_open s (SetLevel l) (s\<lparr>statics := set_log_level l (statics s)\<rparr>)"
| ls_set_sink: "log_step strerror can_open s (SetSink k) (s\<lparr>statics := set_output_func k (statics s)\<rparr>)"
| ls_stmt: "th_todo (threads s i) = TIdle \<Longrightarrow> stmt_fits env st \<Longrightarrow>
    run_stmt strerror (global_level (statics s)) (th_tls (threads s i)) env st = Inr (out, t) \<Longrightarrow>
    log_step strerror can_open s (LogStmt i env st (map_option fst out))
      (s\<lparr>threads := (threads s)(i := \<lparr>th_tls = t,
         th_todo = (case out of None \<Rightarrow> TIdle | Some (line, fl) \<Rightarrow> TOutput line fl)\<rparr>)\<rparr>)"
| ls_output: "th_todo (threads s i) = TOutput line fl \<Longrightarrow>
    log_step strerror can_open s (OutputCall i line (entering line s))
      (set_todo i (if fl then TFlush else TIdle) (call_output line s))"
| ls_flush: "th_todo (threads s i) = TFlush \<Longrightarrow> call_flush s = Inr s' \<Longrightarrow>
    log_step strerror can_open s (FlushFunc i (log_sink (statics s))) (set_todo i TIdle s')"
| ls_back: "own_act a \<Longrightarrow> al_step can_open (back_end s) a b \<Longrightarrow>
    log_step strerror can_open s (BackEnd a) (s\<lparr>back_end := b\<rparr>)"

inductive_cases log_stepE: "log_step strerror can_open s a t"

inductive_simps log_step_simps [step_simps]:
  "log_step strerror can_open s (SetLevel l) t"
  "log_step strerror can_open s (SetSink k) t"
  "log_step strerror can_open s (LogStmt i env st out) t"
  "log_step strerror can_open s (OutputCall i line txt) t"
  "log_step strerror can_open s (FlushFunc i k) t"
  "log_step strerror can_open s (BackEnd a) t"

text \<open>Start: the logger made and configured by \<open>SetFileName\<close> and \<open>set_file_size_limit\<close>, nobody
  has logged yet.\<close>

definition ls_start :: "bool \<Rightarrow> string \<Rightarrow> string \<Rightarrow> string \<Rightarrow> nat \<Rightarrow> file_world \<Rightarrow> log_sys" where
  "ls_start garbage base ext path limit w = \<lparr>statics = statics_init, std_out = [],
     back_end = al_ready garbage base ext path limit w,
     threads = (\<lambda>i. \<lparr>th_tls = tls_init, th_todo = TIdle\<rparr>)\<rparr>"

section \<open>Lines\<close>

lemma chain_text_bound:
  assumes "pos \<le> sz" and "list_all item_ok its"
  shows "pos + length (chain_text sz pos its) \<le> sz"
  using assms
proof (induction its arbitrary: pos)
  case (Cons it its)
  note l = left_text_needs [of it]
  show ?case
  proof (cases "pos + item_needs it \<le> sz")
    case True
    with l Cons.prems Cons.IH [of "pos + length (left_text it)"] show ?thesis by simp
  next
    case False
    with Cons show ?thesis by simp
  qed
qed simp

text \<open>The items of a statement's line.\<close>

definition stmt_items :: "(32 word \<Rightarrow> string) \<Rightarrow> tls \<Rightarrow> log_env \<Rightarrow> log_stmt \<Rightarrow> item list" where
  "stmt_items strerror t env st =
     (let tid = tls_thread_id (cached t (now env) (tid env)) in
      case st_level st of
        Some l \<Rightarrow> line_items (now env) tid l (st_func st) (st_args st) (st_file st) (st_line st)
      | None \<Rightarrow> syserr_items strerror (err_no env) (now env) tid (st_args st) (st_file st) (st_line st))"

definition stmt_runs :: "log_level \<Rightarrow> log_stmt \<Rightarrow> bool" where
  "stmt_runs global st \<longleftrightarrow> (case st_level st of None \<Rightarrow> True | Some l \<Rightarrow> WARN \<le> l \<or> global \<le> l)"

definition stmt_flushes :: "log_stmt \<Rightarrow> bool" where
  "stmt_flushes st \<longleftrightarrow> (case st_level st of None \<Rightarrow> True | Some l \<Rightarrow> ERROR \<le> l)"

definition stmt_line :: "(32 word \<Rightarrow> string) \<Rightarrow> tls \<Rightarrow> log_env \<Rightarrow> log_stmt \<Rightarrow> string" where
  "stmt_line strerror t env st = chain_text kSmallBuffer 0 (stmt_items strerror t env st)"

lemma stmt_items_ok:
  assumes "stmt_fits env st"
  shows "list_all item_ok (stmt_items strerror t env st)"
  using assms time_items_ok
  by (simp add: stmt_items_def stmt_fits_def line_items_def syserr_items_def item_ok_def Let_def split: option.split)

lemma run_stmt_ok:
  assumes "tls_ok t" and "stmt_fits env st"
  shows "run_stmt strerror global t env st =
    Inr (if stmt_runs global st
         then (Some (stmt_line strerror t env st, stmt_flushes st), cached t (now env) (tid env))
         else (None, t))"
proof -
  have d: "date_ok (now env)" and a: "length (arr env) = kSmallBuffer" using assms(2) by (simp_all add: stmt_fits_def)
  obtain c where c: "ls_put_all (fb_new (arr env)) (stmt_items strerror t env st) = Inr c"
    "fb_to_string c = stmt_line strerror t env st"
    using ls_put_all_chain [OF fresh_buffer(1) [OF a] stmt_items_ok [OF assms(2), of strerror t]]
    by (auto simp: fresh_buffer a stmt_line_def)
  then show ?thesis
    by (cases "st_level st")
      (auto simp: run_stmt_def log_macro_items [OF assms(1) d] syserr_macro_items [OF assms(1) d]
        stmt_items_def stmt_runs_def stmt_flushes_def Let_def)
qed

text \<open>A line has its time, so it is not empty, and it fits its array, so it is never one that
  \<open>Output\<close> refuses by its length.\<close>

lemma stmt_line_date:
  assumes "stmt_fits env st"
  shows "\<exists>rest. stmt_line strerror t env st = to_formatted_string (now env) False @ rest"
proof -
  have d: "length (to_formatted_string (now env) False) = 17"
    using assms by (simp add: length_formatted stmt_fits_def)
  obtain its where its: "stmt_items strerror t env st = IString (to_formatted_string (now env) False) # its"
    by (cases "st_level st") (auto simp: stmt_items_def line_items_def syserr_items_def time_items_def Let_def)
  with d show ?thesis by (simp add: stmt_line_def item_needs_def left_text_def item_text_def kSmallBuffer_def)
qed

lemma stmt_line_bounds:
  assumes "stmt_fits env st"
  shows "stmt_line strerror t env st \<noteq> []" "length (stmt_line strerror t env st) \<le> kSmallBuffer"
  using stmt_line_date [OF assms, of strerror t] length_formatted [of "now env"] assms
    chain_text_bound [of 0 kSmallBuffer, OF _ stmt_items_ok [OF assms, of strerror t]]
  by (auto simp: stmt_line_def stmt_fits_def)

section \<open>The invariant\<close>

definition thread_ok :: "log_thread \<Rightarrow> bool" where
  "thread_ok h \<longleftrightarrow> tls_ok (th_tls h) \<and>
     (case th_todo h of TOutput line fl \<Rightarrow> line \<noteq> [] \<and> length line \<le> kSmallBuffer | _ \<Rightarrow> True)"

definition ls_inv :: "log_sys \<Rightarrow> bool" where
  "ls_inv s \<longleftrightarrow> al_inv (back_end s) \<and> (\<forall>i. thread_ok (threads s i))"

text \<open>A step of the back end, or none.\<close>

fun ls_abs :: "ls_act \<Rightarrow> al_act option" where
  "ls_abs (OutputCall i line (Some tx)) = Some (Output line tx)"
| "ls_abs (FlushFunc i FileSink) = Some FlushCall"
| "ls_abs (BackEnd a) = Some a"
| "ls_abs a = None"

lemma ls_abs_output [simp]: "ls_abs (OutputCall i line tx) = map_option (Output line) tx"
  by (cases tx) simp_all

lemma ls_abs_flush: "ls_abs (FlushFunc i k) = (if k = FileSink then Some FlushCall else None)"
  by (cases k) simp_all

lemma set_todo_simps [simp]:
  "statics (set_todo i td s) = statics s" "back_end (set_todo i td s) = back_end s" "std_out (set_todo i td s) = std_out s"
  "threads (set_todo i td s) j = (if j = i then (threads s i)\<lparr>th_todo := td\<rparr> else threads s j)"
  by (simp_all add: set_todo_def)

lemma call_output_simps [simp]:
  "threads (call_output msg s) = threads s" "statics (call_output msg s) = statics s"
  by (simp_all add: call_output_def split: log_sink.split)

lemma call_flush_simps:
  assumes "call_flush s = Inr t"
  shows "threads t = threads s" "statics t = statics s" "std_out t = std_out s"
  using assms by (auto simp: call_flush_def bind_res_Inr_iff split: log_sink.splits)

lemma log_step_sim:
  assumes "log_step strerror can_open s a t"
  shows "case ls_abs a of None \<Rightarrow> back_end t = back_end s | Some b \<Rightarrow> al_step can_open (back_end s) b (back_end t)"
  using assms
proof (cases rule: log_step.cases)
  case (ls_output i line fl)
  then show ?thesis
    by (cases "log_sink (statics s)") (simp_all add: entering_def call_output_def al_step.put_output)
next
  case (ls_flush i s')
  then show ?thesis
    by (cases "log_sink (statics s)") (auto simp: call_flush_def bind_res_Inr_iff intro: al_step.put_flush)
qed simp_all

lemma log_step_inv:
  assumes "ls_inv s" and "log_step strerror can_open s a t"
  shows "ls_inv t"
proof -
  have b: "al_inv (back_end t)"
    using log_step_sim [OF assms(2)] assms(1) al_step_inv by (auto simp: ls_inv_def split: option.splits)
  have h: "thread_ok (threads s i)" for i using assms(1) by (simp add: ls_inv_def)
  have "thread_ok (threads t i)" for i
    using assms(2)
  proof (cases rule: log_step.cases)
    case (ls_stmt j env st out t')
    have k: "tls_ok (th_tls (threads s j))" using h by (simp add: thread_ok_def)
    with ls_stmt(5) run_stmt_ok [OF k ls_stmt(4)] tls_ok_cached stmt_line_bounds [OF ls_stmt(4)] h ls_stmt(4) show ?thesis
      by (auto simp: ls_stmt(2) thread_ok_def stmt_fits_def split: if_splits)
  next
    case (ls_output j line fl)
    with h show ?thesis by (auto simp: thread_ok_def)
  next
    case (ls_flush j s')
    with h call_flush_simps [OF ls_flush(4)] show ?thesis by (auto simp: thread_ok_def)
  qed (use h in auto)
  with b show ?thesis by (simp add: ls_inv_def)
qed

lemma ls_start_inv: "ls_inv (ls_start g base ext path limit w)"
  by (simp add: ls_inv_def ls_start_def al_ready_inv thread_ok_def tls_ok_init)

interpretation ls: step_invariant "log_step strerror can_open" ls_inv
  by unfold_locales (rule log_step_inv)

interpretation ls_sim: step_refines "log_step strerror can_open" ls_inv "al_step can_open" ls_abs back_end
  by unfold_locales (erule log_step_sim)

section \<open>Lines through the system\<close>

text \<open>The lines a thread made, those it passed to \<open>output_func_\<close>, and the one in between.\<close>

fun made_by :: "nat \<Rightarrow> ls_act \<Rightarrow> string list" where
  "made_by i (LogStmt j env st (Some line)) = (if j = i then [line] else [])"
| "made_by i a = []"

fun output_by :: "nat \<Rightarrow> ls_act \<Rightarrow> string list" where
  "output_by i (OutputCall j line tx) = (if j = i then [line] else [])"
| "output_by i a = []"

definition in_between :: "nat \<Rightarrow> log_sys \<Rightarrow> string list" where
  "in_between i s = (case th_todo (threads s i) of TOutput line fl \<Rightarrow> [line] | _ \<Rightarrow> [])"

lemma log_step_thread_line:
  assumes "log_step strerror can_open s a t"
  shows "output_by i a @ in_between i t = in_between i s @ made_by i a"
  using assms
proof (cases rule: log_step.cases)
  case (ls_stmt j env st out t')
  then show ?thesis by (cases out) (auto simp: in_between_def)
next
  case (ls_flush j s')
  with call_flush_simps [OF ls_flush(4)] show ?thesis by (auto simp: in_between_def)
qed (auto simp: in_between_def)

interpretation ls_thread: step_order "log_step strerror can_open" ls_inv "made_by i" "output_by i" "in_between i"
  by unfold_locales (erule log_step_thread_line)

text \<open>The lines given to the file logger, whether \<open>Output\<close> dropped one because too many buffers
  waited, and the text it took for each.\<close>

fun filed :: "ls_act \<Rightarrow> string" where
  "filed (OutputCall i line (Some tx)) = line"
| "filed a = []"

fun drops_line :: "ls_act \<Rightarrow> bool" where
  "drops_line (OutputCall i line (Some [])) = True"
| "drops_line a = False"

lemma drops_line_iff [simp]: "drops_line (OutputCall i line tx) \<longleftrightarrow> tx = Some []"
  by (cases "OutputCall i line tx" rule: drops_line.cases) auto

lemma al_output_lost:
  "lost_counter (al_output msg l) = (if MEM_BUFFER_SIZE < length msg then lost_counter l
     else if 25 < length (write_buffers (al_output msg l)) then lost_counter l + 1 else 0)"
  by (simp add: al_output_def Let_def split: option.split)

text \<open>As long as none is dropped there is no notice to write.\<close>

lemma al_step_no_loss:
  assumes "al_step can_open s a t" and "lost_counter (lg s) = 0" and "\<And>msg. a \<noteq> Output msg []"
  shows "lost_counter (lg t) = 0"
  using assms(1)
proof (cases rule: al_step.cases)
  case (put_output m)
  then have "out_text m (lg s) \<noteq> []" using assms(3) [of m] by auto
  with put_output assms(2) show ?thesis by (auto simp: al_output_lost out_text_def)
qed (use assms(2) in \<open>auto simp: al_swap_queues_def al_write_log_to_file_def Let_def dest: al_flush_files
      split: prod.splits if_splits\<close>)

lemma out_text_no_loss: "lost_counter l = 0 \<Longrightarrow> out_text msg l \<noteq> [] \<Longrightarrow> out_text msg l = msg"
  by (auto simp: out_text_def split: if_splits)

lemma log_step_entered:
  assumes "log_step strerror can_open s a t" and "ls_abs a = Some b"
  shows "b = Output msg tx \<Longrightarrow> \<exists>i. a = OutputCall i msg (Some tx)"
    "lost_counter (lg (back_end s)) = 0 \<Longrightarrow> \<not> drops_line a \<Longrightarrow> entered b = filed a"
proof -
  show "b = Output msg tx \<Longrightarrow> \<exists>i. a = OutputCall i msg (Some tx)"
    using assms by (cases a) (auto simp: step_simps own_act_def ls_abs_flush split: if_splits)
  assume l: "lost_counter (lg (back_end s)) = 0" "\<not> drops_line a"
  show "entered b = filed a"
  proof (cases a rule: ls_abs.cases)
    case (1 i line tx)
    then have "tx = out_text line (lg (back_end s))" "tx \<noteq> []" using assms(1) l(2)
      by (auto simp: step_simps entering_def split: log_sink.splits)
    with out_text_no_loss [OF l(1)] 1 assms(2) show ?thesis by auto
  next
    case (3 c)
    with assms show ?thesis by (cases c) (auto simp: step_simps own_act_def)
  qed (use assms(2) in auto)
qed

lemma run_no_loss:
  assumes "run (log_step strerror can_open) s as t" and "lost_counter (lg (back_end s)) = 0"
    and "\<forall>a \<in> set as. \<not> drops_line a"
  shows "concat (map entered (List.map_filter ls_abs as)) = concat (map filed as)"
  using assms
proof (induction rule: run.induct)
  case (run_cons s a t as u)
  note st = run_cons.hyps(1) and d = run_cons.prems
  have "lost_counter (lg (back_end t)) = 0"
  proof (cases "ls_abs a")
    case None
    with log_step_sim [OF st] d(1) show ?thesis by simp
  next
    case (Some b)
    with log_step_entered(1) [OF st Some] d(2) log_step_sim [OF st] show ?thesis
      by (intro al_step_no_loss [OF _ d(1)]) auto
  qed
  moreover have "concat (map entered (List.map_filter ls_abs [a])) = filed a"
    using log_step_entered(2) [OF st _ d(1)] d(2)
    by (cases a rule: ls_abs.cases) (auto simp: List.map_filter_simps)
  ultimately show ?case using run_cons.IH d(2) by (auto simp: List.map_filter_simps split: option.splits)
qed (simp add: List.map_filter_simps)

text \<open>The lines printed to \<open>stdout\<close>.\<close>

fun printed :: "ls_act \<Rightarrow> string" where
  "printed (OutputCall i line None) = line"
| "printed a = []"

lemma log_step_std_out:
  assumes "log_step strerror can_open s a t"
  shows "std_out t = std_out s @ printed a"
  using assms
proof (cases rule: log_step.cases)
  case (ls_output i line fl)
  then show ?thesis by (cases "log_sink (statics s)") (simp_all add: entering_def call_output_def)
next
  case (ls_flush i s')
  with call_flush_simps [OF ls_flush(4)] show ?thesis by simp
qed simp_all

interpretation ls_std: step_order "log_step strerror can_open" ls_inv printed "\<lambda>a. []" std_out
  by unfold_locales (simp add: log_step_std_out)

text \<open>Runs in which nobody queues a buffer while the log thread is in its writing loop.\<close>

definition quiet_log_step :: "(32 word \<Rightarrow> string) \<Rightarrow> (string \<Rightarrow> bool) \<Rightarrow> log_sys \<Rightarrow> ls_act \<Rightarrow> log_sys \<Rightarrow> bool" where
  "quiet_log_step strerror can_open s a t \<longleftrightarrow> log_step strerror can_open s a t \<and>
     (case ls_abs a of None \<Rightarrow> True | Some b \<Rightarrow> \<not> overtakes (back_end s) b)"

interpretation ls_quiet: step_refines "quiet_log_step strerror can_open" "\<lambda>s. True" "quiet_step can_open" ls_abs back_end
  by unfold_locales (auto simp: quiet_log_step_def quiet_step_def dest: log_step_sim split: option.splits)

lemma quiet_log_run: "run (quiet_log_step strerror can_open) s as t \<Longrightarrow> run (log_step strerror can_open) s as t"
  by (erule run_mono) (simp add: quiet_log_step_def)

lemma quiet_run: "run (quiet_step can_open) s as t \<Longrightarrow> run (al_step can_open) s as t"
  by (erule run_mono) (simp add: quiet_step_def)

lemma ls_start_simps [simp]:
  "al_line (back_end (ls_start g base ext path limit w)) = []" "world (back_end (ls_start g base ext path limit w)) = w"
  "lost_counter (lg (back_end (ls_start g base ext path limit w))) = 0" "std_out (ls_start g base ext path limit w) = []"
  "in_between i (ls_start g base ext path limit w) = []"
  "the_file (lg (back_end (ls_start g base ext path limit w))) = None"
  by (simp_all add: ls_start_def al_ready_def set_file_size_limit_def set_file_name_def al_new_def al_line_def log_text_def in_between_def Let_def)

section \<open>A run for the examples\<close>

abbreviation demo_log_env :: log_env where
  "demo_log_env \<equiv> \<lparr>now = 1000000, tid = 7, err_no = 0, arr = replicate kSmallBuffer (CHR 0x00)\<rparr>"

abbreviation demo_stmt :: log_stmt where
  "demo_stmt \<equiv> \<lparr>st_level = Some ERROR, st_file = ''a.cc'', st_line = 3, st_func = ''main'', st_args = [IInt 5]\<rparr>"

abbreviation demo_world :: file_world where
  "demo_world \<equiv> \<lparr>files = [''./water.log'' \<mapsto> ''old''], file_seq = 0\<rparr>"

abbreviation demo_log_start :: log_sys where
  "demo_log_start \<equiv> ls_start False ''water'' ''.log'' ''./'' 100 demo_world"

lemma demo_stmt_fits: "stmt_fits demo_log_env demo_stmt"
  by (simp add: stmt_fits_def date_ok_def year_10000_def item_ok_def)

lemma demo_log_name: "log_name (lg (back_end demo_log_start)) = ''./water.log''"
  by (simp add: ls_start_def al_ready_def log_name_def set_file_size_limit_def set_file_name_def Let_def)

lemma back_run:
  assumes "run (quiet_step can_open) b bs c" and "b = back_end s" and "\<forall>a \<in> set bs. own_act a"
  shows "run (quiet_log_step strerror can_open) s (map BackEnd bs) (s\<lparr>back_end := c\<rparr>)"
  using assms
proof (induction arbitrary: s rule: run.induct)
  case (run_cons b a b' as c)
  then have "quiet_log_step strerror can_open s (BackEnd a) (s\<lparr>back_end := b'\<rparr>)"
    by (auto simp: quiet_log_step_def quiet_step_def step_simps)
  with run_cons.IH [of "s\<lparr>back_end := b'\<rparr>"] run_cons.prems show ?case by auto
qed simp

text \<open>One thread logs an error; the log thread collects it, and writes it a round later.\<close>

definition demo_back :: "string \<Rightarrow> al_act list" where
  "demo_back L = [TestStop, TestEmpty, Drained, TestStop, TestEmpty, Timeout, TakeFront L, WriteFile 0 L]"

lemma demo_log_run:
  assumes "L = stmt_line strerror tls_init demo_log_env demo_stmt"
  obtains s where "run (quiet_log_step strerror (\<lambda>n. True)) demo_log_start
      ([SetSink FileSink, BackEnd StartLogging, LogStmt 0 demo_log_env demo_stmt (Some L), OutputCall 0 L (Some L),
        FlushFunc 0 FileSink] @ map BackEnd (demo_back L)) s"
    "al_line (back_end s) = []"
proof -
  let ?step = "quiet_log_step strerror (\<lambda>n. True)"
  have L: "L \<noteq> []" "length L \<le> 4000"
    using stmt_line_bounds [OF demo_stmt_fits, of strerror tls_init] assms by (simp_all add: kSmallBuffer_def)
  have r: "run_stmt strerror DEBUG tls_init demo_log_env demo_stmt = Inr (Some (L, True), cached tls_init 1000000 7)"
    using run_stmt_ok [OF tls_ok_init demo_stmt_fits] by (simp add: assms stmt_runs_def stmt_flushes_def less_eq_log_level_def)
  let ?l = "lg (back_end demo_log_start)" and ?b = "\<lparr>sb_text = L, sb_cap = MEM_BUFFER_SIZE\<rparr>"
  let ?s = "\<lambda>td l. demo_log_start\<lparr>statics := \<lparr>global_level = DEBUG, log_sink = FileSink\<rparr>,
      back_end := \<lparr>lg = l, world = demo_world, pc = LTop\<rparr>,
      threads := (threads demo_log_start)(0 := \<lparr>th_tls = cached tls_init 1000000 7, th_todo = td\<rparr>)\<rparr>"
  let ?flushed = "?l\<lparr>log_buffer := Some sb_new, next_buffer := None, write_buffers := [?b]\<rparr>"
  note d = quiet_log_step_def step_simps own_act_def ls_start_def al_ready_def statics_init_def set_file_size_limit_def set_file_name_def
      al_new_def entering_def call_output_def call_flush_def set_todo_def Let_def overtakes_def al_output_def out_text_def
      sb_new_def sb_append_def MEM_BUFFER_SIZE_def al_flush_def al_swap_buffer_def sb_clear_def
  have "run ?step demo_log_start [SetSink FileSink, BackEnd StartLogging]
      (demo_log_start\<lparr>statics := \<lparr>global_level = DEBUG, log_sink = FileSink\<rparr>, back_end := \<lparr>lg = ?l, world = demo_world, pc = LTop\<rparr>\<rparr>)"
    by (simp add: d)
  moreover have "?step (demo_log_start\<lparr>statics := \<lparr>global_level = DEBUG, log_sink = FileSink\<rparr>,
      back_end := \<lparr>lg = ?l, world = demo_world, pc = LTop\<rparr>\<rparr>) (LogStmt 0 demo_log_env demo_stmt (Some L)) (?s (TOutput L True) ?l)"
    using r demo_stmt_fits by (simp add: d)
  moreover have "?step (?s (TOutput L True) ?l) (OutputCall 0 L (Some L)) (?s TFlush (?l\<lparr>log_buffer := Some ?b\<rparr>))"
    using L by (simp add: d) (auto intro!: exI [of _ True])
  moreover have "?step (?s TFlush (?l\<lparr>log_buffer := Some ?b\<rparr>)) (FlushFunc 0 FileSink) (?s TIdle ?flushed)"
    using L by (simp add: d)
  ultimately have front: "run ?step demo_log_start
      ([SetSink FileSink, BackEnd StartLogging] @ [LogStmt 0 demo_log_env demo_stmt (Some L), OutputCall 0 L (Some L),
        FlushFunc 0 FileSink]) (?s TIdle ?flushed)"
    by (simp only: run_append run_simps) blast
  have "\<exists>c. run (quiet_step (\<lambda>n. True)) (back_end (?s TIdle ?flushed)) (demo_back L) c \<and> al_line c = []"
    using L by (simp add: demo_back_def d quiet_step_def al_swap_queues_def al_write_log_to_file_def lf_open_def
        lf_write_log_def lf_get_length_def al_line_def log_text_def)
  then obtain c where c: "run (quiet_step (\<lambda>n. True)) (back_end (?s TIdle ?flushed)) (demo_back L) c" "al_line c = []" by blast
  have "\<forall>a \<in> set (demo_back L). own_act a" by (simp add: demo_back_def own_act_def)
  from run_join [OF front back_run [OF c(1) refl this]] that c(2) show ?thesis by simp
qed

section \<open>Properties\<close>

text \<open>C9: Logging never gets stuck and never loses a line by its length. In every state that any
  threads, log levels, switches of the output function and steps of the log thread can reach, a
  statement with a date after 1970 and before the year 10000 is built without a failed
  assertion or a write outside its array; its line has its own date, also when the thread's
  cache holds another second, is not empty and fits 4000 bytes, far below what \<open>Output\<close>
  refuses; and the calls of \<open>output_func_\<close> and \<open>flush_func_\<close> that follow can be taken.\<close>

theorem logging_never_stuck:
  assumes "run (log_step strerror can_open) (ls_start g base ext path limit w) as s"
  shows "(th_todo (threads s i) = TIdle \<and> stmt_fits env st \<longrightarrow>
      (\<exists>out t. log_step strerror can_open s (LogStmt i env st out) t \<and>
        (out \<noteq> None \<longleftrightarrow> stmt_runs (global_level (statics s)) st) \<and>
        (\<forall>line. out = Some line \<longrightarrow> line = stmt_line strerror (th_tls (threads s i)) env st \<and> length line \<le> 4000 \<and>
           (\<exists>rest. line = to_formatted_string (now env) False @ rest)))) \<and>
    (\<forall>line fl. th_todo (threads s i) = TOutput line fl \<longrightarrow> line \<noteq> [] \<and> length line \<le> 4000 \<and>
      (\<exists>tx t. log_step strerror can_open s (OutputCall i line tx) t)) \<and>
    (th_todo (threads s i) = TFlush \<longrightarrow> (\<exists>k t. log_step strerror can_open s (FlushFunc i k) t))"
proof (intro conjI impI allI)
  have inv: "ls_inv s" using ls.run_inv [OF assms ls_start_inv] .
  then have h: "thread_ok (threads s i)" and l: "log_inv (lg (back_end s))" by (simp_all add: ls_inv_def al_inv_def)
  have k: "tls_ok (th_tls (threads s i))" using h by (simp add: thread_ok_def)
  note b = stmt_line_bounds [where strerror = strerror and t = "th_tls (threads s i)", unfolded kSmallBuffer_def]
  { assume t: "th_todo (threads s i) = TIdle \<and> stmt_fits env st"
    note r = run_stmt_ok [OF k, of env st strerror "global_level (statics s)"]
    show "\<exists>out t. log_step strerror can_open s (LogStmt i env st out) t \<and>
        (out \<noteq> None \<longleftrightarrow> stmt_runs (global_level (statics s)) st) \<and>
        (\<forall>line. out = Some line \<longrightarrow> line = stmt_line strerror (th_tls (threads s i)) env st \<and> length line \<le> 4000 \<and>
           (\<exists>rest. line = to_formatted_string (now env) False @ rest))"
      using t r b [of env st] stmt_line_date [of env st]
      by (cases "stmt_runs (global_level (statics s)) st") (auto simp: step_simps) }
  { fix line fl assume "th_todo (threads s i) = TOutput line fl"
    with h show "line \<noteq> []" "length line \<le> 4000" "\<exists>tx t. log_step strerror can_open s (OutputCall i line tx) t"
      by (auto simp: thread_ok_def kSmallBuffer_def step_simps) }
  assume "th_todo (threads s i) = TFlush"
  with al_flush_total [OF l] show "\<exists>k t. log_step strerror can_open s (FlushFunc i k) t"
    by (cases "log_sink (statics s)") (auto simp: step_simps call_flush_def)
qed

text \<open>C8: The log files hold exactly the lines. When no line is dropped and nobody queues a buffer
  while the log thread writes, the renamed files in the order of their numbers, the current
  file and what the logger still holds are, byte for byte, what the file held before and then
  the lines given to the file logger, in the order of the calls, whatever the number of
  threads, the sizes of buffers and files, and the moments of flushes and timeouts. Each
  thread's lines are in the order of its statements; those given to \<open>stdout\<close> are printed. (If
  \<open>fopen\<close> succeeds, from a sequence number 0, and for fewer than a million writes, after which
  the names of renamed files repeat.)\<close>

theorem log_files_hold_lines:
  assumes "run (quiet_log_step strerror can_open) (ls_start g base ext path limit w) as s"
    and "\<forall>a \<in> set as. \<not> drops_line a"
    and "can_open (log_name (lg (back_end (ls_start g base ext path limit w))))" and "file_seq w = 0"
    and "length (filter is_write (List.map_filter ls_abs as)) < 1000000"
  shows "(\<exists>rolled. rolled_ok (lg (back_end s)) (world (back_end s)) rolled \<and>
      log_files (back_end s) rolled @ al_line (back_end s) =
        contents_of w (log_name (lg (back_end (ls_start g base ext path limit w)))) @ concat (map filed as)) \<and>
    concat (map (made_by i) as) = concat (map (output_by i) as) @ in_between i s \<and>
    std_out s = concat (map printed as)"
proof (intro conjI)
  let ?s = "ls_start g base ext path limit w" and ?bs = "List.map_filter ls_abs as"
  note r = quiet_log_run [OF assms(1)]
  have q: "run (quiet_step can_open) (back_end ?s) ?bs (back_end s)"
    by (rule ls_quiet.run_sim [OF assms(1)]) simp
  have "al_inv (back_end ?s)" using ls_start_inv by (simp add: ls_inv_def)
  then have "concat (map written ?bs) @ al_line (back_end s) = concat (map entered ?bs)"
    using alq.run_line [OF q] by simp
  also have "\<dots> = concat (map filed as)" by (rule run_no_loss [OF r _ assms(2)]) simp
  finally have e: "concat (map written ?bs) @ al_line (back_end s) = concat (map filed as)" .
  have "rolled_ok (lg (back_end ?s)) (world (back_end ?s)) []" "file_ok (lg (back_end ?s)) (world (back_end ?s))"
    using assms(4) by (simp_all add: rolled_ok_def file_ok_def)
  from run_files [OF quiet_run [OF q] this assms(3)] assms(5) obtain rolled where
    "rolled_ok (lg (back_end s)) (world (back_end s)) rolled"
    "log_files (back_end s) rolled = log_files (back_end ?s) [] @ concat (map written ?bs)" by auto
  with e show "\<exists>rolled. rolled_ok (lg (back_end s)) (world (back_end s)) rolled \<and>
      log_files (back_end s) rolled @ al_line (back_end s) = contents_of w (log_name (lg (back_end ?s))) @ concat (map filed as)"
    by (intro exI [of _ rolled]) (simp add: log_files_def)
  show "concat (map (made_by i) as) = concat (map (output_by i) as) @ in_between i s"
    using ls_thread.run_line [OF r ls_start_inv, of i] by simp
  show "std_out s = concat (map printed as)"
    using ls_std.run_line [OF r ls_start_inv] by simp
qed

theorem logging_never_stuck_witness:
  "stmt_runs DEBUG demo_stmt \<and>
   (\<exists>line t. log_step (\<lambda>e. []) (\<lambda>n. True) demo_log_start (LogStmt 0 demo_log_env demo_stmt (Some line)) t \<and> length line \<le> 4000)"
proof -
  have "run (log_step (\<lambda>e. []) (\<lambda>n. True)) demo_log_start [] demo_log_start" by simp
  note never = logging_never_stuck [OF this, of 0 demo_log_env demo_stmt]
  have "th_todo (threads demo_log_start 0) = TIdle" "global_level (statics demo_log_start) = DEBUG" "stmt_runs DEBUG demo_stmt"
    by (simp_all add: ls_start_def statics_init_def stmt_runs_def less_eq_log_level_def)
  with never demo_stmt_fits show ?thesis by auto
qed

theorem log_files_hold_lines_witness:
  "\<exists>L s as rolled. run (quiet_log_step (\<lambda>e. []) (\<lambda>n. True)) demo_log_start as s \<and> L \<noteq> [] \<and> concat (map filed as) = L \<and>
     rolled_ok (lg (back_end s)) (world (back_end s)) rolled \<and> log_files (back_end s) rolled = ''old'' @ L"
proof -
  define L where "L = stmt_line (\<lambda>e. []) tls_init demo_log_env demo_stmt"
  then have n: "L \<noteq> []" using stmt_line_bounds [OF demo_stmt_fits] by simp
  let ?as = "[SetSink FileSink, BackEnd StartLogging, LogStmt 0 demo_log_env demo_stmt (Some L), OutputCall 0 L (Some L),
        FlushFunc 0 FileSink] @ map BackEnd (demo_back L)"
  obtain s where s: "run (quiet_log_step (\<lambda>e. []) (\<lambda>n. True)) demo_log_start ?as s" "al_line (back_end s) = []"
    by (rule demo_log_run [OF L_def])
  have f: "\<forall>a \<in> set ?as. \<not> drops_line a" "length (filter is_write (List.map_filter ls_abs ?as)) < 1000000"
    "concat (map filed ?as) = L"
    using n by (auto simp: demo_back_def List.map_filter_simps is_write_def)
  obtain rolled where "rolled_ok (lg (back_end s)) (world (back_end s)) rolled"
    "log_files (back_end s) rolled @ al_line (back_end s) =
       contents_of demo_world (log_name (lg (back_end demo_log_start))) @ concat (map filed ?as)"
    using log_files_hold_lines [OF s(1) f(1) _ _ f(2)] by auto
  with s n f(3) show ?thesis
    unfolding demo_log_name by (intro exI [of _ L] exI [of _ s] exI [of _ ?as] exI [of _ rolled]) (simp add: contents_of_def)
qed

end
