(* ===== verification/Task_Queue.thy ===== *)
theory Task_Queue
  imports Traces
begin

text \<open>
  \<open>SerialTaskQueue\<close> and \<open>TaskQueue\<close> (\<open>src/water/base/serial_task_queue.h\<close>,
  \<open>serial_task_queue.cc\<close>, \<open>task_queue.h\<close>): one worker thread that runs the queued tasks in
  order. The mutex is held by the worker exactly where its program counter says so; a wait on
  the condition variable ends by a notification or spuriously, which are different actions, and
  the woken worker then has to get the mutex, for which others may be faster. A
  task is a value of a type parameter; its run is the action that names it. Tasks return: a
  task that throws ends the process and is outside the model, as is the log output.
\<close>

section \<open>The queue and its worker\<close>

text \<open>What \<open>RunTaskInQueue\<close> is given: a plain task, or the closure of
  \<open>SyncTaskInQueue\<close>, which fulfils a promise (a number) after the task.\<close>

datatype 't job = Job 't | SyncJob 't nat

text \<open>
  Where the worker stands: before \<open>prctl\<close>, before the test of \<open>stop_\<close>, holding the mutex
  before the test of the inner loop, holding it and about to wait, waiting without it, woken
  but without the mutex yet, with a
  task moved out of the queue, returned.
\<close>

datatype 't tq_pc = QStart | QTop | QLocked | QAbout | QBlocked | QWoken | QTask "'t job" | QExit

record 't task_queue =
  queue_name :: string
  thread_name :: string
  jobs :: "'t job list"
  stop :: bool
  kept :: "nat set"   \<comment> \<open>the promises fulfilled\<close>
  tq_pc :: "'t tq_pc"

definition tq_new :: "string \<Rightarrow> 't task_queue" where
  "tq_new name = \<lparr>queue_name = name, thread_name = [], jobs = [], stop = False, kept = {}, tq_pc = QStart\<rparr>"

definition tq_ctor_body :: "string \<Rightarrow> 't task_queue \<Rightarrow> 't task_queue" where
  "tq_ctor_body name q = (if name = [] then q\<lparr>queue_name := ''SerialTaskQueue''\<rparr> else q)"

text \<open>The end of a wait by \<open>notify_one\<close> or \<open>notify_all\<close>, if the worker waits.\<close>

definition wake_worker :: "'t tq_pc \<Rightarrow> 't tq_pc" where
  "wake_worker p = (if p = QBlocked then QWoken else p)"

definition run_task_in_queue :: "'t job \<Rightarrow> 't task_queue \<Rightarrow> 't task_queue" where
  "run_task_in_queue j q =
     q\<lparr>jobs := jobs q @ [j], tq_pc := wake_worker (tq_pc q)\<rparr>"

definition sync_task_in_queue :: "'t \<Rightarrow> nat \<Rightarrow> 't task_queue \<Rightarrow> 't task_queue" where
  "sync_task_in_queue task p q = run_task_in_queue (SyncJob task p) q"

definition run_job :: "'t job \<Rightarrow> nat set \<Rightarrow> nat set" where
  "run_job j ks = (case j of Job t \<Rightarrow> ks | SyncJob t p \<Rightarrow> insert p ks)"

definition holds_mutex :: "'t tq_pc \<Rightarrow> bool" where
  "holds_mutex p \<longleftrightarrow> p = QLocked \<or> p = QAbout"

text \<open>
  Actions: the constructor's body, a task handed in by \<open>RunTaskInQueue\<close> or
  \<open>SyncTaskInQueue\<close>, the return of \<open>fut.get()\<close>, the three statements of the destructor,
  and the worker's moves. \<open>WaitAllTaskFinished\<close> is \<open>SyncTaskInQueue\<close> of an empty task.
\<close>

datatype 't tq_act =
    CtorBody string | Push "'t job" | SyncReturn nat
  | SetStop | NotifyAll | Joined
  | NameThread | TestStop | TestEmpty | Wait | Spurious | Woken | Take "'t job" | Continue | Ran "'t job"

inductive tq_step :: "'t task_queue \<Rightarrow> 't tq_act \<Rightarrow> 't task_queue \<Rightarrow> bool" where
  ctor_body: "tq_step q (CtorBody name) (tq_ctor_body name q)"
| push: "\<not> holds_mutex (tq_pc q) \<Longrightarrow> tq_step q (Push (Job t)) (run_task_in_queue (Job t) q)"
| push_sync: "\<not> holds_mutex (tq_pc q) \<Longrightarrow> tq_step q (Push (SyncJob t p)) (sync_task_in_queue t p q)"
| sync_return: "p \<in> kept q \<Longrightarrow> tq_step q (SyncReturn p) q"
| set_stop: "tq_step q SetStop (q\<lparr>stop := True\<rparr>)"
| notify_all: "tq_step q NotifyAll (q\<lparr>tq_pc := wake_worker (tq_pc q)\<rparr>)"
| joined: "tq_pc q = QExit \<Longrightarrow> tq_step q Joined q"
| name_thread: "tq_pc q = QStart \<Longrightarrow> tq_step q NameThread (q\<lparr>thread_name := queue_name q, tq_pc := QTop\<rparr>)"
| test_stop: "tq_pc q = QTop \<Longrightarrow> tq_step q TestStop (q\<lparr>tq_pc := (if stop q then QExit else QLocked)\<rparr>)"
| test_empty: "tq_pc q = QLocked \<Longrightarrow> \<not> stop q \<Longrightarrow> jobs q = [] \<Longrightarrow> tq_step q TestEmpty (q\<lparr>tq_pc := QAbout\<rparr>)"
| wait: "tq_pc q = QAbout \<Longrightarrow> tq_step q Wait (q\<lparr>tq_pc := QBlocked\<rparr>)"
| spurious: "tq_pc q = QBlocked \<Longrightarrow> tq_step q Spurious (q\<lparr>tq_pc := QWoken\<rparr>)"
| woken: "tq_pc q = QWoken \<Longrightarrow> tq_step q Woken (q\<lparr>tq_pc := QLocked\<rparr>)"
| take: "tq_pc q = QLocked \<Longrightarrow> jobs q = j # js \<Longrightarrow> tq_step q (Take j) (q\<lparr>jobs := js, tq_pc := QTask j\<rparr>)"
| continue: "tq_pc q = QLocked \<Longrightarrow> stop q \<Longrightarrow> jobs q = [] \<Longrightarrow> tq_step q Continue (q\<lparr>tq_pc := QTop\<rparr>)"
| ran: "tq_pc q = QTask j \<Longrightarrow> tq_step q (Ran j) (q\<lparr>kept := run_job j (kept q), tq_pc := QTop\<rparr>)"

inductive_cases tq_stepE: "tq_step q a r"

inductive_simps tq_step_simps [step_simps]:
  "tq_step q (CtorBody name) r"
  "tq_step q (Push (Job t)) r"
  "tq_step q (Push (SyncJob t p)) r"
  "tq_step q (SyncReturn p) r"
  "tq_step q SetStop r"
  "tq_step q NotifyAll r"
  "tq_step q Joined r"
  "tq_step q NameThread r"
  "tq_step q TestStop r"
  "tq_step q TestEmpty r"
  "tq_step q Wait r"
  "tq_step q Spurious r"
  "tq_step q Woken r"
  "tq_step q (Take j) r"
  "tq_step q Continue r"
  "tq_step q (Ran j) r"

section \<open>The queue as a FIFO\<close>

datatype 'x fifo_act = Enq 'x | Deq 'x

inductive fifo_step :: "'x list \<Rightarrow> 'x fifo_act \<Rightarrow> 'x list \<Rightarrow> bool" where
  enq: "fifo_step xs (Enq x) (xs @ [x])"
| deq: "fifo_step (x # xs) (Deq x) xs"

fun as_fifo :: "'t tq_act \<Rightarrow> 't job fifo_act option" where
  "as_fifo (Push j) = Some (Enq j)"
| "as_fifo (Take j) = Some (Deq j)"
| "as_fifo _ = None"

lemma tq_step_fifo:
  "tq_step q a r \<Longrightarrow> case as_fifo a of None \<Rightarrow> jobs r = jobs q | Some b \<Rightarrow> fifo_step (jobs q) b (jobs r)"
  by (induction rule: tq_step.induct)
    (auto simp: tq_ctor_body_def run_task_in_queue_def sync_task_in_queue_def intro: fifo_step.intros)

interpretation tqf: step_refines tq_step "\<lambda>q. True" fifo_step as_fifo jobs
  by unfold_locales (simp_all add: tq_step_fifo)

definition in_hand :: "'t tq_pc \<Rightarrow> 't job list" where
  "in_hand p = (case p of QTask j \<Rightarrow> [j] | _ \<Rightarrow> [])"

lemma in_hand_simps [simp]:
  "in_hand (QTask j) = [j]" "in_hand QStart = []" "in_hand QTop = []" "in_hand QLocked = []"
  "in_hand QAbout = []" "in_hand QBlocked = []" "in_hand QWoken = []" "in_hand (wake_worker p) = in_hand p" "in_hand QExit = []"
  by (simp_all add: in_hand_def wake_worker_def)

fun pushed :: "'t tq_act \<Rightarrow> 't job list" where
  "pushed (Push j) = [j]"
| "pushed _ = []"

fun ran_job :: "'t tq_act \<Rightarrow> 't job list" where
  "ran_job (Ran j) = [j]"
| "ran_job _ = []"

lemma tq_step_line:
  "tq_step q a r \<Longrightarrow> ran_job a @ in_hand (tq_pc r) @ jobs r = (in_hand (tq_pc q) @ jobs q) @ pushed a"
  by (induction rule: tq_step.induct)
    (auto simp: tq_ctor_body_def run_task_in_queue_def sync_task_in_queue_def)

interpretation tq: step_order tq_step "\<lambda>q. True" pushed ran_job "\<lambda>q. in_hand (tq_pc q) @ jobs q"
  by unfold_locales (simp_all add: tq_step_line)

text \<open>The promises that are fulfilled are those of the jobs that ran.\<close>

definition promises :: "'t job list \<Rightarrow> nat set" where
  "promises js = {p. \<exists>t. SyncJob t p \<in> set js}"

lemma promises_simps [simp]:
  "promises [] = {}" "promises (Job t # js) = promises js"
  "promises (SyncJob t p # js) = insert p (promises js)" "promises (xs @ ys) = promises xs \<union> promises ys"
  by (auto simp: promises_def)

lemma tq_step_kept: "tq_step q a r \<Longrightarrow> kept r = kept q \<union> promises (ran_job a)"
  by (induction rule: tq_step.induct)
    (auto simp: tq_ctor_body_def run_task_in_queue_def sync_task_in_queue_def run_job_def split: job.splits)

lemma run_kept: "run tq_step q as r \<Longrightarrow> kept r = kept q \<union> promises (concat (map ran_job as))"
  by (induction rule: run.induct) (auto simp: tq_step_kept)

lemma tq_new_line [simp]: "jobs (tq_new name) = []" "tq_pc (tq_new name) = QStart" "kept (tq_new name) = {}"
  by (simp_all add: tq_new_def)

text \<open>What was pushed before a promise that is kept has run.\<close>

lemma prefix_of_kept:
  assumes "xs @ rest = before @ SyncJob t p # later" and "p \<in> promises xs"
    and "p \<notin> promises before"
  shows "\<exists>more. xs = before @ SyncJob t p # more"
proof -
  from assms(1) obtain us where "(xs = before @ us \<and> us @ rest = SyncJob t p # later) \<or>
      (xs @ us = before \<and> rest = us @ SyncJob t p # later)"
    by (auto simp: append_eq_append_conv2)
  then show ?thesis
  proof
    assume *: "xs = before @ us \<and> us @ rest = SyncJob t p # later"
    with assms(2,3) have "us \<noteq> []" by auto
    with * show ?thesis by (auto simp: neq_Nil_conv)
  next
    assume "xs @ us = before \<and> rest = us @ SyncJob t p # later"
    with assms(2,3) show ?thesis by auto
  qed
qed

section \<open>The worker that sleeps for ever\<close>

definition asleep :: "'t task_queue \<Rightarrow> bool" where
  "asleep q \<longleftrightarrow> tq_pc q = QBlocked \<and> stop q"

text \<open>Actions that can still happen in the destructor after its notification.\<close>

definition after_notify :: "'t tq_act \<Rightarrow> bool" where
  "after_notify a = (case a of CtorBody n \<Rightarrow> False | Push j \<Rightarrow> False | NotifyAll \<Rightarrow> False
     | Spurious \<Rightarrow> False | _ \<Rightarrow> True)"

lemma asleep_step: "tq_step q a r \<Longrightarrow> asleep q \<Longrightarrow> after_notify a \<Longrightarrow> asleep r \<and> a \<noteq> Joined"
  by (induction rule: tq_step.induct) (auto simp: asleep_def after_notify_def)

lemma asleep_run:
  "run tq_step q as r \<Longrightarrow> asleep q \<Longrightarrow> list_all after_notify as \<Longrightarrow> asleep r \<and> Joined \<notin> set as"
  by (induction rule: run.induct) (auto dest: asleep_step)

lemma exit_step: "tq_step q a r \<Longrightarrow> tq_pc q = QExit \<Longrightarrow> tq_pc r = QExit \<and> kept r = kept q \<and> a \<noteq> Ran j"
  by (induction rule: tq_step.induct)
    (auto simp: tq_ctor_body_def run_task_in_queue_def sync_task_in_queue_def wake_worker_def)

lemma exit_run:
  "run tq_step q as r \<Longrightarrow> tq_pc q = QExit \<Longrightarrow> p \<notin> kept q \<Longrightarrow> SyncReturn p \<notin> set as"
proof (induction rule: run.induct)
  case (run_cons s a t as u)
  then have "tq_pc t = QExit" "kept t = kept s" using exit_step by blast+
  moreover have "a \<noteq> SyncReturn p" using run_cons.hyps(1) run_cons.prems by (auto simp: step_simps)
  ultimately show ?case using run_cons by auto
qed simp

section \<open>Properties\<close>

text \<open>C11: The worker runs the tasks in the order in which they were pushed, each once: at any
  time what ran, the task in hand and the queue together are what was pushed; and the queue
  itself goes through exactly the steps of a FIFO.\<close>

theorem serial_order:
  assumes "run tq_step (tq_new name) as q"
  shows "concat (map ran_job as) @ in_hand (tq_pc q) @ jobs q = concat (map pushed as) \<and>
    run fifo_step [] (List.map_filter as_fifo as) (jobs q)"
  using tq.run_line [OF assms] tqf.run_sim [OF assms] by simp

theorem serial_order_witness:
  "\<exists>q. run tq_step (tq_new ''q'') [Push (Job (1 :: nat)), Push (Job (2 :: nat)), NameThread, TestStop, Take (Job (1 :: nat))] q \<and>
     tq_pc q = QTask (Job (1 :: nat)) \<and> jobs q = [Job (2 :: nat)] \<and>
     [Job (1 :: nat)] @ [Job (2 :: nat)] = in_hand (tq_pc q) @ jobs q"
proof -
  obtain q where q: "run tq_step (tq_new ''q'')
      [Push (Job (1 :: nat)), Push (Job (2 :: nat)), NameThread, TestStop, Take (Job (1 :: nat))] q" "tq_pc q = QTask (Job (1 :: nat))"
      "jobs q = [Job (2 :: nat)]"
    by (simp add: step_simps tq_new_def holds_mutex_def wake_worker_def run_task_in_queue_def)
  have "[Job 1] @ [Job 2] = in_hand (tq_pc q) @ jobs q"
    using serial_order [OF q(1)] q(2,3) by simp
  then show ?thesis using q by (intro exI [of _ q] conjI)
qed

text \<open>C28: \<open>WaitAllTaskFinished\<close> (any \<open>SyncTaskInQueue\<close>) returns only after every task pushed
  before its own has run, its own included.\<close>

theorem sync_after_all:
  assumes "run tq_step (tq_new name) (before @ Push (SyncJob t p) # later @ [SyncReturn p]) q"
    and "p \<notin> promises (concat (map pushed before))"
  shows "\<exists>more. concat (map ran_job (before @ Push (SyncJob t p) # later)) =
    concat (map pushed before) @ SyncJob t p # more"
proof -
  let ?as = "before @ Push (SyncJob t p) # later"
  from assms(1) obtain r where r: "run tq_step (tq_new name) ?as r" "tq_step r (SyncReturn p) q"
    by (auto simp: run_append)
  then have "p \<in> kept r" by (simp add: step_simps)
  then have "p \<in> promises (concat (map ran_job ?as))"
    using run_kept [OF r(1)] by simp
  moreover have "concat (map ran_job ?as) @ in_hand (tq_pc r) @ jobs r =
      concat (map pushed before) @ SyncJob t p # concat (map pushed later)"
    using tq.run_line [OF r(1)] by simp
  ultimately show ?thesis
    using assms(2) by (intro prefix_of_kept)
qed

theorem sync_after_all_witness:
  "\<exists>q more. run tq_step (tq_new ''q'') ([Push (Job (1 :: nat))] @ Push (SyncJob 2 0) #
      [NameThread, TestStop, Take (Job (1 :: nat)), Ran (Job (1 :: nat)), TestStop, Take (SyncJob 2 0), Ran (SyncJob 2 0)]
      @ [SyncReturn 0]) q \<and>
    [Job (1 :: nat), SyncJob 2 0] = [Job (1 :: nat)] @ SyncJob 2 0 # more"
proof -
  obtain q where q: "run tq_step (tq_new ''q'') ([Push (Job (1 :: nat))] @ Push (SyncJob 2 0) #
      [NameThread, TestStop, Take (Job (1 :: nat)), Ran (Job (1 :: nat)), TestStop, Take (SyncJob 2 0), Ran (SyncJob 2 0)]
      @ [SyncReturn 0]) q"
    by (simp add: step_simps tq_new_def holds_mutex_def wake_worker_def run_task_in_queue_def sync_task_in_queue_def run_job_def)
  obtain more where "[Job (1 :: nat), SyncJob 2 0] = [Job 1] @ SyncJob 2 0 # more"
    using sync_after_all [OF q] by auto
  with q show ?thesis by (intro exI [of _ q] exI [of _ more] conjI)
qed

text \<open>C29: The destructor can hang: it stores \<open>stop_\<close> and notifies without the mutex, so both
  can fall between the worker's test and its wait. In that run the worker then sleeps for
  ever, and \<open>join\<close> does not return, unless the wait ends spuriously.\<close>

definition missed_wakeup :: "nat tq_act list" where
  "missed_wakeup = [NameThread, TestStop, TestEmpty, SetStop, NotifyAll, Wait]"

theorem destructor_can_hang:
  "\<exists>q. run tq_step (tq_new name) missed_wakeup q \<and> asleep q \<and>
     (\<forall>as r. run tq_step q as r \<and> list_all after_notify as \<longrightarrow> asleep r \<and> Joined \<notin> set as)"
proof -
  obtain q where "run tq_step (tq_new name) missed_wakeup q" "asleep q"
    by (simp add: missed_wakeup_def step_simps tq_new_def wake_worker_def asleep_def)
  then show ?thesis using asleep_run by blast
qed

theorem destructor_can_hang_witness:
  "\<exists>(q :: nat task_queue) r. run tq_step (tq_new ''q'') missed_wakeup q \<and> run tq_step q [SetStop] r \<and> asleep r"
proof -
  obtain q :: "nat task_queue" where q: "run tq_step (tq_new ''q'') missed_wakeup q"
    "\<forall>as r. run tq_step q as r \<and> list_all after_notify as \<longrightarrow> asleep r \<and> Joined \<notin> set as"
    using destructor_can_hang [of "''q''"] by blast
  have "run tq_step q [SetStop] (q\<lparr>stop := True\<rparr>)" "list_all after_notify [SetStop :: nat tq_act]"
    by (simp_all add: step_simps after_notify_def)
  with q show ?thesis by blast
qed

text \<open>A task still queued when the worker has seen the stop flag never runs, and a caller
  of \<open>SyncTaskInQueue\<close> waiting for it waits for ever.\<close>

theorem dropped_sync_waits:
  assumes "run tq_step (tq_new name) as q" and "tq_pc q = QExit" and "p \<notin> promises (concat (map ran_job as))"
    and "run tq_step q bs r"
  shows "SyncReturn p \<notin> set bs \<and> concat (map ran_job bs) = []"
proof -
  have k: "p \<notin> kept q" using run_kept [OF assms(1)] assms(3) by simp
  have "concat (map ran_job bs) = []"
    using assms(4,2)
  proof (induction rule: run.induct)
    case (run_cons s a t as u)
    then have "tq_pc t = QExit" "ran_job a = []"
      using exit_step [of s a t] by (auto elim!: tq_stepE)
    with run_cons show ?case by simp
  qed simp
  with exit_run [OF assms(4,2) k] show ?thesis by simp
qed

theorem dropped_sync_waits_witness:
  "\<exists>q r. run tq_step (tq_new ''q'') [NameThread, SetStop, Push (SyncJob () 0), TestStop] q \<and>
     run tq_step q [Joined] r \<and> SyncReturn 0 \<notin> set [Joined :: unit tq_act]"
proof -
  obtain q :: "unit task_queue" where q: "run tq_step (tq_new ''q'') [NameThread, SetStop, Push (SyncJob () 0), TestStop] q"
    "tq_pc q = QExit"
    by (simp add: step_simps tq_new_def holds_mutex_def wake_worker_def run_task_in_queue_def sync_task_in_queue_def)
  have r: "run tq_step q [Joined] q" using q(2) by (simp add: step_simps)
  from dropped_sync_waits [OF q _ r, of 0] q r show ?thesis by auto
qed

end
