(* ===== verification/Poller_Channel.thy ===== *)
theory Poller_Channel
  imports Water_Prelude
begin

text \<open>
  \<open>Channel\<close> and \<open>Poller\<close> (\<open>src/water/net/channel.h\<close>, \<open>channel.cc\<close>, \<open>poller.h\<close>,
  \<open>poller.cc\<close>): channels register the events of a descriptor with the epoll instance of
  their loop and dispatch what it reports. Channels are objects in a heap, named by their
  address. The kernel side is the interest list of the epoll instance, with \<open>epoll_ctl\<close> as
  its manual page gives it (\<open>valid\<close> says which descriptors are open); what \<open>epoll_wait\<close>
  returns is an argument. Assertions are on.
\<close>

unbundle bit_operations_syntax

section \<open>Channels\<close>

definition POLLIN :: "32 word" where "POLLIN = 0x1"
definition POLLPRI :: "32 word" where "POLLPRI = 0x2"
definition POLLOUT :: "32 word" where "POLLOUT = 0x4"
definition POLLERR :: "32 word" where "POLLERR = 0x8"
definition POLLHUP :: "32 word" where "POLLHUP = 0x10"
definition POLLNVAL :: "32 word" where "POLLNVAL = 0x20"
definition POLLRDHUP :: "32 word" where "POLLRDHUP = 0x2000"

lemmas poll_flags = POLLIN_def POLLPRI_def POLLOUT_def POLLERR_def POLLHUP_def POLLNVAL_def POLLRDHUP_def

definition kNoneEvent :: "32 word" where "kNoneEvent = 0"
definition kReadEvent :: "32 word" where "kReadEvent = POLLIN OR POLLPRI"
definition kWriteEvent :: "32 word" where "kWriteEvent = POLLOUT"

definition kNew :: int where "kNew = - 1"
definition kAdded :: int where "kAdded = 1"
definition kDeleted :: int where "kDeleted = 2"

lemmas index_states = kNew_def kAdded_def kDeleted_def

text \<open>\<open>tie\<close> is the object the weak pointer observes, if \<open>Tie\<close> was called.\<close>

record 'f channel =
  ch_fd :: int
  events :: "32 word"
  revents :: "32 word"
  index :: int
  added_to_loop :: bool
  tie :: "nat option"
  read_callback :: "'f option"
  write_callback :: "'f option"
  error_callback :: "'f option"

definition channel_new :: "int \<Rightarrow> 'f channel" where
  "channel_new fd = \<lparr>ch_fd = fd, events = 0, revents = 0, index = - 1, added_to_loop = False,
     tie = None, read_callback = None, write_callback = None, error_callback = None\<rparr>"

definition set_read_callback :: "'f \<Rightarrow> 'f channel \<Rightarrow> 'f channel" where
  "set_read_callback cb c = c\<lparr>read_callback := Some cb\<rparr>"

definition set_write_callback :: "'f \<Rightarrow> 'f channel \<Rightarrow> 'f channel" where
  "set_write_callback cb c = c\<lparr>write_callback := Some cb\<rparr>"

definition tie_to :: "nat \<Rightarrow> 'f channel \<Rightarrow> 'f channel" where
  "tie_to obj c = c\<lparr>tie := Some obj\<rparr>"

definition is_none_event :: "'f channel \<Rightarrow> bool" where
  "is_none_event c \<longleftrightarrow> events c = kNoneEvent"

definition is_writing :: "'f channel \<Rightarrow> bool" where
  "is_writing c \<longleftrightarrow> events c AND kWriteEvent \<noteq> 0"

definition is_reading :: "'f channel \<Rightarrow> bool" where
  "is_reading c \<longleftrightarrow> events c AND kReadEvent \<noteq> 0"

text \<open>
  The dispatch, over any state \<open>'s\<close> in which the channel can be looked up and callbacks run:
  a callback may change the channel before the next test.
\<close>

definition run_cb :: "('f \<Rightarrow> 's \<Rightarrow> 's res) \<Rightarrow> 'f option \<Rightarrow> 's \<Rightarrow> 's res" where
  "run_cb call cb s = (case cb of Some f \<Rightarrow> call f s | None \<Rightarrow> Inr s)"

definition handle_event_safely :: "('s \<Rightarrow> 'f channel) \<Rightarrow> ('f \<Rightarrow> 's \<Rightarrow> 's res) \<Rightarrow> 's \<Rightarrow> 's res" where
  "handle_event_safely chan call s =
     bind_res (if revents (chan s) AND (POLLNVAL OR POLLERR) \<noteq> 0
               then run_cb call (error_callback (chan s)) s else Inr s) (\<lambda>s.
     bind_res (if revents (chan s) AND (POLLIN OR POLLPRI OR POLLRDHUP) \<noteq> 0
               then run_cb call (read_callback (chan s)) s else Inr s) (\<lambda>s.
     if revents (chan s) AND POLLOUT \<noteq> 0
     then run_cb call (write_callback (chan s)) s else Inr s))"

definition handle_event ::
  "(nat \<Rightarrow> 's \<Rightarrow> bool) \<Rightarrow> ('s \<Rightarrow> 'f channel) \<Rightarrow> ('f \<Rightarrow> 's \<Rightarrow> 's res) \<Rightarrow> 's \<Rightarrow> 's res" where
  "handle_event alive chan call s =
     (case tie (chan s) of
        Some obj \<Rightarrow> if alive obj s then handle_event_safely chan call s else Inr s
      | None \<Rightarrow> handle_event_safely chan call s)"

section \<open>The poller\<close>

datatype epoll_op = EPOLL_CTL_ADD | EPOLL_CTL_MOD | EPOLL_CTL_DEL

text \<open>\<open>epoll_ctl\<close>: the new interest list, or \<open>None\<close> for an error.\<close>

type_synonym interest = "int \<Rightarrow> (32 word \<times> nat) option"

definition epoll_ctl :: "(int \<Rightarrow> bool) \<Rightarrow> epoll_op \<Rightarrow> int \<Rightarrow> 32 word \<Rightarrow> nat \<Rightarrow> interest \<Rightarrow> interest option" where
  "epoll_ctl valid operation fd ev ptr il =
     (if \<not> valid fd then None
      else case operation of
             EPOLL_CTL_ADD \<Rightarrow> if il fd = None then Some (il(fd \<mapsto> (ev, ptr))) else None
           | EPOLL_CTL_MOD \<Rightarrow> if il fd = None then None else Some (il(fd \<mapsto> (ev, ptr)))
           | EPOLL_CTL_DEL \<Rightarrow> if il fd = None then None else Some (il(fd := None)))"

record 'f poller =
  heap :: "nat \<Rightarrow> 'f channel option"
  channels :: "int \<Rightarrow> nat option"
  interests :: interest
  event_list_size :: nat

definition kInitEventListSize :: nat where "kInitEventListSize = 16"

definition poller_new :: "(nat \<Rightarrow> 'f channel option) \<Rightarrow> 'f poller" where
  "poller_new h = \<lparr>heap = h, channels = Map.empty, interests = Map.empty, event_list_size = kInitEventListSize\<rparr>"

text \<open>\<open>Update\<close>: a failed call is reported and otherwise ignored.\<close>

definition poller_update :: "(int \<Rightarrow> bool) \<Rightarrow> epoll_op \<Rightarrow> nat \<Rightarrow> 'f channel \<Rightarrow> 'f poller \<Rightarrow> 'f poller" where
  "poller_update valid operation p c s =
     (case epoll_ctl valid operation (ch_fd c) (events c) p (interests s) of
        None \<Rightarrow> s | Some il \<Rightarrow> s\<lparr>interests := il\<rparr>)"

definition set_index :: "nat \<Rightarrow> int \<Rightarrow> 'f poller \<Rightarrow> 'f poller" where
  "set_index p i s = (case heap s p of None \<Rightarrow> s | Some c \<Rightarrow> s\<lparr>heap := (heap s)(p \<mapsto> c\<lparr>index := i\<rparr>)\<rparr>)"

definition update_channel :: "bool \<Rightarrow> (int \<Rightarrow> bool) \<Rightarrow> nat \<Rightarrow> 'f poller \<Rightarrow> 'f poller res" where
  "update_channel in_loop valid p s =
     bind_res (check in_loop ProcessExit) (\<lambda>_.
     case heap s p of None \<Rightarrow> Inl OutOfBounds | Some c \<Rightarrow>
       let fd = ch_fd c in
       if index c = kNew \<or> index c = kDeleted then
         bind_res (if index c = kNew
                   then bind_res (check (channels s fd = None) AssertFailed) (\<lambda>_.
                        Inr (s\<lparr>channels := (channels s)(fd \<mapsto> p)\<rparr>))
                   else bind_res (check (channels s fd = Some p) AssertFailed) (\<lambda>_. Inr s)) (\<lambda>s.
         Inr (poller_update valid EPOLL_CTL_ADD p c (set_index p kAdded s)))
       else
         bind_res (check (channels s fd = Some p) AssertFailed) (\<lambda>_.
         bind_res (check (index c = kAdded) AssertFailed) (\<lambda>_.
         Inr (if is_none_event c
              then set_index p kDeleted (poller_update valid EPOLL_CTL_DEL p c s)
              else poller_update valid EPOLL_CTL_MOD p c s))))"

definition remove_channel :: "bool \<Rightarrow> (int \<Rightarrow> bool) \<Rightarrow> nat \<Rightarrow> 'f poller \<Rightarrow> 'f poller res" where
  "remove_channel in_loop valid p s =
     bind_res (check in_loop ProcessExit) (\<lambda>_.
     case heap s p of None \<Rightarrow> Inl OutOfBounds | Some c \<Rightarrow>
       let fd = ch_fd c in
       bind_res (check (channels s fd = Some p) AssertFailed) (\<lambda>_.
       bind_res (check (index c = kAdded \<or> index c = kDeleted) AssertFailed) (\<lambda>_.
       let s = s\<lparr>channels := (channels s)(fd := None)\<rparr>;
           s = (if index c = kAdded then poller_update valid EPOLL_CTL_DEL p c s else s)
       in Inr (set_index p kNew s))))"

text \<open>
  \<open>FillactiveChannels\<close> on the events \<open>epoll_wait\<close> stored: a channel the kernel names must
  be the one registered for its descriptor.
\<close>

fun fill_active_channels :: "(32 word \<times> nat) list \<Rightarrow> 'f poller \<Rightarrow> (nat list \<times> 'f poller) res" where
  "fill_active_channels [] s = Inr ([], s)"
| "fill_active_channels ((ev, p) # evs) s =
     (case heap s p of None \<Rightarrow> Inl OutOfBounds | Some c \<Rightarrow>
        bind_res (check (channels s (ch_fd c) = Some p) AssertFailed) (\<lambda>_.
        bind_res (fill_active_channels evs (s\<lparr>heap := (heap s)(p \<mapsto> c\<lparr>revents := ev\<rparr>)\<rparr>)) (\<lambda>(ps, s).
        Inr (p # ps, s))))"

text \<open>\<open>Poll\<close>, given what \<open>epoll_wait\<close> stored, or \<open>None\<close> for an error.\<close>

definition poll :: "(32 word \<times> nat) list option \<Rightarrow> 'f poller \<Rightarrow> (nat list \<times> 'f poller) res" where
  "poll result s =
     (case result of
        None \<Rightarrow> Inr ([], s)
      | Some evs \<Rightarrow>
          if evs \<noteq> [] then
            bind_res (check (length evs \<le> event_list_size s) AssertFailed) (\<lambda>_.
            bind_res (fill_active_channels evs s) (\<lambda>(active, s).
            Inr (active, if length evs = event_list_size s
                         then s\<lparr>event_list_size := event_list_size s * 2\<rparr> else s)))
          else Inr ([], s))"

section \<open>Channel operations\<close>

text \<open>
  Each sets \<open>events_\<close> and goes through \<open>Update\<close> and the loop to the poller. The
  assertion there that the channel belongs to the loop holds because the call is made on the
  channel's own loop.
\<close>

datatype chan_op = EnableReading | EnableWriting | DisableReading | DisableWriting | DisableAll

fun new_events :: "chan_op \<Rightarrow> 32 word \<Rightarrow> 32 word" where
  "new_events EnableReading e = e OR kReadEvent"
| "new_events DisableReading e = e AND NOT kReadEvent"
| "new_events EnableWriting e = e OR kWriteEvent"
| "new_events DisableWriting e = e AND NOT kWriteEvent"
| "new_events DisableAll e = kNoneEvent"

text \<open>
  \<open>EventLoop::UpdateChannel\<close> and \<open>EventLoop::RemoveChannel\<close>, through which channels reach
  the poller. What \<open>RemoveChannel\<close> asks of the loop is an argument: \<open>None\<close> outside the
  dispatch, and while the loop dispatches, \<open>current_active_channel_\<close> and \<open>active_channels_\<close>.
  Then only the current channel or an inactive one may be removed.
\<close>

type_synonym dispatching = "(nat option \<times> nat list) option"

definition may_remove :: "dispatching \<Rightarrow> nat \<Rightarrow> bool" where
  "may_remove dsp p \<longleftrightarrow> (case dsp of None \<Rightarrow> True | Some (current, active) \<Rightarrow> current = Some p \<or> p \<notin> set active)"

lemma may_remove_idle [simp]: "may_remove None p"
  by (simp add: may_remove_def)

definition el_update_channel :: "bool \<Rightarrow> (int \<Rightarrow> bool) \<Rightarrow> nat \<Rightarrow> 'f poller \<Rightarrow> 'f poller res" where
  "el_update_channel in_loop valid p s =
     bind_res (check in_loop ProcessExit) (\<lambda>_. update_channel in_loop valid p s)"

definition el_remove_channel :: "bool \<Rightarrow> dispatching \<Rightarrow> (int \<Rightarrow> bool) \<Rightarrow> nat \<Rightarrow> 'f poller \<Rightarrow> 'f poller res" where
  "el_remove_channel in_loop dsp valid p s =
     bind_res (check in_loop ProcessExit) (\<lambda>_.
     bind_res (check (may_remove dsp p) AssertFailed) (\<lambda>_.
     remove_channel in_loop valid p s))"

definition chan_apply :: "bool \<Rightarrow> (int \<Rightarrow> bool) \<Rightarrow> chan_op \<Rightarrow> nat \<Rightarrow> 'f poller \<Rightarrow> 'f poller res" where
  "chan_apply in_loop valid cop p s =
     (case heap s p of None \<Rightarrow> Inl OutOfBounds | Some c \<Rightarrow>
        el_update_channel in_loop valid p
          (s\<lparr>heap := (heap s)(p \<mapsto> c\<lparr>events := new_events cop (events c)\<rparr>)\<rparr>))"

definition chan_remove :: "bool \<Rightarrow> dispatching \<Rightarrow> (int \<Rightarrow> bool) \<Rightarrow> nat \<Rightarrow> 'f poller \<Rightarrow> 'f poller res" where
  "chan_remove in_loop dsp valid p s =
     (case heap s p of None \<Rightarrow> Inl OutOfBounds | Some c \<Rightarrow>
        bind_res (check (events c = kNoneEvent) AssertFailed) (\<lambda>_.
        el_remove_channel in_loop dsp valid p (s\<lparr>heap := (heap s)(p \<mapsto> c\<lparr>added_to_loop := False\<rparr>)\<rparr>)))"

text \<open>
  What is left of a channel and of its descriptor when the objects are gone: the address is
  free, and the kernel drops a closed descriptor from the interest list.
\<close>

definition release :: "nat \<Rightarrow> int \<Rightarrow> 'f poller \<Rightarrow> 'f poller" where
  "release p fd s = s\<lparr>heap := (heap s)(p := None), interests := (interests s)(fd := None)\<rparr>"

section \<open>The invariant\<close>

text \<open>
  A registered channel is the one its descriptor maps to, and the kernel watches exactly the
  channels marked \<open>kAdded\<close>, with their current events.
\<close>

definition registered :: "'f poller \<Rightarrow> nat \<Rightarrow> 'f channel \<Rightarrow> bool" where
  "registered s p c \<longleftrightarrow> heap s p = Some c \<and> (index c = kAdded \<or> index c = kDeleted)"

definition poller_inv :: "'f poller \<Rightarrow> bool" where
  "poller_inv s \<longleftrightarrow>
     (\<forall>p c. heap s p = Some c \<longrightarrow> index c \<in> {kNew, kAdded, kDeleted}) \<and>
     (\<forall>fd p. channels s fd = Some p \<longleftrightarrow> (\<exists>c. registered s p c \<and> ch_fd c = fd)) \<and>
     (\<forall>fd e p. interests s fd = Some (e, p) \<longleftrightarrow>
        (\<exists>c. heap s p = Some c \<and> index c = kAdded \<and> ch_fd c = fd \<and> events c = e))"

lemma poller_inv_new:
  "(\<And>p c. h p = Some c \<Longrightarrow> index c = kNew) \<Longrightarrow> poller_inv (poller_new h)"
  by (auto simp: poller_inv_def poller_new_def registered_def index_states)

text \<open>
  The change every operation makes: the channel at \<open>p\<close> gets new contents, and the two maps
  follow its index.
\<close>

definition put_channel :: "nat \<Rightarrow> 'f channel \<Rightarrow> 'f poller \<Rightarrow> 'f poller" where
  "put_channel p c s = s\<lparr>heap := (heap s)(p \<mapsto> c),
     channels := (channels s)(ch_fd c := (if index c = kNew then None else Some p)),
     interests := (interests s)(ch_fd c := (if index c = kAdded then Some (events c, p) else None))\<rparr>"

lemma put_channel_inv:
  assumes "poller_inv s" and "heap s p = Some c" and "ch_fd d = ch_fd c"
    and "index d \<in> {kNew, kAdded, kDeleted}" and "channels s (ch_fd c) \<in> {None, Some p}"
  shows "poller_inv (put_channel p d s)"
proof -
  note i = assms(1) [unfolded poller_inv_def]
  have other: False if "heap s q = Some b" "q \<noteq> p" "ch_fd b = ch_fd c" "index b \<noteq> kNew" for q b
  proof -
    have "registered s q b" using that i by (auto simp: registered_def)
    then have "channels s (ch_fd c) = Some q" using i that(3) by blast
    with assms(5) that(2) show False by simp
  qed
  have n: "kNew \<noteq> kAdded" "kNew \<noteq> kDeleted" "kAdded \<noteq> kDeleted" by (simp_all add: index_states)
  have "\<forall>fd q. channels (put_channel p d s) fd = Some q \<longleftrightarrow>
      (\<exists>b. registered (put_channel p d s) q b \<and> ch_fd b = fd)"
    using i assms(2-4) other n
    by (auto simp: put_channel_def registered_def) (metis (no_types, lifting))+
  moreover have "\<forall>fd e q. interests (put_channel p d s) fd = Some (e, q) \<longleftrightarrow>
      (\<exists>b. heap (put_channel p d s) q = Some b \<and> index b = kAdded \<and> ch_fd b = fd \<and> events b = e)"
    using i assms(2-4) other n
    by (auto simp: put_channel_def) (metis (no_types, lifting))+
  moreover have "\<forall>q b. heap (put_channel p d s) q = Some b \<longrightarrow> index b \<in> {kNew, kAdded, kDeleted}"
    using i assms(4) by (simp add: put_channel_def)
  ultimately show ?thesis unfolding poller_inv_def by blast
qed

lemma inv_channel:
  assumes "poller_inv s" and "heap s p = Some c" and "channels s (ch_fd c) \<in> {None, Some p}"
  shows "index c = kNew \<longleftrightarrow> channels s (ch_fd c) = None"
    "index c = kAdded \<Longrightarrow> interests s (ch_fd c) = Some (events c, p)"
    "index c \<noteq> kAdded \<Longrightarrow> interests s (ch_fd c) = None"
    "index c = kNew \<or> index c = kAdded \<or> index c = kDeleted"
proof -
  note i = assms(1) [unfolded poller_inv_def]
  have n: "kNew \<noteq> kAdded" "kNew \<noteq> kDeleted" by (simp_all add: index_states)
  show x: "index c = kNew \<or> index c = kAdded \<or> index c = kDeleted" using i assms(2) by auto
  have r: "channels s (ch_fd c) = Some p \<longleftrightarrow> registered s p c"
    using i assms(2) by (auto simp: registered_def)
  then show "index c = kNew \<longleftrightarrow> channels s (ch_fd c) = None"
    using assms(2,3) x n by (auto simp: registered_def)
  show "index c = kAdded \<Longrightarrow> interests s (ch_fd c) = Some (events c, p)"
    using i assms(2) by blast
  show "interests s (ch_fd c) = None" if "index c \<noteq> kAdded"
  proof (rule ccontr)
    assume "interests s (ch_fd c) \<noteq> None"
    then obtain e q where "interests s (ch_fd c) = Some (e, q)" by auto
    then obtain b where "heap s q = Some b" "index b = kAdded" "ch_fd b = ch_fd c" using i by blast
    moreover from this have "channels s (ch_fd c) = Some q" using i by (auto simp: registered_def)
    ultimately show False using assms(2,3) that by auto
  qed
qed

definition next_index :: "chan_op \<Rightarrow> 'f channel \<Rightarrow> int" where
  "next_index cop c = (if index c = kAdded \<and> new_events cop (events c) = kNoneEvent then kDeleted else kAdded)"

lemma chan_apply_ok:
  assumes "poller_inv s" and "heap s p = Some c" and "channels s (ch_fd c) \<in> {None, Some p}"
    and "valid (ch_fd c)"
  shows "chan_apply True valid cop p s =
    Inr (put_channel p (c\<lparr>events := new_events cop (events c), index := next_index cop c\<rparr>) s)"
proof -
  note i = inv_channel [OF assms(1-3)]
  have n: "kNew \<noteq> kAdded" "kNew \<noteq> kDeleted" "kAdded \<noteq> kDeleted" by (simp_all add: index_states)
  have f: "f(a \<mapsto> y) = f" if "f a = Some y" for f :: "int \<Rightarrow> nat option" and a y
    using that by (simp add: fun_upd_idem)
  have g: "c\<lparr>events := e, index := kAdded\<rparr> = c\<lparr>events := e\<rparr>" if "index c = kAdded" for e
    using that by (cases c) simp
  from i(4) assms(2-4) i(1-3) n show ?thesis
    by (elim disjE) (auto simp: chan_apply_def el_update_channel_def update_channel_def Let_def poller_update_def epoll_ctl_def
        set_index_def put_channel_def next_index_def is_none_event_def f g)
qed

lemma chan_remove_ok:
  assumes "poller_inv s" and "heap s p = Some c" and "channels s (ch_fd c) = Some p"
    and "valid (ch_fd c)" and "events c = kNoneEvent" and "may_remove dsp p"
  shows "chan_remove True dsp valid p s = Inr (put_channel p (c\<lparr>added_to_loop := False, index := kNew\<rparr>) s)"
proof -
  have "channels s (ch_fd c) \<in> {None, Some p}" using assms(3) by simp
  note i = inv_channel [OF assms(1,2) this]
  have n: "kNew \<noteq> kAdded" "kNew \<noteq> kDeleted" "kAdded \<noteq> kDeleted" by (simp_all add: index_states)
  have g: "f(a := None) = f" if "f a = None" for f :: interest and a
    using that by (simp add: fun_upd_idem)
  from i(4) assms(2-6) i(1-3) n show ?thesis
    by (elim disjE) (auto simp: chan_remove_def el_remove_channel_def remove_channel_def Let_def poller_update_def epoll_ctl_def
        set_index_def put_channel_def g)
qed

text \<open>Changes of a channel that neither map looks at, and a new channel.\<close>

lemma heap_update_inv:
  assumes "poller_inv s" and "heap s p = Some c"
    and "ch_fd d = ch_fd c" "index d = index c" "events d = events c"
  shows "poller_inv (s\<lparr>heap := (heap s)(p \<mapsto> d)\<rparr>)"
proof -
  note i = assms(1) [unfolded poller_inv_def registered_def]
  show ?thesis
    unfolding poller_inv_def registered_def
  proof (intro conjI)
    show "\<forall>q b. heap (s\<lparr>heap := (heap s)(p \<mapsto> d)\<rparr>) q = Some b \<longrightarrow> index b \<in> {kNew, kAdded, kDeleted}"
      using i assms(2,4) by auto
  qed (use i assms(2-) in \<open>simp_all\<close>)
qed

lemma revents_inv:
  assumes "poller_inv s" and "heap s p = Some c"
  shows "poller_inv (s\<lparr>heap := (heap s)(p \<mapsto> c\<lparr>revents := ev\<rparr>)\<rparr>)"
  by (rule heap_update_inv [OF assms]) simp_all

lemma new_channel_inv:
  assumes "poller_inv s" and "heap s p = None" and "index c = kNew"
  shows "poller_inv (s\<lparr>heap := (heap s)(p \<mapsto> c)\<rparr>)"
proof -
  have n: "kNew \<noteq> kAdded" "kNew \<noteq> kDeleted" by (simp_all add: index_states)
  note i = assms(1) [unfolded poller_inv_def registered_def]
  show ?thesis
    unfolding poller_inv_def registered_def
  proof (intro conjI)
    show "\<forall>q b. heap (s\<lparr>heap := (heap s)(p \<mapsto> c)\<rparr>) q = Some b \<longrightarrow> index b \<in> {kNew, kAdded, kDeleted}"
      using i assms(3) by auto
    show "\<forall>fd q. channels (s\<lparr>heap := (heap s)(p \<mapsto> c)\<rparr>) fd = Some q \<longleftrightarrow>
        (\<exists>b. (heap (s\<lparr>heap := (heap s)(p \<mapsto> c)\<rparr>) q = Some b \<and> (index b = kAdded \<or> index b = kDeleted)) \<and> ch_fd b = fd)"
      using i assms(2,3) n by auto
    show "\<forall>fd e q. interests (s\<lparr>heap := (heap s)(p \<mapsto> c)\<rparr>) fd = Some (e, q) \<longleftrightarrow>
        (\<exists>b. heap (s\<lparr>heap := (heap s)(p \<mapsto> c)\<rparr>) q = Some b \<and> index b = kAdded \<and> ch_fd b = fd \<and> events b = e)"
      using i assms(2,3) n by auto
  qed
qed

lemma fill_ok:
  assumes "poller_inv s" and "\<forall>e \<in> set evs. \<exists>c. registered s (snd e) c"
  shows "\<exists>s'. fill_active_channels evs s = Inr (map snd evs, s') \<and> poller_inv s' \<and>
    channels s' = channels s \<and> interests s' = interests s \<and> event_list_size s' = event_list_size s \<and>
    (\<forall>q. q \<notin> set (map snd evs) \<longrightarrow> heap s' q = heap s q) \<and>
    (\<forall>p c. registered s p c \<longrightarrow> (\<exists>r. heap s' p = Some (c\<lparr>revents := r\<rparr>))) \<and>
    (distinct (map snd evs) \<longrightarrow> (\<forall>(ev, p) \<in> set evs. map_option revents (heap s' p) = Some ev))"
  using assms
proof (induction evs arbitrary: s)
  case Nil
  have "\<exists>r. c = c\<lparr>revents := r\<rparr>" for c :: "'f channel"
    by (rule exI [of _ "revents c"]) simp
  with Nil show ?case by (auto simp: registered_def)
next
  case (Cons e evs)
  obtain ev p where e: "e = (ev, p)" by (cases e)
  with Cons.prems(2) obtain c where c: "registered s p c" by force
  then have h: "heap s p = Some c" by (simp add: registered_def)
  have m: "channels s (ch_fd c) = Some p" using Cons.prems(1) c by (auto simp: poller_inv_def)
  let ?s = "s\<lparr>heap := (heap s)(p \<mapsto> c\<lparr>revents := ev\<rparr>)\<rparr>"
  have reg: "registered ?s q b \<longleftrightarrow> (if q = p then b = c\<lparr>revents := ev\<rparr> else registered s q b)" for q b
    using c by (auto simp: registered_def)
  have i: "poller_inv ?s"
    by (rule revents_inv [OF Cons.prems(1) h])
  have r: "\<forall>e \<in> set evs. \<exists>b. registered ?s (snd e) b"
    using Cons.prems(2) unfolding reg by auto
  from Cons.IH [OF i r] obtain s' where s': "fill_active_channels evs ?s = Inr (map snd evs, s')"
    "poller_inv s'" "channels s' = channels s" "interests s' = interests s"
    "event_list_size s' = event_list_size s"
    "\<forall>q. q \<notin> set (map snd evs) \<longrightarrow> heap s' q = heap ?s q"
    "\<forall>q b. registered ?s q b \<longrightarrow> (\<exists>r. heap s' q = Some (b\<lparr>revents := r\<rparr>))"
    "distinct (map snd evs) \<longrightarrow> (\<forall>(ev, p) \<in> set evs. map_option revents (heap s' p) = Some ev)"
    by auto
  have "\<exists>r. heap s' q = Some (b\<lparr>revents := r\<rparr>)" if "registered s q b" for q b
  proof (cases "q = p")
    case True
    with that c have "b = c" by (simp add: registered_def)
    moreover have "registered ?s p (c\<lparr>revents := ev\<rparr>)" unfolding reg by simp
    ultimately show ?thesis using s'(7) True by fastforce
  next
    case False
    then show ?thesis using s'(7) that unfolding reg by auto
  qed
  with s' h m show ?case by (auto simp: e)
qed

text \<open>\<open>Poll\<close> changes nothing but the reported events of the active channels.\<close>

definition revents_only :: "'f poller \<Rightarrow> 'f poller \<Rightarrow> bool" where
  "revents_only s s' \<longleftrightarrow> poller_inv s' \<and> channels s' = channels s \<and> interests s' = interests s \<and>
     (\<forall>p. \<exists>r. heap s' p = map_option (\<lambda>c. c\<lparr>revents := r\<rparr>) (heap s p))"

lemma poll_ok:
  assumes "poller_inv s" and "\<forall>e \<in> set evs. \<exists>fd ev. interests s fd = Some (ev, snd e)"
    and "length evs \<le> event_list_size s" and "0 < event_list_size s"
  shows "\<exists>s'. poll (Some evs) s = Inr (map snd evs, s') \<and> revents_only s s' \<and> poller_inv s' \<and>
    interests s' = interests s \<and> channels s' = channels s \<and>
    (distinct (map snd evs) \<longrightarrow> (\<forall>(ev, p) \<in> set evs. map_option revents (heap s' p) = Some ev)) \<and>
    (\<forall>q. q \<notin> set (map snd evs) \<longrightarrow> heap s' q = heap s q) \<and>
    event_list_size s' = (if length evs = event_list_size s then 2 * event_list_size s else event_list_size s)"
proof -
  have r: "\<forall>e \<in> set evs. \<exists>c. registered s (snd e) c"
    using assms(1,2) by (fastforce simp: poller_inv_def registered_def)
  then obtain s' where s': "fill_active_channels evs s = Inr (map snd evs, s')"
    "poller_inv s'" "channels s' = channels s" "interests s' = interests s"
    "event_list_size s' = event_list_size s" "\<forall>q. q \<notin> set (map snd evs) \<longrightarrow> heap s' q = heap s q"
    "\<forall>p c. registered s p c \<longrightarrow> (\<exists>r. heap s' p = Some (c\<lparr>revents := r\<rparr>))"
    "distinct (map snd evs) \<longrightarrow> (\<forall>(ev, p) \<in> set evs. map_option revents (heap s' p) = Some ev)"
    using fill_ok [OF assms(1), of evs] by blast
  have same: "\<exists>r. c = c\<lparr>revents := r\<rparr>" for c :: "'f channel"
    by (rule exI [of _ "revents c"]) simp
  have "\<exists>r. heap s' p = map_option (\<lambda>c. c\<lparr>revents := r\<rparr>) (heap s p)" for p
  proof (cases "p \<in> set (map snd evs)")
    case True
    with r obtain c where "registered s p c" by auto
    with s'(7) show ?thesis by (fastforce simp: registered_def)
  next
    case False
    with s'(6) have "heap s' p = heap s p" by blast
    with same show ?thesis by (cases "heap s p") (auto intro: same)
  qed
  then have o: "revents_only s (s'\<lparr>event_list_size := n\<rparr>)" for n
    using s'(2-4) by (simp add: revents_only_def poller_inv_def registered_def)
  show ?thesis
  proof (cases "evs = []")
    case True
    have "\<exists>r. heap s p = map_option (\<lambda>c. c\<lparr>revents := r\<rparr>) (heap s p)" for p
      using same by (cases "heap s p") simp_all
    then have "revents_only s s" using assms(1) by (simp add: revents_only_def)
    with True assms(1,4) show ?thesis by (simp add: poll_def)
  next
    case False
    let ?t = "if length evs = event_list_size s then s'\<lparr>event_list_size := 2 * event_list_size s\<rparr> else s'"
    have "poll (Some evs) s = Inr (map snd evs, ?t)"
      using False assms(3) s'(1,5) by (simp add: poll_def mult.commute)
    moreover have "revents_only s ?t" using o o [of "event_list_size s'"] by simp
    ultimately show ?thesis using s' by (intro exI [of _ ?t]) (auto simp: revents_only_def)
  qed
qed

lemma fill_inv: "fill_active_channels evs s = Inr (ps, t) \<Longrightarrow> poller_inv s \<Longrightarrow> poller_inv t"
proof (induction evs arbitrary: s ps)
  case (Cons e evs)
  obtain ev p where e: "e = (ev, p)" by (cases e)
  with Cons.prems(1) obtain c qs where c: "heap s p = Some c"
    "fill_active_channels evs (s\<lparr>heap := (heap s)(p \<mapsto> c\<lparr>revents := ev\<rparr>)\<rparr>) = Inr (qs, t)"
    by (auto simp: bind_res_Inr_iff split: option.splits)
  from Cons.IH [OF c(2) revents_inv [OF Cons.prems(2) c(1)]] show ?case .
qed simp

section \<open>Properties\<close>

text \<open>C21: On an open descriptor that no other channel uses, enabling or disabling events
  succeeds, keeps the invariant and leaves the kernel watching the channel with exactly its new
  events, and every other descriptor as it was. One case is not what it should be: when the
  last event of a channel that is already out of the interest list is disabled again, the
  channel is put back into it, with no events.\<close>

theorem channel_update_watch:
  assumes "poller_inv s" and "heap s p = Some c" and "channels s (ch_fd c) \<in> {None, Some p}"
    and "valid (ch_fd c)"
  shows "\<exists>s'. chan_apply True valid cop p s = Inr s' \<and> poller_inv s' \<and>
    map_option events (heap s' p) = Some (new_events cop (events c)) \<and>
    interests s' (ch_fd c) =
      (if index c = kAdded \<and> new_events cop (events c) = 0 then None else Some (new_events cop (events c), p)) \<and>
    (\<forall>fd. fd \<noteq> ch_fd c \<longrightarrow> interests s' fd = interests s fd) \<and>
    (index c = kDeleted \<and> cop = DisableAll \<longrightarrow> interests s' (ch_fd c) = Some (0, p))"
proof -
  let ?d = "c\<lparr>events := new_events cop (events c), index := next_index cop c\<rparr>"
  have n: "kDeleted \<noteq> kAdded" by (simp add: index_states)
  have "poller_inv (put_channel p ?d s)"
    by (rule put_channel_inv [OF assms(1,2)]) (use assms(3) in \<open>simp_all add: next_index_def\<close>)
  with chan_apply_ok [where valid = valid, OF assms, of cop] n show ?thesis
    by (auto simp: put_channel_def next_index_def kNoneEvent_def)
qed

definition one_channel :: "unit poller" where
  "one_channel = poller_new [0 \<mapsto> channel_new 7]"

lemma one_channel_inv: "poller_inv one_channel"
  unfolding one_channel_def by (rule poller_inv_new) (auto simp: channel_new_def index_states split: if_splits)

theorem channel_update_watch_witness:
  "\<exists>s'. chan_apply True (\<lambda>fd. True) EnableReading 0 one_channel = Inr s' \<and> interests s' 7 = Some (3, 0)"
  using channel_update_watch [OF one_channel_inv, of 0 "channel_new 7" "\<lambda>fd. True" EnableReading]
  by (auto simp: one_channel_def poller_new_def channel_new_def kReadEvent_def poll_flags kAdded_def)

text \<open>C15: The poller is well formed after every operation that returns, whatever the channel and
  the events, as long as the descriptors of its channels are open: every registered channel
  is the one its descriptor maps to, and the kernel watches exactly the channels marked
  \<open>kAdded\<close>, with their current events.\<close>

theorem poller_well_formed:
  assumes "poller_inv s" and "\<And>p c. heap s p = Some c \<Longrightarrow> valid (ch_fd c)"
  shows "(chan_apply in_loop valid cop p s = Inr s' \<longrightarrow> poller_inv s') \<and>
    (chan_remove in_loop dsp valid p s = Inr s' \<longrightarrow> poller_inv s') \<and>
    (poll result s = Inr (active, s') \<longrightarrow> poller_inv s')"
proof (intro conjI impI)
  assume a: "chan_apply in_loop valid cop p s = Inr s'"
  then obtain c where c: "heap s p = Some c" by (auto simp: chan_apply_def split: option.splits)
  from a c have l: in_loop "channels s (ch_fd c) \<in> {None, Some p}"
    by (auto simp: chan_apply_def el_update_channel_def update_channel_def bind_res_Inr_iff check_def Let_def split: if_splits option.splits)
  show "poller_inv s'"
    using a l(1) chan_apply_ok [where valid = valid and cop = cop, OF assms(1) c l(2) assms(2) [OF c]]
      put_channel_inv [OF assms(1) c, of "c\<lparr>events := new_events cop (events c), index := next_index cop c\<rparr>"] l(2)
    by (simp add: next_index_def)
next
  assume a: "chan_remove in_loop dsp valid p s = Inr s'"
  then obtain c where c: "heap s p = Some c" by (auto simp: chan_remove_def split: option.splits)
  from a c have l: in_loop "channels s (ch_fd c) = Some p" "events c = kNoneEvent" "may_remove dsp p"
    by (auto simp: chan_remove_def el_remove_channel_def remove_channel_def bind_res_Inr_iff check_def Let_def split: if_splits option.splits)
  show "poller_inv s'"
    using a l(1) chan_remove_ok [where valid = valid, OF assms(1) c l(2) assms(2) [OF c] l(3,4)]
      put_channel_inv [OF assms(1) c, of "c\<lparr>added_to_loop := False, index := kNew\<rparr>"] l(2)
    by simp
next
  assume a: "poll result s = Inr (active, s')"
  have g: "poller_inv (t\<lparr>event_list_size := n\<rparr>) = poller_inv t" for n and t :: "'a poller"
    by (simp add: poller_inv_def registered_def)
  from a show "poller_inv s'"
    using assms(1)
    by (auto simp: poll_def bind_res_Inr_iff g dest: fill_inv split: option.splits if_splits prod.splits)
qed

theorem poller_well_formed_witness:
  "\<exists>s'. chan_apply True (\<lambda>fd. True) DisableAll 0 one_channel = Inr s' \<and> poller_inv s'"
proof -
  have "\<exists>s'. chan_apply True (\<lambda>fd. True) DisableAll 0 one_channel = Inr s'"
    using chan_apply_ok [OF one_channel_inv, of 0 "channel_new 7" "\<lambda>fd. True" DisableAll]
    by (simp add: one_channel_def poller_new_def channel_new_def)
  then show ?thesis using poller_well_formed [OF one_channel_inv, of "\<lambda>fd. True"] by blast
qed

text \<open>C22: A registered channel without events is removed completely: the poller and the kernel
  forget its descriptor, all others stay. Removing a channel twice, or one that still has
  events, fails an assertion; and so does removing, from a callback of the dispatch, an active
  channel that is not the one being handled.\<close>

theorem channel_remove_forgets:
  assumes "poller_inv s" and "heap s p = Some c" and "valid (ch_fd c)"
  shows "(events c = 0 \<and> channels s (ch_fd c) = Some p \<and> may_remove dsp p \<longrightarrow>
      (\<exists>s'. chan_remove True dsp valid p s = Inr s' \<and> poller_inv s' \<and> interests s' (ch_fd c) = None \<and>
        channels s' (ch_fd c) = None \<and>
        (\<forall>fd. fd \<noteq> ch_fd c \<longrightarrow> interests s' fd = interests s fd \<and> channels s' fd = channels s fd) \<and>
        chan_remove True dsp valid p s' = Inl AssertFailed)) \<and>
    (events c \<noteq> 0 \<longrightarrow> chan_remove True dsp valid p s = Inl AssertFailed) \<and>
    (index c = kNew \<longrightarrow> chan_remove True dsp valid p s = Inl AssertFailed) \<and>
    (\<forall>current active. dsp = Some (current, active) \<and> p \<in> set active \<and> current \<noteq> Some p \<longrightarrow>
      chan_remove True dsp valid p s = Inl AssertFailed)"
proof -
  let ?d = "c\<lparr>added_to_loop := False, index := kNew\<rparr>"
  have r: "\<exists>s'. chan_remove True dsp valid p s = Inr s' \<and> poller_inv s' \<and> interests s' (ch_fd c) = None \<and>
        channels s' (ch_fd c) = None \<and>
        (\<forall>fd. fd \<noteq> ch_fd c \<longrightarrow> interests s' fd = interests s fd \<and> channels s' fd = channels s fd) \<and>
        chan_remove True dsp valid p s' = Inl AssertFailed"
    if "events c = 0" "channels s (ch_fd c) = Some p" "may_remove dsp p"
  proof -
    have "poller_inv (put_channel p ?d s)"
      by (rule put_channel_inv [OF assms(1,2)]) (use that in \<open>simp_all\<close>)
    moreover have "chan_remove True dsp valid p (put_channel p ?d s) = Inl AssertFailed"
      by (simp add: chan_remove_def el_remove_channel_def remove_channel_def put_channel_def that kNoneEvent_def)
    ultimately show ?thesis
      using chan_remove_ok [where valid = valid, OF assms(1,2) that(2) assms(3)] that
      by (simp add: put_channel_def kNoneEvent_def) (auto simp: index_states)
  qed
  have "channels s (ch_fd c) \<noteq> Some p" if "index c = kNew"
    using that assms(1,2) by (auto simp: poller_inv_def registered_def index_states)
  with r assms(2) show ?thesis
    by (auto simp: chan_remove_def el_remove_channel_def remove_channel_def may_remove_def kNoneEvent_def check_def Let_def)
qed

theorem channel_remove_forgets_witness:
  "\<exists>s s'. chan_apply True (\<lambda>fd. True) DisableAll 0 one_channel = Inr s \<and> channels s 7 = Some 0 \<and>
     chan_remove True None (\<lambda>fd. True) 0 s = Inr s' \<and> channels s' 7 = None \<and>
     chan_remove True (Some (Some 1, [1, 0])) (\<lambda>fd. True) 0 s = Inl AssertFailed"
proof -
  let ?d = "(channel_new 7)\<lparr>index := kAdded\<rparr>" and ?v = "\<lambda>fd :: int. True"
  let ?s = "put_channel 0 ?d one_channel"
  have "chan_apply True ?v DisableAll 0 one_channel = Inr ?s"
    using chan_apply_ok [OF one_channel_inv, of 0 "channel_new 7" ?v DisableAll]
    by (simp add: one_channel_def poller_new_def channel_new_def next_index_def index_states kNoneEvent_def)
  moreover have i: "poller_inv ?s"
    by (rule put_channel_inv [OF one_channel_inv, of 0 "channel_new 7"])
      (simp_all add: one_channel_def poller_new_def channel_new_def)
  moreover have "heap ?s 0 = Some ?d" "ch_fd ?d = 7" "events ?d = 0" "channels ?s 7 = Some 0"
    by (simp_all add: put_channel_def channel_new_def index_states)
  ultimately obtain s d where s: "chan_apply True ?v DisableAll 0 one_channel = Inr s" "poller_inv s"
    "heap s 0 = Some d" "ch_fd d = 7" "events d = 0" "channels s 7 = Some 0" by blast
  have "\<exists>s'. chan_remove True None ?v 0 s = Inr s' \<and> channels s' 7 = None"
    using channel_remove_forgets [OF s(2,3), of ?v None] s(4-6) by auto
  moreover have "chan_remove True (Some (Some 1, [1, 0])) ?v 0 s = Inl AssertFailed"
    using channel_remove_forgets [OF s(2,3), of ?v "Some (Some 1, [1, 0])"] by simp
  ultimately show ?thesis using s(1,6) by blast
qed

text \<open>\<open>Poll\<close> on events of watched channels fails no assertion, reports exactly those
  channels in the kernel's order with their events stored, changes nothing else, and doubles
  the event list exactly when it was full. An error or a timeout reports nothing.\<close>

theorem poll_reports_active:
  assumes "poller_inv s" and "\<And>ev p. (ev, p) \<in> set evs \<Longrightarrow> \<exists>fd e. interests s fd = Some (e, p)"
    and "length evs \<le> event_list_size s" and "distinct (map snd evs)" and "0 < event_list_size s"
  shows "\<exists>s'. poll (Some evs) s = Inr (map snd evs, s') \<and> poller_inv s' \<and>
    (\<forall>(ev, p) \<in> set evs. map_option revents (heap s' p) = Some ev) \<and>
    (\<forall>q. q \<notin> set (map snd evs) \<longrightarrow> heap s' q = heap s q) \<and>
    interests s' = interests s \<and> channels s' = channels s \<and>
    event_list_size s' = (if length evs = event_list_size s then 2 * event_list_size s else event_list_size s) \<and>
    poll None s = Inr ([], s)"
proof -
  have "poll None s = Inr ([], s)" by (simp add: poll_def)
  moreover obtain s' where "poll (Some evs) s = Inr (map snd evs, s')" "poller_inv s'" "interests s' = interests s"
    "channels s' = channels s" "\<forall>(ev, p) \<in> set evs. map_option revents (heap s' p) = Some ev"
    "\<forall>q. q \<notin> set (map snd evs) \<longrightarrow> heap s' q = heap s q"
    "event_list_size s' = (if length evs = event_list_size s then 2 * event_list_size s else event_list_size s)"
    using poll_ok [OF assms(1) _ assms(3,5)] assms(2,4) by force
  ultimately show ?thesis by blast
qed

theorem poll_reports_active_witness:
  "\<exists>s s'. chan_apply True (\<lambda>fd. True) EnableReading 0 one_channel = Inr s \<and>
     poll (Some [(POLLIN, 0)]) s = Inr ([0], s') \<and> map_option revents (heap s' 0) = Some POLLIN"
proof -
  let ?s = "put_channel 0 ((channel_new 7)\<lparr>events := kReadEvent, index := kAdded\<rparr>) one_channel"
  have "chan_apply True (\<lambda>fd. True) EnableReading 0 one_channel = Inr ?s"
    using chan_apply_ok [OF one_channel_inv, of 0 "channel_new 7" "\<lambda>fd. True" EnableReading]
    by (simp add: one_channel_def poller_new_def channel_new_def next_index_def index_states)
  moreover have "poller_inv ?s"
    by (rule put_channel_inv [OF one_channel_inv, of 0 "channel_new 7"])
      (simp_all add: one_channel_def poller_new_def channel_new_def)
  ultimately show ?thesis
    using poll_reports_active [of ?s "[(POLLIN, 0)]"]
    by (fastforce simp: put_channel_def one_channel_def poller_new_def channel_new_def kInitEventListSize_def)
qed

text \<open>C23: The dispatch calls the error, read and write callback in this order, each when it is
  set and one of its events was reported, and none when the tied object is gone. A hang-up
  without data (\<open>POLLHUP\<close> alone) calls nothing, and as nothing can set the error callback,
  neither does an error; level-triggered, both are reported again at once.\<close>

definition fired :: "bool \<Rightarrow> 'f channel \<Rightarrow> 'f list" where
  "fired live c =
     (let cb = (\<lambda>flags f. if revents c AND flags \<noteq> 0 then (case f of Some g \<Rightarrow> [g] | None \<Rightarrow> []) else []) in
      if tie c \<noteq> None \<and> \<not> live then []
      else cb (POLLNVAL OR POLLERR) (error_callback c) @ cb (POLLIN OR POLLPRI OR POLLRDHUP) (read_callback c) @
           cb POLLOUT (write_callback c))"

theorem dispatch_order:
  "handle_event (\<lambda>obj s. live) fst (\<lambda>f (c, tr). Inr (c, tr @ [f])) (c, tr) = Inr (c, tr @ fired live c) \<and>
   (error_callback c = None \<and> revents c \<in> {POLLHUP, POLLERR, POLLHUP OR POLLERR} \<longrightarrow> fired live c = [])"
proof -
  have "fired live c = []" if "error_callback c = None" "revents c \<in> {POLLHUP, POLLERR, POLLHUP OR POLLERR}"
    using that by (auto simp: fired_def poll_flags)
  then show ?thesis
    by (auto simp: handle_event_def handle_event_safely_def run_cb_def fired_def Let_def split: option.splits)
qed

theorem dispatch_order_witness:
  "fired True ((channel_new 7)\<lparr>revents := POLLHUP, read_callback := Some ''read''\<rparr>) = []"
  using dispatch_order [of True "(channel_new 7)\<lparr>revents := POLLHUP, read_callback := Some ''read''\<rparr>"]
  by (simp add: channel_new_def)

end
