(* ===== verification/Timer_Queue.thy ===== *)
theory Timer_Queue
  imports Date_Time "HOL-Library.Multiset"
begin

text \<open>
  \<open>Timer\<close> and \<open>TimerQueue\<close> (\<open>src/water/net/timer.h\<close>, \<open>timer.cc\<close>, \<open>timer_queue.h\<close>,
  \<open>timer_queue.cc\<close>): the timers in a priority queue by due time, and the one timer descriptor
  that is armed for the earliest of them. What the code relies on of
  \<open>std::priority_queue\<close> is the locale \<open>timer_pq\<close>; the order of equal due times is left open
  by it and by every result here. The clock is an argument wherever \<open>Date::Now()\<close> is read.
\<close>

section \<open>Timers\<close>

record 'f timer =
  callback :: 'f
  due :: date
  interval :: dbl
  repeat :: bool
  timer_seq :: nat

text \<open>The constant \<open>0.0000001\<close> as the double nearest to it.\<close>

definition repeat_threshold :: dbl where
  "repeat_threshold = Dbl 944473296573929 (- 73)"

text \<open>The constructor, with the value it takes from \<open>timer_created_\<close>.\<close>

definition timer_new :: "'f \<Rightarrow> date \<Rightarrow> dbl \<Rightarrow> nat \<Rightarrow> 'f timer" where
  "timer_new cb w i seq = \<lparr>callback = cb, due = w, interval = i,
     repeat = dbl_less repeat_threshold (dbl_add i (Dbl 0 0)), timer_seq = seq\<rparr>"

definition timer_restart :: "'f timer \<Rightarrow> date \<Rightarrow> 'f timer res" where
  "timer_restart t now =
     (if repeat t then bind_res (date_after now (interval t)) (\<lambda>d. Inr (t\<lparr>due := d\<rparr>))
      else Inr (t\<lparr>due := date_zero\<rparr>))"

definition timer_less :: "'f timer \<Rightarrow> 'f timer \<Rightarrow> bool" where
  "timer_less a b = date_less (due a) (due b)"

definition timer_greater :: "'f timer \<Rightarrow> 'f timer \<Rightarrow> bool" where
  "timer_greater a b = date_greater (due a) (due b)"

section \<open>The priority queue\<close>

text \<open>\<open>std::priority_queue\<close> with the comparison \<open>cmp\<close>: the earliest due time on top.\<close>

definition cmp :: "'f timer \<Rightarrow> 'f timer \<Rightarrow> bool" where
  "cmp l r = timer_greater l r"

definition pq_push :: "'f timer \<Rightarrow> 'f timer list \<Rightarrow> 'f timer list" where
  "pq_push t q = takeWhile (\<lambda>u. \<not> cmp u t) q @ t # dropWhile (\<lambda>u. \<not> cmp u t) q"

definition pq_top :: "'f timer list \<Rightarrow> 'f timer option" where
  "pq_top q = (case q of [] \<Rightarrow> None | t # ts \<Rightarrow> Some t)"

definition pq_pop :: "'f timer list \<Rightarrow> 'f timer list" where
  "pq_pop q = tl q"

text \<open>
  The loop of \<open>GetExpired\<close> over any priority queue. It ends because popping makes the queue
  smaller, which is a law of the queue and not of this definition.
\<close>

partial_function (option) pop_while ::
  "('q \<Rightarrow> 'x option) \<Rightarrow> ('q \<Rightarrow> 'q) \<Rightarrow> ('x \<Rightarrow> bool) \<Rightarrow> 'q \<Rightarrow> ('x list \<times> 'q) option" where
  "pop_while front pop p q =
     (case front q of
        None \<Rightarrow> Some ([], q)
      | Some x \<Rightarrow>
          if p x
          then Option.bind (pop_while front pop p (pop q)) (\<lambda>(xs, q'). Some (x # xs, q'))
          else Some ([], q))"


locale timer_pq =
  fixes push :: "'x \<Rightarrow> 'q \<Rightarrow> 'q"
    and front :: "'q \<Rightarrow> 'x option"
    and pop :: "'q \<Rightarrow> 'q"
    and contents :: "'q \<Rightarrow> 'x multiset"
    and inv :: "'q \<Rightarrow> bool"
    and key :: "'x \<Rightarrow> int"
  assumes push_inv: "inv q \<Longrightarrow> inv (push x q)"
    and push_contents: "inv q \<Longrightarrow> contents (push x q) = add_mset x (contents q)"
    and top_none: "inv q \<Longrightarrow> front q = None \<longleftrightarrow> contents q = {#}"
    and top_least: "inv q \<Longrightarrow> front q = Some x \<Longrightarrow> x \<in># contents q \<and> (\<forall>y \<in># contents q. key x \<le> key y)"
    and pop_inv: "inv q \<Longrightarrow> front q = Some x \<Longrightarrow> inv (pop q)"
    and pop_contents: "inv q \<Longrightarrow> front q = Some x \<Longrightarrow> contents q = add_mset x (contents (pop q))"
begin

text \<open>
  Popping all keys below a bound: the loop ends, what it returns is what was below the bound,
  in order of the keys, and the rest stays.
\<close>

lemma pop_while_below:
  assumes "inv q"
  shows "\<exists>xs q'. pop_while front pop (\<lambda>x. key x < b) q = Some (xs, q') \<and> inv q' \<and>
    sorted (map key xs) \<and> mset xs = filter_mset (\<lambda>x. key x < b) (contents q) \<and>
    contents q' = filter_mset (\<lambda>x. \<not> key x < b) (contents q)"
  using assms
proof (induction "size (contents q)" arbitrary: q rule: less_induct)
  case less
  show ?case
  proof (cases "front q")
    case None
    with less.prems have "contents q = {#}" by (simp add: top_none)
    with None less.prems show ?thesis by (subst pop_while.simps) simp
  next
    case (Some x)
    note l = top_least [OF less.prems Some] and c = pop_contents [OF less.prems Some]
    show ?thesis
    proof (cases "key x < b")
      case False
      have "filter_mset (\<lambda>x. key x < b) (contents q) = {#}"
        "filter_mset (\<lambda>x. \<not> key x < b) (contents q) = contents q"
        using False l by (auto simp: multiset_eq_iff count_eq_zero_iff)
      with False Some less.prems show ?thesis by (subst pop_while.simps) simp
    next
      case True
      have "size (contents (pop q)) < size (contents q)" using c by simp
      from less.hyps [OF this pop_inv [OF less.prems Some]] obtain xs q' where x:
        "pop_while front pop (\<lambda>x. key x < b) (pop q) = Some (xs, q')" "inv q'" "sorted (map key xs)"
        "mset xs = filter_mset (\<lambda>x. key x < b) (contents (pop q))"
        "contents q' = filter_mset (\<lambda>x. \<not> key x < b) (contents (pop q))" by blast
      have "key x \<le> key y" if "y \<in> set xs" for y
      proof -
        have "y \<in># contents (pop q)" using that x(4) by (metis filter_mset_eq_conv mset_subset_eqD set_mset_mset multiset_filter_subset)
        with l c show ?thesis by simp
      qed
      with x True Some c show ?thesis by (subst pop_while.simps) simp
    qed
  qed
qed

lemma push_earliest:
  assumes "inv q" and "front q = Some x" and "\<forall>y \<in># contents q. b \<le> key y" and "key x \<le> key y"
  shows "\<forall>y \<in># contents (push y q). b \<le> key y"
  using assms top_least [OF assms(1,2)] by (auto simp: push_contents)

end

definition pq_inv :: "'f timer list \<Rightarrow> bool" where
  "pq_inv q = sorted (map due q)"

lemma pq_push_simps:
  "pq_push t [] = [t]"
  "pq_push t (u # q) = (if due t < due u then t # u # q else u # pq_push t q)"
  by (simp_all add: pq_push_def cmp_def timer_greater_def date_greater_def)

lemma pq_push_mset: "mset (pq_push t q) = add_mset t (mset q)"
  by (induction q) (simp_all add: pq_push_simps)

lemma set_pq_push [simp]: "set (pq_push t q) = insert t (set q)"
  using arg_cong [OF pq_push_mset, of set_mset t q] by simp

lemma pq_push_sorted: "pq_inv q \<Longrightarrow> pq_inv (pq_push t q)"
  by (induction q) (auto simp: pq_inv_def pq_push_simps)

interpretation pq: timer_pq pq_push pq_top pq_pop mset pq_inv due
  by unfold_locales
    (auto simp: pq_push_mset pq_top_def pq_pop_def pq_inv_def
      intro: pq_push_sorted [unfolded pq_inv_def] split: list.splits)

section \<open>The timer descriptor\<close>

record timespec =
  tv_sec :: int
  tv_nsec :: int

definition how_much_time_from_now :: "date \<Rightarrow> date \<Rightarrow> timespec res" where
  "how_much_time_from_now wh now =
     bind_res (check (int64_ok (wh - now)) OutOfBounds) (\<lambda>_.
     let micro_seconds = wh - now;
         micro_seconds = (if micro_seconds < 100 then 100 else micro_seconds)
     in Inr \<lparr>tv_sec = micro_seconds sdiv 1000000, tv_nsec = (micro_seconds smod 1000000) * 1000\<rparr>)"

text \<open>
  The queue with its descriptor. \<open>armed\<close> is what \<open>timerfd_settime\<close> was last given, with
  the time at which it was; a descriptor that has fired is not armed.
\<close>

record 'f timer_queue =
  timers :: "'f timer list"
  armed :: "(date \<times> timespec) option"
  calling_expired_timers :: bool
  timer_created :: nat

definition tq_empty :: "nat \<Rightarrow> 'f timer_queue" where
  "tq_empty created = \<lparr>timers = [], armed = None, calling_expired_timers = False, timer_created = created\<rparr>"

definition reset_timer_fd :: "date \<Rightarrow> date \<Rightarrow> 'f timer_queue \<Rightarrow> 'f timer_queue res" where
  "reset_timer_fd expiration now q =
     bind_res (how_much_time_from_now expiration now) (\<lambda>ts. Inr (q\<lparr>armed := Some (now, ts)\<rparr>))"

text \<open>Reading a descriptor that has fired takes its expiration count.\<close>

definition read_timer_fd :: "'f timer_queue \<Rightarrow> 'f timer_queue" where
  "read_timer_fd q = q\<lparr>armed := None\<rparr>"

section \<open>The operations\<close>

text \<open>\<open>in_loop\<close>: whether the caller is the thread of the loop, which the functions assert.\<close>

definition tq_insert :: "bool \<Rightarrow> 'f timer \<Rightarrow> 'f timer_queue \<Rightarrow> (bool \<times> 'f timer_queue) res" where
  "tq_insert in_loop t q =
     bind_res (check in_loop ProcessExit) (\<lambda>_.
     let earliest_changed = (case pq_top (timers q) of None \<Rightarrow> True | Some u \<Rightarrow> timer_less t u)
     in Inr (earliest_changed, q\<lparr>timers := pq_push t (timers q)\<rparr>))"

definition add_timer_in_loop :: "bool \<Rightarrow> date \<Rightarrow> 'f timer \<Rightarrow> 'f timer_queue \<Rightarrow> 'f timer_queue res" where
  "add_timer_in_loop in_loop now t q =
     bind_res (check in_loop ProcessExit) (\<lambda>_.
     bind_res (tq_insert in_loop t q) (\<lambda>(earliest_changed, q).
     if earliest_changed then reset_timer_fd (due t) now q else Inr q))"

text \<open>
  \<open>AddTimer\<close> makes the timer in the calling thread; the second result is what it passes to
  \<open>RunInLoop\<close>, the timer for \<open>AddTimerInLoop\<close>.
\<close>

definition add_timer :: "'f \<Rightarrow> date \<Rightarrow> dbl \<Rightarrow> 'f timer_queue \<Rightarrow> 'f timer_queue \<times> 'f timer" where
  "add_timer cb w i q = (q\<lparr>timer_created := Suc (timer_created q)\<rparr>, timer_new cb w i (timer_created q))"

text \<open>
  A call of \<open>AddTimer\<close> made by a callback: callback, due time, interval, and the clock when
  \<open>ResetTimerFd\<close> reads it. In the loop thread \<open>RunInLoop\<close> runs \<open>AddTimerInLoop\<close> at once.
\<close>

type_synonym 'f add_call = "'f \<times> date \<times> dbl \<times> date"

fun run_adds :: "bool \<Rightarrow> 'f add_call list \<Rightarrow> 'f timer_queue \<Rightarrow> 'f timer_queue res" where
  "run_adds in_loop [] q = Inr q"
| "run_adds in_loop ((cb, w, i, now) # cs) q =
     (let (q, t) = add_timer cb w i q in
      bind_res (add_timer_in_loop in_loop now t q) (run_adds in_loop cs))"

text \<open>Running the callbacks: \<open>calls\<close> says which timers a callback adds.\<close>

fun run_timers :: "bool \<Rightarrow> ('f \<Rightarrow> 'f add_call list) \<Rightarrow> 'f timer list \<Rightarrow> 'f timer_queue \<Rightarrow> 'f timer_queue res" where
  "run_timers in_loop calls [] q = Inr q"
| "run_timers in_loop calls (t # ts) q =
     bind_res (run_adds in_loop (calls (callback t)) q) (run_timers in_loop calls ts)"

definition get_expired :: "date \<Rightarrow> 'f timer_queue \<Rightarrow> ('f timer list \<times> 'f timer_queue) option" where
  "get_expired now q =
     (case pop_while pq_top pq_pop (\<lambda>t. date_less (due t) now) (timers q) of
        None \<Rightarrow> None | Some (ts, rest) \<Rightarrow> Some (ts, q\<lparr>timers := rest\<rparr>))"

fun restart_all :: "bool \<Rightarrow> date \<Rightarrow> 'f timer list \<Rightarrow> 'f timer_queue \<Rightarrow> 'f timer_queue res" where
  "restart_all in_loop now [] q = Inr q"
| "restart_all in_loop now (t # ts) q =
     bind_res (if repeat t
               then bind_res (timer_restart t now) (\<lambda>t.
                    bind_res (tq_insert in_loop t q) (\<lambda>(_, q). Inr q))
               else Inr q) (restart_all in_loop now ts)"

definition tq_reset :: "bool \<Rightarrow> 'f timer list \<Rightarrow> date \<Rightarrow> date \<Rightarrow> 'f timer_queue \<Rightarrow> 'f timer_queue res" where
  "tq_reset in_loop expired now now' q =
     bind_res (restart_all in_loop now expired q) (\<lambda>q.
     case pq_top (timers q) of None \<Rightarrow> Inr q | Some t \<Rightarrow> reset_timer_fd (due t) now' q)"

text \<open>\<open>HandleRead\<close> up to the loop over the expired timers, which are its first result.\<close>

definition tq_begin :: "date \<Rightarrow> 'f timer_queue \<Rightarrow> ('f timer list \<times> 'f timer_queue) res" where
  "tq_begin now q =
     (case get_expired now (read_timer_fd q) of
        None \<Rightarrow> Inl TooDeep
      | Some (expired, q) \<Rightarrow> Inr (expired, q\<lparr>calling_expired_timers := True\<rparr>))"

text \<open>
  \<open>HandleRead\<close>, with the clock at its start and at its last \<open>ResetTimerFd\<close>; the first
  result is the timers it ran, in order. Here the callbacks only add timers; \<open>Reactor\<close> lets
  them make any call.
\<close>

definition tq_handle_read ::
  "bool \<Rightarrow> ('f \<Rightarrow> 'f add_call list) \<Rightarrow> date \<Rightarrow> date \<Rightarrow> 'f timer_queue \<Rightarrow> ('f timer list \<times> 'f timer_queue) res" where
  "tq_handle_read in_loop calls now now' q =
     bind_res (check in_loop ProcessExit) (\<lambda>_.
     bind_res (tq_begin now q) (\<lambda>(expired, q).
     bind_res (run_timers in_loop calls expired q) (\<lambda>q.
     bind_res (tq_reset in_loop expired now now' (q\<lparr>calling_expired_timers := False\<rparr>)) (\<lambda>q.
     Inr (expired, q)))))"

section \<open>When the descriptor fires\<close>

text \<open>Dates up to the year 146000 or so; differences of two of them fit 64 bits.\<close>

definition date_range :: "date \<Rightarrow> bool" where
  "date_range d \<longleftrightarrow> 0 \<le> d \<and> d < 2 ^ 62"

text \<open>
  What \<open>timerfd_settime\<close> must be given at time \<open>fst a\<close> for a timer due at \<open>w\<close>: a valid
  \<open>timespec\<close> of exactly the time left in nanoseconds, or of 100 microseconds if less is left.
  It is never zero, which would disarm the descriptor.
\<close>

definition armed_for :: "date \<Rightarrow> date \<times> timespec \<Rightarrow> bool" where
  "armed_for w a \<longleftrightarrow> 0 \<le> tv_sec (snd a) \<and> 0 \<le> tv_nsec (snd a) \<and> tv_nsec (snd a) < 1000000000 \<and>
     tv_sec (snd a) * 1000000000 + tv_nsec (snd a) = max 100 (w - fst a) * 1000"

lemma armed_for_nonzero: "armed_for w a \<Longrightarrow> 0 < tv_sec (snd a) \<or> 0 < tv_nsec (snd a)"
  by (auto simp: armed_for_def)

lemma how_much_E:
  assumes "date_range w" and "date_range now"
  obtains ts where "how_much_time_from_now w now = Inr ts" "armed_for w (now, ts)"
proof -
  let ?m = "max 100 (w - now)"
  let ?ts = "\<lparr>tv_sec = ?m div 1000000, tv_nsec = ?m mod 1000000 * 1000\<rparr>"
  have d: "int64_ok (w - now)"
    using assms by (simp add: int64_ok_def date_range_def)
  have e: "?m sdiv 1000000 = ?m div 1000000" "?m smod 1000000 = ?m mod 1000000"
    by (simp_all add: signed_divide_int_def smod_int_alt_def sgn_if)
  have m: "(if w - now < 100 then 100 else w - now) = ?m" by simp
  have "how_much_time_from_now w now = Inr ?ts"
    unfolding how_much_time_from_now_def Let_def m e using d by simp
  moreover have "a * 1000000000 + b * 1000 = m * 1000" if "a * 1000000 + b = m" for a b m :: int
    using that by linarith
  from this [OF div_mult_mod_eq] have "?m div 1000000 * 1000000000 + ?m mod 1000000 * 1000 = ?m * 1000" .
  moreover have "0 \<le> ?m div 1000000" by (intro pos_imp_zdiv_nonneg_iff [THEN iffD2]) simp_all
  ultimately show ?thesis by (intro that [of ?ts]) (simp_all add: armed_for_def)
qed

text \<open>
  The invariant: the list is a priority queue of dates in range, and unless it is empty the
  descriptor is armed for the earliest due time, to the microsecond.
\<close>

definition tq_inv :: "'f timer_queue \<Rightarrow> bool" where
  "tq_inv q \<longleftrightarrow> pq_inv (timers q) \<and> (\<forall>t \<in> set (timers q). date_range (due t))"

definition earliest :: "'f timer_queue \<Rightarrow> date" where
  "earliest q = Min (due ` set (timers q))"

definition tq_armed :: "'f timer_queue \<Rightarrow> bool" where
  "tq_armed q \<longleftrightarrow> timers q \<noteq> [] \<longrightarrow> (case armed q of None \<Rightarrow> False | Some a \<Rightarrow> armed_for (earliest q) a)"

lemma earliest_eq: "t \<in> set (timers q) \<Longrightarrow> (\<And>u. u \<in> set (timers q) \<Longrightarrow> due t \<le> due u) \<Longrightarrow> earliest q = due t"
  unfolding earliest_def by (intro Min_eqI) auto

lemma reset_timer_fd_E:
  assumes "date_range w" and "date_range now"
  obtains a where "reset_timer_fd w now q = Inr (q\<lparr>armed := Some a\<rparr>)" "fst a = now" "armed_for w a"
proof -
  obtain ts where "how_much_time_from_now w now = Inr ts" "armed_for w (now, ts)"
    by (rule how_much_E [OF assms])
  then show ?thesis by (intro that [of "(now, ts)"]) (simp_all add: reset_timer_fd_def)
qed

lemma tq_insert_ok:
  assumes "tq_inv q" and "date_range (due t)"
  shows "tq_insert True t q = Inr (case pq_top (timers q) of None \<Rightarrow> True | Some u \<Rightarrow> due t < due u,
      q\<lparr>timers := pq_push t (timers q)\<rparr>)"
    "tq_inv (q\<lparr>timers := pq_push t (timers q)\<rparr>)"
  using assms pq.push_inv [of "timers q" t]
  by (auto simp: tq_insert_def timer_less_def date_less_def tq_inv_def split: option.split)

lemma add_timer_in_loop_E:
  assumes "tq_inv q" and "date_range (due t)" and "date_range now"
  obtains q' where "add_timer_in_loop True now t q = Inr q'" "tq_inv q'"
    "mset (timers q') = add_mset t (mset (timers q))" "timer_created q' = timer_created q"
    "tq_armed q \<longrightarrow> tq_armed q'"
proof -
  let ?q = "q\<lparr>timers := pq_push t (timers q)\<rparr>"
  note i = tq_insert_ok [OF assms(1,2)]
  have pi: "pq_inv (timers q)" using assms(1) by (simp add: tq_inv_def)
  obtain a where a: "reset_timer_fd (due t) now ?q = Inr (?q\<lparr>armed := Some a\<rparr>)" "armed_for (due t) a"
    by (rule reset_timer_fd_E [OF assms(2,3)])
  show ?thesis
  proof (cases "case pq_top (timers q) of None \<Rightarrow> True | Some u \<Rightarrow> due t < due u")
    case True
    have "\<forall>u \<in> set (timers q). due t \<le> due u"
      using True pq.top_none [OF pi] pq.top_least [OF pi] by (fastforce split: option.splits)
    then have "earliest (?q\<lparr>armed := Some a\<rparr>) = due t" by (intro earliest_eq) auto
    then have "tq_armed (?q\<lparr>armed := Some a\<rparr>)"
      using a(2) by (simp add: tq_armed_def)
    with True i a(1) show ?thesis
      by (intro that [of "?q\<lparr>armed := Some a\<rparr>"])
        (simp_all add: add_timer_in_loop_def pq_push_mset tq_inv_def)
  next
    case False
    then obtain u where u: "pq_top (timers q) = Some u" "due u \<le> due t"
      by (auto split: option.splits)
    then have l: "u \<in> set (timers q)" "\<And>v. v \<in> set (timers q) \<Longrightarrow> due u \<le> due v"
      using pq.top_least [OF pi] by auto
    then have "earliest q = due u" "earliest ?q = due u"
      using u(2) by (auto intro!: earliest_eq)
    then have "tq_armed q \<longrightarrow> tq_armed ?q"
      using l(1) by (auto simp: tq_armed_def split: option.split)
    with False i show ?thesis
      by (intro that [of ?q]) (simp_all add: add_timer_in_loop_def pq_push_mset)
  qed
qed

section \<open>What the callbacks add\<close>

fun new_timers :: "nat \<Rightarrow> 'f add_call list \<Rightarrow> 'f timer list" where
  "new_timers seq [] = []"
| "new_timers seq ((cb, w, i, now) # cs) = timer_new cb w i seq # new_timers (Suc seq) cs"

definition call_range :: "'f add_call \<Rightarrow> bool" where
  "call_range c = (case c of (cb, w, i, now) \<Rightarrow> date_range w \<and> date_range now)"

lemma new_timers_append:
  "new_timers seq (cs @ ds) = new_timers seq cs @ new_timers (seq + length cs) ds"
  by (induction seq cs rule: new_timers.induct) auto

lemma due_timer_new [simp]: "due (timer_new cb w i seq) = w"
  by (simp add: timer_new_def)

lemma run_adds_ok:
  assumes "tq_inv q" and "list_all call_range cs"
  shows "\<exists>q'. run_adds True cs q = Inr q' \<and> tq_inv q' \<and>
    mset (timers q') = mset (timers q) + mset (new_timers (timer_created q) cs) \<and>
    timer_created q' = timer_created q + length cs"
  using assms
proof (induction cs arbitrary: q)
  case (Cons c cs)
  obtain cb w i now where c: "c = (cb, w, i, now)" by (cases c)
  let ?q = "q\<lparr>timer_created := Suc (timer_created q)\<rparr>" and ?t = "timer_new cb w i (timer_created q)"
  have "tq_inv ?q" "date_range (due ?t)" "date_range now"
    using Cons.prems by (simp_all add: tq_inv_def c call_range_def)
  then obtain r where r: "add_timer_in_loop True now ?t ?q = Inr r" "tq_inv r"
    "mset (timers r) = add_mset ?t (mset (timers q))" "timer_created r = Suc (timer_created q)"
    by (rule add_timer_in_loop_E) auto
  from Cons.IH [OF r(2)] Cons.prems(2) r show ?case
    by (auto simp: c add_timer_def)
qed simp

lemma run_timers_ok:
  assumes "tq_inv q" and "\<And>t. t \<in> set ts \<Longrightarrow> list_all call_range (calls (callback t))"
  shows "\<exists>q'. run_timers True calls ts q = Inr q' \<and> tq_inv q' \<and>
    mset (timers q') = mset (timers q) +
      mset (new_timers (timer_created q) (concat (map (\<lambda>t. calls (callback t)) ts)))"
  using assms
proof (induction ts arbitrary: q)
  case (Cons t ts)
  have "list_all call_range (calls (callback t))" using Cons.prems(2) [of t] by simp
  from run_adds_ok [OF Cons.prems(1) this] obtain r where
    r: "run_adds True (calls (callback t)) q = Inr r" "tq_inv r"
    "mset (timers r) = mset (timers q) + mset (new_timers (timer_created q) (calls (callback t)))"
    "timer_created r = timer_created q + length (calls (callback t))" by blast
  from Cons.IH [OF r(2)] Cons.prems(2) obtain r' where "run_timers True calls ts r = Inr r'" "tq_inv r'"
    "mset (timers r') = mset (timers r) +
      mset (new_timers (timer_created r) (concat (map (\<lambda>t. calls (callback t)) ts)))"
    by auto
  with r show ?case by (auto simp: new_timers_append add_ac)
qed simp

text \<open>A periodic timer as \<open>Restart\<close> leaves it.\<close>

definition restarted :: "date \<Rightarrow> 'f timer \<Rightarrow> 'f timer" where
  "restarted now t = (case date_after now (interval t) of Inr d \<Rightarrow> t\<lparr>due := d\<rparr> | Inl e \<Rightarrow> t)"

definition restart_range :: "date \<Rightarrow> 'f timer \<Rightarrow> bool" where
  "restart_range now t \<longleftrightarrow> repeat t \<longrightarrow> (case date_after now (interval t) of Inr d \<Rightarrow> date_range d | Inl e \<Rightarrow> False)"

lemma restart_all_ok:
  assumes "tq_inv q" and "list_all (restart_range now) ts"
  shows "\<exists>q'. restart_all True now ts q = Inr q' \<and> tq_inv q' \<and>
    mset (timers q') = mset (timers q) + mset (map (restarted now) (filter repeat ts)) \<and>
    timer_created q' = timer_created q \<and> calling_expired_timers q' = calling_expired_timers q"
  using assms
proof (induction ts arbitrary: q)
  case (Cons t ts)
  show ?case
  proof (cases "repeat t")
    case True
    with Cons.prems(2) obtain d where d: "date_after now (interval t) = Inr d" "date_range d"
      by (auto simp: restart_range_def split: sum.splits)
    let ?t = "t\<lparr>due := d\<rparr>" and ?q = "q\<lparr>timers := pq_push (t\<lparr>due := d\<rparr>) (timers q)\<rparr>"
    have "timer_restart t now = Inr ?t" "restarted now t = ?t"
      using True d by (simp_all add: timer_restart_def restarted_def)
    moreover have i: "tq_insert True ?t q = Inr (case pq_top (timers q) of None \<Rightarrow> True | Some u \<Rightarrow> due ?t < due u, ?q)"
      "tq_inv ?q"
      using tq_insert_ok [OF Cons.prems(1), of ?t] d(2) by simp_all
    moreover obtain q' where "restart_all True now ts ?q = Inr q'" "tq_inv q'"
      "mset (timers q') = mset (timers ?q) + mset (map (restarted now) (filter repeat ts))"
      "timer_created q' = timer_created q" "calling_expired_timers q' = calling_expired_timers q"
      using Cons.IH [OF i(2)] Cons.prems(2) by auto
    ultimately show ?thesis using True by (simp add: pq_push_mset)
  qed (use Cons in auto)
qed simp

lemma tq_begin_ok:
  assumes "tq_inv q"
  obtains fired rest where "tq_begin now q = Inr (fired, q\<lparr>armed := None, timers := rest, calling_expired_timers := True\<rparr>)"
    "sorted (map due fired)" "mset fired = filter_mset (\<lambda>t. due t < now) (mset (timers q))"
    "mset rest = filter_mset (\<lambda>t. \<not> due t < now) (mset (timers q))"
    "set fired \<subseteq> set (timers q)" "set rest \<subseteq> set (timers q)"
    "tq_inv (q\<lparr>armed := None, timers := rest, calling_expired_timers := True\<rparr>)"
proof -
  have "pq_inv (timers q)" using assms by (simp add: tq_inv_def)
  from pq.pop_while_below [OF this, of now] obtain fired rest where p:
    "pop_while pq_top pq_pop (\<lambda>t. due t < now) (timers q) = Some (fired, rest)" "pq_inv rest"
    "sorted (map due fired)" "mset fired = filter_mset (\<lambda>t. due t < now) (mset (timers q))"
    "mset rest = filter_mset (\<lambda>t. \<not> due t < now) (mset (timers q))" by blast
  have sub: "set fired \<subseteq> set (timers q)" "set rest \<subseteq> set (timers q)"
    using arg_cong [OF p(4), of set_mset] arg_cong [OF p(5), of set_mset] by auto
  have "tq_begin now q = Inr (fired, q\<lparr>armed := None, timers := rest, calling_expired_timers := True\<rparr>)"
    using p(1) by (simp add: tq_begin_def read_timer_fd_def get_expired_def date_less_def)
  moreover have "tq_inv (q\<lparr>armed := None, timers := rest, calling_expired_timers := True\<rparr>)"
    using assms p(2) sub(2) by (auto simp: tq_inv_def)
  ultimately show ?thesis using that p(3-5) sub by blast
qed

lemma tq_reset_ok:
  assumes "tq_inv q" and "list_all (restart_range now) ts" and "date_range now'"
  shows "\<exists>q'. tq_reset True ts now now' q = Inr q' \<and> tq_inv q' \<and> tq_armed q' \<and> (timers q' \<noteq> [] \<longrightarrow> map_option fst (armed q') = Some now') \<and>
    mset (timers q') = mset (timers q) + mset (map (restarted now) (filter repeat ts)) \<and>
    timer_created q' = timer_created q \<and> calling_expired_timers q' = calling_expired_timers q"
proof -
  obtain s where s: "restart_all True now ts q = Inr s" "tq_inv s"
    "mset (timers s) = mset (timers q) + mset (map (restarted now) (filter repeat ts))"
    "timer_created s = timer_created q" "calling_expired_timers s = calling_expired_timers q"
    using restart_all_ok [OF assms(1,2)] by auto
  have ps: "pq_inv (timers s)" using s(2) by (simp add: tq_inv_def)
  show ?thesis
  proof (cases "pq_top (timers s)")
    case None
    with pq.top_none [OF ps] s show ?thesis by (simp add: tq_reset_def tq_armed_def)
  next
    case (Some t)
    note l = pq.top_least [OF ps Some]
    have "date_range (due t)" using l s(2) by (simp add: tq_inv_def)
    then obtain a where a: "reset_timer_fd (due t) now' s = Inr (s\<lparr>armed := Some a\<rparr>)"
      "fst a = now'" "armed_for (due t) a"
      using assms(3) by (rule reset_timer_fd_E)
    have "earliest (s\<lparr>armed := Some a\<rparr>) = due t" using l by (intro earliest_eq) auto
    then have "tq_armed (s\<lparr>armed := Some a\<rparr>)"
      using a(3) by (simp add: tq_armed_def)
    moreover have "\<exists>b. a = (now', b)" using a(2) by (cases a) simp
    ultimately show ?thesis using Some a(1) s by (simp add: tq_reset_def tq_inv_def)
  qed
qed

section \<open>Properties\<close>

text \<open>\<open>AddTimerInLoop\<close> puts the timer into the queue and keeps the descriptor armed for
  the earliest due time; the time it programs is never zero, which would disarm the descriptor,
  and never negative. Outside the loop's thread it exits the process.\<close>

theorem add_timer_keeps_armed:
  assumes "tq_inv q" and "tq_armed q" and "date_range (due t)" and "date_range now"
  shows "(\<exists>q'. add_timer_in_loop True now t q = Inr q' \<and> tq_inv q' \<and> tq_armed q' \<and>
      mset (timers q') = add_mset t (mset (timers q))) \<and>
    (\<exists>ts. how_much_time_from_now (due t) now = Inr ts \<and> 0 \<le> tv_sec ts \<and> 0 \<le> tv_nsec ts \<and>
      tv_nsec ts < 1000000000 \<and> (0 < tv_sec ts \<or> 0 < tv_nsec ts)) \<and>
    add_timer_in_loop False now t q = Inl ProcessExit"
proof -
  obtain q' where "add_timer_in_loop True now t q = Inr q'" "tq_inv q'"
    "mset (timers q') = add_mset t (mset (timers q))" "tq_armed q \<longrightarrow> tq_armed q'"
    by (rule add_timer_in_loop_E [OF assms(1,3,4)])
  moreover obtain ts where ts: "how_much_time_from_now (due t) now = Inr ts" "armed_for (due t) (now, ts)"
    by (rule how_much_E [OF assms(3,4)])
  moreover have "0 < tv_sec ts \<or> 0 < tv_nsec ts" using armed_for_nonzero [OF ts(2)] by simp
  ultimately show ?thesis using assms(2) by (auto simp: add_timer_in_loop_def armed_for_def)
qed

theorem add_timer_keeps_armed_witness:
  "\<exists>q'. add_timer_in_loop True 1000 (timer_new () 5000 (Dbl 1 0) 0) (tq_empty 0) = Inr q' \<and> tq_armed q'"
proof -
  have "tq_inv (tq_empty 0 :: unit timer_queue)" "tq_armed (tq_empty 0 :: unit timer_queue)"
    by (simp_all add: tq_inv_def tq_armed_def tq_empty_def pq_inv_def)
  from add_timer_keeps_armed [OF this, of "timer_new () 5000 (Dbl 1 0) 0" 1000] show ?thesis
    by (auto simp: date_range_def)
qed

text \<open>C24: When the descriptor fires, \<open>HandleRead\<close> ends and runs exactly the timers due before
  its clock reading, each once and in order of their due times. Afterwards the queue holds the
  timers not yet due, what the callbacks added, and the periodic ones with their next due
  time. If it holds any, the descriptor has just been armed again, with exactly the time left
  until the earliest of them is due (100 microseconds if less is left, and never zero).\<close>

theorem handle_read_runs_expired:
  assumes "tq_inv q" and "date_range now'" and "list_all (restart_range now) (timers q)"
    and "\<And>f. list_all call_range (calls f)"
  shows "\<exists>fired q'. tq_handle_read True calls now now' q = Inr (fired, q') \<and>
    sorted (map due fired) \<and> mset fired = filter_mset (\<lambda>t. due t < now) (mset (timers q)) \<and>
    mset (timers q') = filter_mset (\<lambda>t. \<not> due t < now) (mset (timers q)) +
      mset (new_timers (timer_created q) (concat (map (\<lambda>t. calls (callback t)) fired))) +
      mset (map (restarted now) (filter repeat fired)) \<and>
    tq_inv q' \<and> tq_armed q' \<and>
    (timers q' \<noteq> [] \<longrightarrow> (\<exists>ts. armed q' = Some (now', ts) \<and> 0 \<le> tv_sec ts \<and> 0 \<le> tv_nsec ts \<and> tv_nsec ts < 1000000000 \<and>
      tv_sec ts * 1000000000 + tv_nsec ts = max 100 (Min (due ` set (timers q')) - now') * 1000))"
proof -
  obtain fired rest where p: "tq_begin now q = Inr (fired, q\<lparr>armed := None, timers := rest, calling_expired_timers := True\<rparr>)"
    "sorted (map due fired)" "mset fired = filter_mset (\<lambda>t. due t < now) (mset (timers q))"
    "mset rest = filter_mset (\<lambda>t. \<not> due t < now) (mset (timers q))" "set fired \<subseteq> set (timers q)"
    "tq_inv (q\<lparr>armed := None, timers := rest, calling_expired_timers := True\<rparr>)"
    by (rule tq_begin_ok [OF assms(1)])
  from run_timers_ok [OF p(6), of fired calls] assms(4) obtain r where
    r: "run_timers True calls fired (q\<lparr>armed := None, timers := rest, calling_expired_timers := True\<rparr>) = Inr r"
    "tq_inv r" "mset (timers r) = mset rest +
      mset (new_timers (timer_created q) (concat (map (\<lambda>t. calls (callback t)) fired)))" by auto
  have i: "tq_inv (r\<lparr>calling_expired_timers := False\<rparr>)" using r(2) by (simp add: tq_inv_def)
  have l: "list_all (restart_range now) fired" using assms(3) p(5) by (auto simp: list_all_iff)
  obtain q' where "tq_reset True fired now now' (r\<lparr>calling_expired_timers := False\<rparr>) = Inr q'" "tq_inv q'" "tq_armed q'"
    "timers q' \<noteq> [] \<longrightarrow> map_option fst (armed q') = Some now'"
    "mset (timers q') = mset (timers r) + mset (map (restarted now) (filter repeat fired))"
    using tq_reset_ok [OF i l assms(2)] by auto
  moreover from this(3,4) have "timers q' \<noteq> [] \<longrightarrow> (\<exists>ts. armed q' = Some (now', ts) \<and> armed_for (earliest q') (now', ts))"
    by (auto simp: tq_armed_def split: option.splits)
  ultimately show ?thesis using p r by (simp add: tq_handle_read_def armed_for_def earliest_def)
qed

theorem handle_read_runs_expired_witness:
  "\<exists>ran q'. tq_handle_read True (\<lambda>f. []) 1000 1001
      \<lparr>timers = [timer_new CHR ''a'' 500 (Dbl 0 0) 0, timer_new CHR ''b'' 2000 (Dbl 0 0) 1], armed = None,
       calling_expired_timers = False, timer_created = 2\<rparr> = Inr (ran, q') \<and>
    mset ran = {#timer_new CHR ''a'' 500 (Dbl 0 0) 0#} \<and> armed q' = Some (1001, \<lparr>tv_sec = 0, tv_nsec = 999000\<rparr>)"
proof -
  let ?q = "\<lparr>timers = [timer_new CHR ''a'' 500 (Dbl 0 0) 0, timer_new CHR ''b'' 2000 (Dbl 0 0) 1], armed = None,
       calling_expired_timers = False, timer_created = 2\<rparr>"
  have n: "\<not> repeat (timer_new c w (Dbl 0 0) s)" for c :: char and w s
    by (simp add: timer_new_def repeat_threshold_def dbl_less_def dbl_align_def dbl_add_def Let_def
        round53_exact)
  have "tq_inv ?q" by (simp add: tq_inv_def pq_inv_def date_range_def)
  moreover have "ts = \<lparr>tv_sec = 0, tv_nsec = 999000\<rparr>"
    if "0 \<le> tv_sec ts" "0 \<le> tv_nsec ts" "tv_sec ts * 1000000000 + tv_nsec ts = 999000" for ts :: timespec
  proof -
    have "tv_sec ts < 1" using that by linarith
    then have "tv_sec ts = 0" using that(1) by simp
    with that(3) show ?thesis by (cases ts) simp
  qed
  ultimately show ?thesis using handle_read_runs_expired [of ?q 1001 1000 "\<lambda>f. []"] n
    by (fastforce simp: date_range_def restart_range_def)
qed

end
