(* ===== verification/Event_Loop.thy ===== *)
theory Event_Loop
  imports Traces Poller_Channel Timer_Queue
begin

text \<open>
  \<open>EventLoop\<close> (\<open>src/water/net/event_loop.h\<close>, \<open>event_loop.cc\<close>): the loop thread polls,
  dispatches and runs the functions other threads queued; an eventfd wakes it. The loop
  thread is a program counter; other threads are actions that may come at any time. What the
  callbacks of channels and the queued functions do to the loop is left open: while one runs,
  the loop thread may make any calls on the loop. The main results: a queued function never
  waits in a sleeping loop without a wake-up on its way, queued functions run in order, each
  once, and two turns of the loop run all that was queued before. \<open>Reactor\<close> puts the real
  channels, timers and connections in.
\<close>

section \<open>The loop\<close>

text \<open>
  Calls made on the loop. In the loop's thread \<open>RunInLoop\<close> just runs the function, whose own
  calls follow.
\<close>

datatype 'f loop_call = CallRunInLoop 'f | CallQueueInLoop 'f | CallSetQuit

text \<open>What \<open>epoll_wait\<close> reports: the eventfd, or another channel by its address.\<close>

datatype active = ActWakeUp | ActChannel nat

text \<open>
  Where the loop thread stands: outside \<open>Loop\<close>, before the test of \<open>quit_\<close>, in
  \<open>epoll_wait\<close>, dispatching with the channels left, running the swapped-out functions left.
\<close>

datatype 'f el_pc = EOut | ETest | EPoll | EHandling "active list" | ERunning "'f list"

record 'f event_loop =
  looping :: bool
  quit :: bool
  event_handling :: bool
  calling_funcs :: bool
  funcs :: "'f list"
  wake_count :: nat      \<comment> \<open>the counter of the eventfd\<close>
  writers :: nat         \<comment> \<open>other threads between the push and \<open>WakeUp\<close> in \<open>QueueInLoop\<close>\<close>
  el_pc :: "'f el_pc"

definition el_new :: "'f event_loop" where
  "el_new = \<lparr>looping = False, quit = False, event_handling = False, calling_funcs = False, funcs = [],
     wake_count = 0, writers = 0, el_pc = EOut\<rparr>"

definition wake_up :: "'f event_loop \<Rightarrow> 'f event_loop" where
  "wake_up l = l\<lparr>wake_count := Suc (wake_count l)\<rparr>"

text \<open>Reading an eventfd takes the whole count; with a count of zero the read fails.\<close>

definition wake_up_read :: "'f event_loop \<Rightarrow> 'f event_loop" where
  "wake_up_read l = l\<lparr>wake_count := 0\<rparr>"

definition set_quit :: "'f event_loop \<Rightarrow> 'f event_loop" where
  "set_quit l = l\<lparr>quit := True\<rparr>"

text \<open>\<open>QueueInLoop\<close>: the push under the mutex, and whether a wake-up follows.\<close>

definition push_func :: "'f \<Rightarrow> 'f event_loop \<Rightarrow> 'f event_loop" where
  "push_func f l = l\<lparr>funcs := funcs l @ [f]\<rparr>"

definition needs_wake_up :: "bool \<Rightarrow> 'f event_loop \<Rightarrow> bool" where
  "needs_wake_up in_loop l \<longleftrightarrow> \<not> in_loop \<or> calling_funcs l \<or> \<not> looping l"

definition queue_in_loop :: "bool \<Rightarrow> 'f \<Rightarrow> 'f event_loop \<Rightarrow> 'f event_loop" where
  "queue_in_loop in_loop f l =
     (let l = push_func f l in if needs_wake_up in_loop l then wake_up l else l)"

text \<open>\<open>RunInLoop\<close>, over any way to run the function and to queue it.\<close>

definition run_in_loop :: "bool \<Rightarrow> ('f \<Rightarrow> 's \<Rightarrow> 't) \<Rightarrow> ('f \<Rightarrow> 's \<Rightarrow> 't) \<Rightarrow> 'f \<Rightarrow> 's \<Rightarrow> 't" where
  "run_in_loop in_loop exec queue f s = (if in_loop then exec f s else queue f s)"

text \<open>One call on the loop in its own thread: what it does to the loop itself.\<close>

definition do_call :: "'f loop_call \<Rightarrow> 'f event_loop \<Rightarrow> 'f event_loop" where
  "do_call c l =
     (case c of
        CallRunInLoop f \<Rightarrow> run_in_loop True (\<lambda>f l. l) (queue_in_loop True) f l
      | CallQueueInLoop f \<Rightarrow> queue_in_loop True f l
      | CallSetQuit \<Rightarrow> set_quit l)"

text \<open>
  The statements of \<open>Loop\<close> and \<open>DoRunInLoopFuncs\<close> between two control points. The swap
  is one step: it holds the mutex.
\<close>

definition enter_loop :: "'f event_loop \<Rightarrow> 'f event_loop" where
  "enter_loop l = l\<lparr>looping := True, quit := False, el_pc := ETest\<rparr>"

definition test_quit :: "'f event_loop \<Rightarrow> 'f event_loop" where
  "test_quit l = (if quit l then l\<lparr>looping := False, el_pc := EOut\<rparr> else l\<lparr>el_pc := EPoll\<rparr>)"

definition poll_returned :: "active list \<Rightarrow> 'f event_loop \<Rightarrow> 'f event_loop" where
  "poll_returned as l = l\<lparr>event_handling := True, el_pc := EHandling as\<rparr>"

definition swap_funcs :: "'f event_loop \<Rightarrow> 'f event_loop" where
  "swap_funcs l = l\<lparr>event_handling := False, calling_funcs := True, funcs := [], el_pc := ERunning (funcs l)\<rparr>"

definition funcs_done :: "'f event_loop \<Rightarrow> 'f event_loop" where
  "funcs_done l = l\<lparr>calling_funcs := False, el_pc := ETest\<rparr>"

lemmas loop_parts = enter_loop_def test_quit_def poll_returned_def swap_funcs_def funcs_done_def

text \<open>
  Actions. Another thread's \<open>QueueInLoop\<close> (which \<open>RunInLoop\<close> is there) is two of them.
  The loop thread calls on the loop in a callback, in a queued function, or outside \<open>Loop\<close>.
\<close>

datatype 'f el_act =
    OtherPush 'f | OtherWakeUp | OtherSetQuit
  | EnterLoop | TestQuit | PollReturns "active list"
  | HandleActive active | HandledAll | StartFunc 'f | FuncsDone | Call "'f loop_call"

inductive el_step :: "'f event_loop \<Rightarrow> 'f el_act \<Rightarrow> 'f event_loop \<Rightarrow> bool" where
  el_other_push: "el_step l (OtherPush f) ((push_func f l)\<lparr>writers := Suc (writers l)\<rparr>)"
| el_other_wake_up: "writers l = Suc n \<Longrightarrow> el_step l OtherWakeUp (wake_up (l\<lparr>writers := n\<rparr>))"
| el_other_set_quit: "el_step l OtherSetQuit (set_quit l)"
| el_enter_loop: "el_pc l = EOut \<Longrightarrow> \<not> looping l \<Longrightarrow> el_step l EnterLoop (enter_loop l)"
| el_test_quit: "el_pc l = ETest \<Longrightarrow> el_step l TestQuit (test_quit l)"
| el_poll_returns: "el_pc l = EPoll \<Longrightarrow> (ActWakeUp \<in> set as \<longrightarrow> 0 < wake_count l) \<Longrightarrow>
    el_step l (PollReturns as) (poll_returned as l)"
| el_handle_wake_up: "el_pc l = EHandling (ActWakeUp # as) \<Longrightarrow>
    el_step l (HandleActive ActWakeUp) ((wake_up_read l)\<lparr>el_pc := EHandling as\<rparr>)"
| el_handle_channel: "el_pc l = EHandling (ActChannel p # as) \<Longrightarrow>
    el_step l (HandleActive (ActChannel p)) (l\<lparr>el_pc := EHandling as\<rparr>)"
| el_handled_all: "el_pc l = EHandling [] \<Longrightarrow> el_step l HandledAll (swap_funcs l)"
| el_start_func: "el_pc l = ERunning (f # fs) \<Longrightarrow> el_step l (StartFunc f) (l\<lparr>el_pc := ERunning fs\<rparr>)"
| el_funcs_done: "el_pc l = ERunning [] \<Longrightarrow> el_step l FuncsDone (funcs_done l)"
| el_call: "el_pc l \<noteq> ETest \<Longrightarrow> el_pc l \<noteq> EPoll \<Longrightarrow> el_step l (Call c) (do_call c l)"

inductive_cases el_stepE: "el_step l a m"

inductive_simps el_step_simps [step_simps]:
  "el_step l (OtherPush f) m"
  "el_step l OtherWakeUp m"
  "el_step l OtherSetQuit m"
  "el_step l EnterLoop m"
  "el_step l TestQuit m"
  "el_step l (PollReturns as) m"
  "el_step l (HandleActive ActWakeUp) m"
  "el_step l (HandleActive (ActChannel p)) m"
  "el_step l HandledAll m"
  "el_step l (StartFunc f) m"
  "el_step l FuncsDone m"
  "el_step l (Call c) m"

section \<open>Channels and timers of the loop\<close>

definition run_at :: "date \<Rightarrow> 'f \<Rightarrow> 'f timer_queue \<Rightarrow> 'f timer_queue \<times> 'f timer" where
  "run_at time f q = add_timer f time (Dbl 0 0) q"

definition run_after :: "date \<Rightarrow> dbl \<Rightarrow> 'f \<Rightarrow> 'f timer_queue \<Rightarrow> ('f timer_queue \<times> 'f timer) res" where
  "run_after now delay f q = bind_res (date_after now delay) (\<lambda>d. Inr (run_at d f q))"

definition run_every :: "date \<Rightarrow> dbl \<Rightarrow> 'f \<Rightarrow> 'f timer_queue \<Rightarrow> 'f timer_queue \<times> 'f timer" where
  "run_every now secs f q = add_timer f now secs q"

text \<open>
  The channels of a loop: its constructor makes the timer queue, whose constructor registers
  the timer descriptor, and then the eventfd with its channel, which \<open>abort\<close>s without one;
  \<open>has_loop\<close> is whether the thread already has a loop. On destruction the members go in
  reverse order: the wake-up channel, whose descriptor is not closed, then the timer queue, and
  last the poller, which closes its epoll instance, whose interest list the kernel frees then.
  The destructors also give the descriptors they close, in order.
\<close>

definition tq_ctor :: "(int \<Rightarrow> bool) \<Rightarrow> 'f \<Rightarrow> nat \<Rightarrow> int \<Rightarrow> 'f poller \<Rightarrow> 'f poller res" where
  "tq_ctor valid cb p fd s =
     chan_apply True valid EnableReading p (s\<lparr>heap := (heap s)(p \<mapsto> set_read_callback cb (channel_new fd))\<rparr>)"

definition tq_dtor :: "bool \<Rightarrow> (int \<Rightarrow> bool) \<Rightarrow> nat \<Rightarrow> int \<Rightarrow> 'f poller \<Rightarrow> ('f poller \<times> int list) res" where
  "tq_dtor in_loop valid p fd s =
     bind_res (chan_apply in_loop valid DisableAll p s) (\<lambda>s.
     bind_res (chan_remove in_loop None valid p s) (\<lambda>s.
     Inr (release p fd s, [fd])))"

definition poller_dtor :: "int \<Rightarrow> 'f poller \<Rightarrow> 'f poller \<times> int list" where
  "poller_dtor epoll_fd s = (s\<lparr>channels := Map.empty, interests := Map.empty\<rparr>, [epoll_fd])"

definition loop_ctor ::
  "(int \<Rightarrow> bool) \<Rightarrow> bool \<Rightarrow> 'f \<Rightarrow> 'f \<Rightarrow> nat \<times> int \<Rightarrow> nat \<times> int \<Rightarrow> 'f poller res" where
  "loop_ctor valid has_loop timer_cb wake_cb timer wake =
     bind_res (tq_ctor valid timer_cb (fst timer) (snd timer) (poller_new Map.empty)) (\<lambda>s.
     bind_res (check (0 \<le> snd wake) ProcessExit) (\<lambda>_.
     bind_res (check (\<not> has_loop) AssertFailed) (\<lambda>_.
     chan_apply True valid EnableReading (fst wake)
       (s\<lparr>heap := (heap s)(fst wake \<mapsto> set_read_callback wake_cb (channel_new (snd wake)))\<rparr>))))"

definition loop_dtor ::
  "bool \<Rightarrow> (int \<Rightarrow> bool) \<Rightarrow> bool \<Rightarrow> int \<Rightarrow> nat \<times> int \<Rightarrow> nat \<times> int \<Rightarrow> 'f poller \<Rightarrow> ('f poller \<times> int list) res" where
  "loop_dtor in_loop valid is_looping epoll_fd timer wake s =
     bind_res (check (\<not> is_looping) AssertFailed) (\<lambda>_.
     bind_res (tq_dtor in_loop valid (fst timer) (snd timer) (s\<lparr>heap := (heap s)(fst wake := None)\<rparr>)) (\<lambda>(s, closed).
     let (s, closed') = poller_dtor epoll_fd s in Inr (s, closed @ closed')))"

section \<open>The wake-up invariant\<close>

text \<open>
  A function in the queue is on its way: the eventfd is readable, a thread is about to write
  it, or the loop thread will swap the queue before it polls again.
\<close>

definition will_swap :: "'f el_pc \<Rightarrow> bool" where
  "will_swap p = (case p of EHandling as \<Rightarrow> True | _ \<Rightarrow> False)"

definition in_funcs :: "'f el_pc \<Rightarrow> bool" where
  "in_funcs p = (case p of ERunning fs \<Rightarrow> True | _ \<Rightarrow> False)"

lemma el_pc_simps [simp]:
  "will_swap (EHandling as)" "\<not> will_swap EOut" "\<not> will_swap ETest" "\<not> will_swap EPoll" "\<not> will_swap (ERunning fs)"
  "in_funcs (ERunning fs)" "\<not> in_funcs EOut" "\<not> in_funcs ETest" "\<not> in_funcs EPoll" "\<not> in_funcs (EHandling as)"
  by (simp_all add: will_swap_def in_funcs_def)

definition el_inv :: "'f event_loop \<Rightarrow> bool" where
  "el_inv l \<longleftrightarrow> (funcs l \<noteq> [] \<longrightarrow> 0 < wake_count l \<or> 0 < writers l \<or> will_swap (el_pc l)) \<and>
     (looping l \<longleftrightarrow> el_pc l \<noteq> EOut) \<and> (calling_funcs l \<longleftrightarrow> in_funcs (el_pc l)) \<and>
     (event_handling l \<longleftrightarrow> will_swap (el_pc l))"

lemma el_inv_new: "el_inv el_new"
  by (simp add: el_inv_def el_new_def)

lemma queue_in_loop_fields:
  "looping (queue_in_loop i f l) = looping l" "calling_funcs (queue_in_loop i f l) = calling_funcs l"
  "event_handling (queue_in_loop i f l) = event_handling l" "quit (queue_in_loop i f l) = quit l"
  "el_pc (queue_in_loop i f l) = el_pc l" "funcs (queue_in_loop i f l) = funcs l @ [f]"
  "writers (queue_in_loop i f l) = writers l"
  "wake_count (queue_in_loop i f l) =
     (if \<not> i \<or> calling_funcs l \<or> \<not> looping l then Suc (wake_count l) else wake_count l)"
  by (simp_all add: queue_in_loop_def push_func_def wake_up_def needs_wake_up_def Let_def)

lemma not_in_callback: "p \<noteq> ETest \<Longrightarrow> p \<noteq> EPoll \<Longrightarrow> p = EOut \<or> will_swap p \<or> in_funcs p"
  by (cases p) simp_all

lemma do_call_inv:
  assumes "el_inv l" and "el_pc l \<noteq> ETest" and "el_pc l \<noteq> EPoll"
  shows "el_inv (do_call c l)"
  using assms not_in_callback [OF assms(2,3)]
  by (cases c) (auto simp: do_call_def run_in_loop_def el_inv_def queue_in_loop_fields set_quit_def)

lemma el_step_inv:
  assumes "el_inv l" and "el_step l a m"
  shows "el_inv m"
  using assms(2)
proof (cases rule: el_step.cases)
  case (el_call c)
  with assms(1) show ?thesis by (auto intro: do_call_inv)
qed (use assms(1) in \<open>auto simp: el_inv_def push_func_def wake_up_def wake_up_read_def set_quit_def loop_parts\<close>)

interpretation el: step_invariant el_step el_inv
  by unfold_locales (fact el_step_inv)

section \<open>The queued functions in order\<close>

definition swapped_out :: "'f el_pc \<Rightarrow> 'f list" where
  "swapped_out p = (case p of ERunning fs \<Rightarrow> fs | _ \<Rightarrow> [])"

lemma swapped_out_simps [simp]:
  "swapped_out (ERunning fs) = fs" "swapped_out EOut = []" "swapped_out ETest = []"
  "swapped_out EPoll = []" "swapped_out (EHandling as) = []"
  by (simp_all add: swapped_out_def)

text \<open>What an action queues, and the queued function it starts.\<close>

fun queued :: "'f el_act \<Rightarrow> 'f list" where
  "queued (OtherPush f) = [f]"
| "queued (Call (CallQueueInLoop f)) = [f]"
| "queued _ = []"

fun started :: "'f el_act \<Rightarrow> 'f list" where
  "started (StartFunc f) = [f]"
| "started _ = []"

lemma do_call_funcs:
  "funcs (do_call c l) = funcs l @ (case c of CallQueueInLoop f \<Rightarrow> [f] | _ \<Rightarrow> [])"
  "el_pc (do_call c l) = el_pc l"
  by (simp_all add: do_call_def run_in_loop_def queue_in_loop_fields set_quit_def split: loop_call.split)

lemma el_step_line:
  assumes "el_step l a m"
  shows "started a @ swapped_out (el_pc m) @ funcs m = (swapped_out (el_pc l) @ funcs l) @ queued a"
  using assms
proof (cases rule: el_step.cases)
  case (el_call c)
  then show ?thesis by (cases c) (simp_all add: do_call_funcs)
qed (auto simp: push_func_def wake_up_def wake_up_read_def set_quit_def loop_parts)

interpretation elq: step_order el_step "\<lambda>l. True" queued started "\<lambda>l. swapped_out (el_pc l) @ funcs l"
  by unfold_locales (rule TrueI, erule el_step_line)

text \<open>
  Until the turn ends, running functions are taken from what was swapped out, and before the
  swap everything queued stays to be taken by it.
\<close>

lemma turn_step:
  assumes "el_step l a m" and "a \<noteq> FuncsDone"
  shows "(if in_funcs (el_pc l) then in_funcs (el_pc m) \<and> started a @ swapped_out (el_pc m) = swapped_out (el_pc l)
     else started a = [] \<and> (if in_funcs (el_pc m) then swapped_out (el_pc m) = funcs l else \<exists>r. funcs m = funcs l @ r))"
  using assms
  by (cases rule: el_step.cases)
    (auto simp: push_func_def wake_up_def wake_up_read_def set_quit_def loop_parts do_call_funcs)

lemma turn_takes:
  "run el_step l as m \<Longrightarrow> FuncsDone \<notin> set as \<Longrightarrow> in_funcs (el_pc m) \<Longrightarrow>
   (if in_funcs (el_pc l) then concat (map started as) @ swapped_out (el_pc m) = swapped_out (el_pc l)
    else \<exists>r. concat (map started as) @ swapped_out (el_pc m) = funcs l @ r)"
proof (induction rule: run.induct)
  case (run_cons s a t as u)
  have a: "a \<noteq> FuncsDone" using run_cons.prems by auto
  with turn_step [OF run_cons.hyps(1) a] run_cons.IH run_cons.prems show ?case
    by (auto split: if_splits)
qed simp

text \<open>
  Whatever is queued when one turn of the loop ends has been run when the next one ends: of a
  run in which the loop thread finishes \<open>DoRunInLoopFuncs\<close> twice, all that was swapped out or
  queued at its start has been started, first and in that order, whatever is queued meanwhile.
\<close>

lemma two_turns_take:
  assumes "run el_step l as m" and "2 \<le> count_list as FuncsDone"
  shows "\<exists>later. concat (map started as) = swapped_out (el_pc l) @ funcs l @ later"
proof -
  from assms(2) have "FuncsDone \<in> set as" by (auto simp: count_list_0_iff intro: ccontr)
  then obtain bs cs where as: "as = bs @ FuncsDone # cs" "FuncsDone \<notin> set bs" by (auto dest: split_list_first)
  with assms(2) have "FuncsDone \<in> set cs" by (auto simp: count_list_0_iff intro: ccontr)
  then obtain ds es where cs: "cs = ds @ FuncsDone # es" "FuncsDone \<notin> set ds" by (auto dest: split_list_first)
  from assms(1) obtain s t u v where r: "run el_step l bs s" "el_step s FuncsDone t" "run el_step t ds u"
    "el_step u FuncsDone v"
    by (auto simp: as(1) cs(1) run_append)
  from r(2,4) have e: "swapped_out (el_pc s) = []" "funcs t = funcs s" "\<not> in_funcs (el_pc t)"
    "in_funcs (el_pc u)" "swapped_out (el_pc u) = []"
    by (auto simp: step_simps loop_parts)
  obtain x where "concat (map started ds) = funcs s @ x"
    using turn_takes [OF r(3) cs(2) e(4)] e by auto
  moreover have "concat (map started bs) @ funcs s = swapped_out (el_pc l) @ funcs l @ concat (map queued bs)"
    using elq.run_line [OF r(1)] e(1) by simp
  ultimately have "concat (map started as) =
      swapped_out (el_pc l) @ funcs l @ (concat (map queued bs) @ x @ concat (map started es))"
    by (simp add: as(1) cs(1) flip: append_assoc)
  then show ?thesis ..
qed

section \<open>Quitting\<close>

text \<open>Which actions set the quit flag again.\<close>

definition sets_quit :: "'f el_act \<Rightarrow> bool" where
  "sets_quit a \<longleftrightarrow> a = OtherSetQuit \<or> a = Call CallSetQuit"

lemma do_call_quit: "c \<noteq> CallSetQuit \<Longrightarrow> quit (do_call c l) = quit l"
  by (cases c) (simp_all add: do_call_def run_in_loop_def queue_in_loop_fields)

lemma stays_looping_step:
  assumes "el_step l a m" and "\<not> quit l" and "el_pc l \<noteq> EOut" and "\<not> sets_quit a"
  shows "\<not> quit m \<and> el_pc m \<noteq> EOut"
  using assms(1)
proof (cases rule: el_step.cases)
  case (el_call c)
  with assms(2-4) show ?thesis by (simp add: sets_quit_def do_call_quit do_call_funcs)
qed (use assms(2-4) in \<open>auto simp: push_func_def wake_up_def wake_up_read_def sets_quit_def loop_parts split: if_splits\<close>)

lemma stays_looping:
  "run el_step l as m \<Longrightarrow> \<not> quit l \<Longrightarrow> el_pc l \<noteq> EOut \<Longrightarrow> \<forall>a \<in> set as. \<not> sets_quit a \<Longrightarrow>
   \<not> quit m \<and> el_pc m \<noteq> EOut"
  by (induction rule: run.induct) (auto dest: stays_looping_step)

section \<open>Properties\<close>

text \<open>A queued function never sleeps with the loop: whenever the loop thread is in
  \<open>epoll_wait\<close> and functions are queued, the eventfd is readable or a thread that queued one
  is about to write to it. The flags the decision in \<open>QueueInLoop\<close> rests on say what they
  should.\<close>

theorem no_lost_wake_up:
  assumes "run el_step el_new as l"
  shows "(el_pc l = EPoll \<and> funcs l \<noteq> [] \<longrightarrow> 0 < wake_count l \<or> 0 < writers l) \<and>
    (looping l \<longleftrightarrow> el_pc l \<noteq> EOut) \<and> (calling_funcs l \<longleftrightarrow> in_funcs (el_pc l)) \<and>
    (event_handling l \<longleftrightarrow> will_swap (el_pc l))"
  using el.run_inv [OF assms el_inv_new] by (auto simp: el_inv_def)

theorem no_lost_wake_up_witness:
  "\<exists>l. run el_step el_new [EnterLoop, TestQuit, OtherPush CHR ''f''] l \<and> el_pc l = EPoll \<and>
     funcs l = [CHR ''f''] \<and> 0 < wake_count l + writers l"
proof -
  obtain l where l: "run el_step el_new [EnterLoop, TestQuit, OtherPush CHR ''f''] l" "el_pc l = EPoll"
    "funcs l = [CHR ''f'']"
    by (simp add: step_simps el_new_def push_func_def loop_parts)
  with no_lost_wake_up [OF l(1)] show ?thesis by auto
qed

text \<open>Queued functions run in the order in which they were queued, each once, whoever
  queued them and wherever: what has started, what is swapped out and what is queued together
  are what was queued.\<close>

theorem queued_functions_in_order:
  assumes "run el_step el_new as l"
  shows "concat (map started as) @ swapped_out (el_pc l) @ funcs l = concat (map queued as)"
  using elq.run_line [OF assms] by (simp add: el_new_def)

theorem queued_functions_in_order_witness:
  "\<exists>l. run el_step el_new [OtherPush 1, OtherPush (2 :: nat), EnterLoop, TestQuit, PollReturns [],
      HandledAll, StartFunc 1] l \<and> [1] @ swapped_out (el_pc l) @ funcs l = [1, 2]"
proof -
  obtain l where l: "run el_step el_new [OtherPush 1, OtherPush (2 :: nat), EnterLoop, TestQuit,
      PollReturns [], HandledAll, StartFunc 1] l"
    by (simp add: step_simps el_new_def push_func_def loop_parts)
  have "[1] @ swapped_out (el_pc l) @ funcs l = [1, 2]"
    using queued_functions_in_order [OF l] by simp
  with l show ?thesis by (intro exI [of _ l] conjI)
qed

text \<open>C26: Entering \<open>Loop\<close> forgets a quit request made before, and the loop then never
  returns unless \<open>set_quit\<close> is called again; nor does a request wake a loop that sleeps.\<close>

theorem early_quit_forgotten:
  assumes "el_step l EnterLoop m" and "run el_step m as n" and "\<forall>a \<in> set as. \<not> sets_quit a"
  shows "\<not> quit n \<and> el_pc n \<noteq> EOut \<and> wake_count (set_quit n) = wake_count n"
proof -
  have "\<not> quit m" "el_pc m \<noteq> EOut" using assms(1) by (auto simp: step_simps loop_parts)
  with stays_looping [OF assms(2) _ _ assms(3)] show ?thesis by (simp add: set_quit_def)
qed

theorem early_quit_forgotten_witness:
  "\<exists>l m. run el_step (el_new :: unit event_loop) [OtherSetQuit] l \<and> quit l \<and> el_step l EnterLoop m \<and> \<not> quit m"
proof -
  obtain l m where l: "run el_step (el_new :: unit event_loop) [OtherSetQuit] l" "quit l"
    "el_step l EnterLoop m"
    by (simp add: step_simps el_new_def set_quit_def loop_parts)
  have "run el_step m [] m" by simp
  with early_quit_forgotten [OF l(3) this] have "\<not> quit m" by simp
  with l show ?thesis by blast
qed

text \<open>The timer entry points: \<open>RunAt\<close> and \<open>RunAfter\<close> make a timer that fires once at
  the given time, and \<open>RunEvery\<close> a timer whose first run is due at once, not after its
  interval.\<close>

theorem timer_entry_points:
  "repeat (snd (run_at d f q)) = False \<and> due (snd (run_at d f q)) = d \<and>
   run_after now delay f q = (case date_after now delay of Inl e \<Rightarrow> Inl e | Inr w \<Rightarrow> Inr (run_at w f q)) \<and>
   due (snd (run_every now i f q)) = now \<and> callback (snd (run_every now i f q)) = f"
  by (cases "date_after now delay") (simp_all add: run_at_def run_after_def run_every_def add_timer_def timer_new_def repeat_threshold_def
      dbl_less_def dbl_align_def dbl_add_def round53_exact bind_res_def)

text \<open>The channels of timer and eventfd, before and after they are registered.\<close>

abbreviation read_channel :: "'f \<Rightarrow> int \<Rightarrow> 'f channel" where
  "read_channel cb fd \<equiv> set_read_callback cb (channel_new fd)"

definition watched_channel :: "'f \<Rightarrow> int \<Rightarrow> 'f channel" where
  "watched_channel cb fd = (read_channel cb fd)\<lparr>events := kReadEvent, index := kAdded\<rparr>"

lemma read_channel_simps [simp]:
  "index (read_channel cb fd) = kNew" "ch_fd (read_channel cb fd) = fd" "events (read_channel cb fd) = 0"
  "index (watched_channel cb fd) = kAdded" "ch_fd (watched_channel cb fd) = fd"
  "events (watched_channel cb fd) = kReadEvent" "tie (watched_channel cb fd) = None"
  "read_callback (watched_channel cb fd) = Some cb" "write_callback (watched_channel cb fd) = None"
  "error_callback (watched_channel cb fd) = None"
  by (simp_all add: watched_channel_def set_read_callback_def channel_new_def kNew_def)

lemma register_ok:
  assumes "poller_inv s" and "heap s r = None" and "channels s fd = None" and "valid fd"
  shows "chan_apply True valid EnableReading r (s\<lparr>heap := (heap s)(r \<mapsto> read_channel cb fd)\<rparr>) =
      Inr (put_channel r (watched_channel cb fd) s)" "poller_inv (put_channel r (watched_channel cb fd) s)"
proof -
  let ?h = "s\<lparr>heap := (heap s)(r \<mapsto> read_channel cb fd)\<rparr>"
  have i: "poller_inv ?h" by (rule new_channel_inv [OF assms(1,2)]) simp
  have k: "channels ?h (ch_fd (read_channel cb fd)) \<in> {None, Some r}" using assms(3) by simp
  have n: "next_index EnableReading (read_channel cb fd) = kAdded" by (simp add: next_index_def index_states)
  have e: "put_channel r d ?h = put_channel r d s" for d by (simp add: put_channel_def)
  show "chan_apply True valid EnableReading r ?h = Inr (put_channel r (watched_channel cb fd) s)"
    using chan_apply_ok [where valid = valid and cop = EnableReading, OF i _ k] assms(4)
    by (simp add: n e watched_channel_def)
  have "poller_inv (put_channel r (watched_channel cb fd) ?h)"
    by (rule put_channel_inv [OF i, of r "read_channel cb fd"]) (use k in simp_all)
  then show "poller_inv (put_channel r (watched_channel cb fd) s)" by (simp only: e)
qed

definition loop_poller :: "'f \<Rightarrow> 'f \<Rightarrow> nat \<times> int \<Rightarrow> nat \<times> int \<Rightarrow> 'f poller" where
  "loop_poller timer_cb wake_cb timer wake = put_channel (fst wake) (watched_channel wake_cb (snd wake))
     (put_channel (fst timer) (watched_channel timer_cb (snd timer)) (poller_new Map.empty))"

lemma loop_ctor_ok:
  assumes "valid timerfd" and "valid eventfd" and "0 \<le> eventfd" and "timerfd \<noteq> eventfd" and "p \<noteq> q"
  shows "loop_ctor valid has_loop f g (p, timerfd) (q, eventfd) =
      (if has_loop then Inl AssertFailed else Inr (loop_poller f g (p, timerfd) (q, eventfd)))"
    "poller_inv (loop_poller f g (p, timerfd) (q, eventfd))"
proof -
  let ?s0 = "poller_new Map.empty :: 'a poller"
  let ?s1 = "put_channel p (watched_channel f timerfd) ?s0"
  have s0: "poller_inv ?s0" "heap ?s0 p = None" "channels ?s0 timerfd = None"
    by (rule poller_inv_new) (simp_all add: poller_new_def)
  note s1 = register_ok [where valid = valid and cb = f, OF s0 assms(1)]
  note s2 = register_ok [where valid = valid and cb = g, OF s1(2) _ _ assms(2), of q]
  have "heap ?s1 q = None" "channels ?s1 eventfd = None"
    using assms(4,5) by (simp_all add: put_channel_def poller_new_def)
  note s2 = s2 [OF this]
  show "loop_ctor valid has_loop f g (p, timerfd) (q, eventfd) =
      (if has_loop then Inl AssertFailed else Inr (loop_poller f g (p, timerfd) (q, eventfd)))"
    using s1(1) s2(1) assms(3) by (simp add: loop_ctor_def tq_ctor_def loop_poller_def)
  show "poller_inv (loop_poller f g (p, timerfd) (q, eventfd))" using s2(2) by (simp add: loop_poller_def)
qed

lemma loop_poller_interests:
  "timerfd \<noteq> eventfd \<Longrightarrow> interests (loop_poller f g (p, timerfd) (q, eventfd)) =
     [timerfd \<mapsto> (kReadEvent, p), eventfd \<mapsto> (kReadEvent, q)]"
  by (simp add: loop_poller_def put_channel_def poller_new_def)

text \<open>C25: A new loop watches exactly its timer descriptor and its eventfd, both for reading;
  a second loop in the same thread fails an assertion. Destroying the loop in its thread takes
  the timer descriptor out of poller and kernel and closes it and then the epoll instance, so
  that no channel is left and nothing is watched. The eventfd is neither taken out of the
  poller, which has an entry for the freed wake-up channel until it goes itself, nor closed.
  A loop that still runs fails an assertion, and in another thread the process exits.\<close>

theorem loop_lifetime:
  assumes "valid timerfd" and "valid eventfd" and "0 \<le> eventfd" and "timerfd \<noteq> eventfd" and "p \<noteq> q"
  shows "\<exists>s t u. loop_ctor valid False f g (p, timerfd) (q, eventfd) = Inr s \<and> poller_inv s \<and>
    interests s = [timerfd \<mapsto> (kReadEvent, p), eventfd \<mapsto> (kReadEvent, q)] \<and>
    loop_ctor valid True f g (p, timerfd) (q, eventfd) = Inl AssertFailed \<and>
    loop_dtor True valid False epoll_fd (p, timerfd) (q, eventfd) s = Inr (t, [timerfd, epoll_fd]) \<and>
    heap t = Map.empty \<and> channels t = Map.empty \<and> interests t = Map.empty \<and>
    tq_dtor True valid p timerfd (s\<lparr>heap := (heap s)(q := None)\<rparr>) = Inr (u, [timerfd]) \<and>
    heap u = Map.empty \<and> channels u = [eventfd \<mapsto> q] \<and> interests u = [eventfd \<mapsto> (kReadEvent, q)] \<and>
    loop_dtor in_loop valid True epoll_fd (p, timerfd) (q, eventfd) s = Inl AssertFailed \<and>
    loop_dtor False valid False epoll_fd (p, timerfd) (q, eventfd) s = Inl ProcessExit"
proof -
  let ?s = "loop_poller f g (p, timerfd) (q, eventfd)"
  let ?s' = "?s\<lparr>heap := (heap ?s)(q := None)\<rparr>"
  note c = loop_ctor_ok [where valid = valid and f = f and g = g, OF assms]
    and i = loop_poller_interests [where f = f and g = g and p = p and q = q, OF assms(4)]
  have "\<exists>u. tq_dtor True valid p timerfd ?s' = Inr (u, [timerfd]) \<and>
      heap u = Map.empty \<and> channels u = [eventfd \<mapsto> q] \<and> interests u = [eventfd \<mapsto> (kReadEvent, q)]"
    using assms(1,4,5)
    by (auto simp: tq_dtor_def chan_apply_def el_update_channel_def update_channel_def chan_remove_def el_remove_channel_def
        remove_channel_def poller_update_def epoll_ctl_def set_index_def is_none_event_def release_def put_channel_def
        poller_new_def loop_poller_def index_states kNoneEvent_def fun_eq_iff)
  then obtain u where u: "tq_dtor True valid p timerfd ?s' = Inr (u, [timerfd])" "heap u = Map.empty"
    "channels u = [eventfd \<mapsto> q]" "interests u = [eventfd \<mapsto> (kReadEvent, q)]" by blast
  have "tq_dtor False valid p timerfd ?s' = Inl ProcessExit"
    using assms(5) by (simp add: tq_dtor_def chan_apply_def el_update_channel_def loop_poller_def put_channel_def)
  then have "loop_dtor False valid False epoll_fd (p, timerfd) (q, eventfd) ?s = Inl ProcessExit"
    by (simp add: loop_dtor_def)
  moreover have "loop_dtor True valid False epoll_fd (p, timerfd) (q, eventfd) ?s =
      Inr (u\<lparr>channels := Map.empty, interests := Map.empty\<rparr>, [timerfd, epoll_fd])"
    using u(1) by (simp add: loop_dtor_def poller_dtor_def)
  moreover have "loop_dtor in_loop valid True epoll_fd (p, timerfd) (q, eventfd) ?s = Inl AssertFailed"
    by (simp add: loop_dtor_def)
  ultimately show ?thesis
    using c i u
    by - (rule exI [of _ ?s], rule exI [of _ "u\<lparr>channels := Map.empty, interests := Map.empty\<rparr>"], rule exI [of _ u], simp)
qed

theorem loop_lifetime_witness:
  "\<exists>s t. loop_ctor (\<lambda>fd. True) False ''timer'' ''wake'' (0, 4) (1, 5) = Inr s \<and>
     interests s 5 = Some (kReadEvent, 1) \<and>
     loop_dtor True (\<lambda>fd. True) False 3 (0, 4) (1, 5) s = Inr (t, [4, 3]) \<and> interests t = Map.empty"
  using loop_lifetime [of "\<lambda>fd. True" 4 5 0 1 "''timer''" "''wake''" 3 True] by auto

end
