(* ===== verification/Loop_Thread.thy ===== *)
theory Loop_Thread
  imports Event_Loop Task_Queue
begin

text \<open>
  \<open>EventLoopThread\<close> (\<open>src/water/net/event_loop_thread.h\<close>, \<open>event_loop_thread.cc\<close>): a
  \<open>SerialTaskQueue\<close> whose worker runs \<open>LoopFuncs\<close>, which builds an \<open>EventLoop\<close> on its
  stack, publishes its address and loops. The state joins the models of the queue and of the
  loop; the published pointer can be null, valid, or dangling once \<open>LoopFuncs\<close> has returned.
\<close>

datatype loop_ptr = NullPtr | LivePtr | DanglingPtr

datatype lf_pc = LfIdle | LfMade | LfPublished | LfEntered

datatype lt_task = LoopFuncs | EmptyTask

record 'f loop_thread =
  lt_queue :: "lt_task task_queue"
  loop_ptr :: loop_ptr
  the_loop :: "'f event_loop option"
  lf_pc :: lf_pc

definition lt_new :: "'f loop_thread" where
  "lt_new = \<lparr>lt_queue = tq_new ''EventLoopThread'', loop_ptr = NullPtr, the_loop = None, lf_pc = LfIdle\<rparr>"

text \<open>
  \<open>Stop\<close>, which is also the destructor's body: a call through the pointer if it is not null. A
  dangling one is a fault, whatever loop there is by then.
\<close>

definition lt_stop :: "'f loop_thread \<Rightarrow> 'f loop_thread res" where
  "lt_stop s =
     (case loop_ptr s of
        NullPtr \<Rightarrow> Inr s
      | DanglingPtr \<Rightarrow> Inl OutOfBounds
      | LivePtr \<Rightarrow>
          (case the_loop s of
             None \<Rightarrow> Inl OutOfBounds
           | Some l \<Rightarrow> Inr (s\<lparr>the_loop := Some (set_quit l)\<rparr>)))"

text \<open>
  Actions: the two halves of \<open>Run\<close>, \<open>Stop\<close>, a step of the queue (\<open>Wait\<close> is its
  \<open>SyncTaskInQueue\<close>), the statements of \<open>LoopFuncs\<close>, and a step of the loop by its own
  thread or by another that has the pointer.
\<close>

datatype 'f lt_act =
    RunPush | RunReturn | Stop | Queue "lt_task tq_act"
  | LfConstruct | LfPublish | LfEnter | LfReturn | Loop "'f el_act"

inductive lt_step :: "'f loop_thread \<Rightarrow> 'f lt_act \<Rightarrow> 'f loop_thread \<Rightarrow> bool"
  where
  run_push: "tq_step (lt_queue s) (Push (Job LoopFuncs)) q \<Longrightarrow> lt_step s RunPush (s\<lparr>lt_queue := q\<rparr>)"
| run_return: "loop_ptr s \<noteq> NullPtr \<Longrightarrow> lt_step s RunReturn s"
| stop: "lt_stop s = Inr t \<Longrightarrow> lt_step s Stop t"
| queue: "tq_step (lt_queue s) a q \<Longrightarrow> a \<noteq> Ran (Job LoopFuncs) \<Longrightarrow> a \<noteq> Push (Job LoopFuncs) \<Longrightarrow>
    lt_step s (Queue a) (s\<lparr>lt_queue := q\<rparr>)"
| lf_construct: "tq_pc (lt_queue s) = QTask (Job LoopFuncs) \<Longrightarrow> lf_pc s = LfIdle \<Longrightarrow>
    lt_step s LfConstruct (s\<lparr>the_loop := Some el_new, lf_pc := LfMade\<rparr>)"
| lf_publish: "lf_pc s = LfMade \<Longrightarrow> lt_step s LfPublish (s\<lparr>loop_ptr := LivePtr, lf_pc := LfPublished\<rparr>)"
| lf_enter: "lf_pc s = LfPublished \<Longrightarrow> the_loop s = Some l \<Longrightarrow> el_step l EnterLoop m \<Longrightarrow>
    lt_step s LfEnter (s\<lparr>the_loop := Some m, lf_pc := LfEntered\<rparr>)"
| lf_return: "lf_pc s = LfEntered \<Longrightarrow> the_loop s = Some l \<Longrightarrow> el_pc l = EOut \<Longrightarrow>
    tq_step (lt_queue s) (Ran (Job LoopFuncs)) q \<Longrightarrow>
    lt_step s LfReturn (s\<lparr>lt_queue := q, the_loop := None,
      loop_ptr := (if loop_ptr s = NullPtr then NullPtr else DanglingPtr), lf_pc := LfIdle\<rparr>)"
| loop: "the_loop s = Some l \<Longrightarrow> lf_pc s \<in> {LfPublished, LfEntered} \<Longrightarrow> el_step l a m \<Longrightarrow>
    a \<noteq> EnterLoop \<Longrightarrow> (el_pc l = EOut \<longrightarrow> (\<forall>c. a \<noteq> Call c)) \<Longrightarrow> lt_step s (Loop a) (s\<lparr>the_loop := Some m\<rparr>)"

inductive_cases lt_stepE: "lt_step s a t"

inductive_simps lt_step_simps [step_simps]:
  "lt_step s RunPush t"
  "lt_step s RunReturn t"
  "lt_step s Stop t"
  "lt_step s (Queue a) t"
  "lt_step s LfConstruct t"
  "lt_step s LfPublish t"
  "lt_step s LfEnter t"
  "lt_step s LfReturn t"
  "lt_step s (Loop a) t"

section \<open>The pointer\<close>

definition lt_inv :: "'f loop_thread \<Rightarrow> bool" where
  "lt_inv s \<longleftrightarrow> (the_loop s = None \<longleftrightarrow> lf_pc s = LfIdle) \<and>
     (lf_pc s \<noteq> LfIdle \<longrightarrow> tq_pc (lt_queue s) = QTask (Job LoopFuncs)) \<and>
     (loop_ptr s = LivePtr \<longrightarrow> the_loop s \<noteq> None) \<and>
     (lf_pc s \<in> {LfPublished, LfEntered} \<longrightarrow> loop_ptr s = LivePtr)"

lemma tq_keeps_task:
  "tq_step q a r \<Longrightarrow> tq_pc q = QTask j \<Longrightarrow> a \<noteq> Ran j \<Longrightarrow> tq_pc r = QTask j"
  by (induction rule: tq_step.induct)
    (auto simp: tq_ctor_body_def run_task_in_queue_def sync_task_in_queue_def wake_worker_def)

lemma tq_ran_task: "tq_step q (Ran j) r \<Longrightarrow> tq_pc q = QTask j"
  by (simp add: step_simps)

lemma lt_stop_fields:
  assumes "lt_stop s = Inr t"
  shows "lt_queue t = lt_queue s" "loop_ptr t = loop_ptr s" "lf_pc t = lf_pc s"
    "the_loop t = None \<longleftrightarrow> the_loop s = None"
  using assms by (auto simp: lt_stop_def split: loop_ptr.splits option.splits)

lemma lt_step_inv:
  assumes "lt_inv s" and "lt_step s a t"
  shows "lt_inv t"
  using assms(2)
proof (cases rule: lt_step.cases)
  case (run_push q)
  then show ?thesis
    using assms(1) tq_keeps_task [OF run_push(3), of "Job LoopFuncs"] by (auto simp: lt_inv_def)
next
  case stop
  with assms(1) lt_stop_fields [OF stop(2)] show ?thesis by (auto simp: lt_inv_def)
next
  case (queue b q)
  then show ?thesis
    using assms(1) tq_keeps_task [OF queue(3), of "Job LoopFuncs"] by (auto simp: lt_inv_def)
qed (use assms(1) in \<open>auto simp: lt_inv_def\<close>)

interpretation lt: step_invariant lt_step lt_inv
  by unfold_locales (fact lt_step_inv)

lemma lt_inv_new: "lt_inv lt_new"
  by (simp add: lt_inv_def lt_new_def tq_new_def)

text \<open>The pointer is set by \<open>LoopFuncs\<close> alone, and once set it is never null again.\<close>

lemma published_step: "lt_step s a t \<Longrightarrow> loop_ptr t \<noteq> NullPtr \<longleftrightarrow> loop_ptr s \<noteq> NullPtr \<or> a = LfPublish"
  by (cases rule: lt_step.cases) (auto simp: lt_stop_fields)

lemma published_run:
  "run lt_step s as t \<Longrightarrow> loop_ptr t \<noteq> NullPtr \<longleftrightarrow> loop_ptr s \<noteq> NullPtr \<or> LfPublish \<in> set as"
  by (induction rule: run.induct) (auto dest: published_step)

definition left_behind :: "'f loop_thread \<Rightarrow> bool" where
  "left_behind s \<longleftrightarrow> loop_ptr s = DanglingPtr \<and> lf_pc s \<in> {LfIdle, LfMade}"

lemma left_behind_step: "lt_step s a t \<Longrightarrow> left_behind s \<Longrightarrow> a \<noteq> LfPublish \<Longrightarrow> left_behind t"
  by (cases rule: lt_step.cases) (auto simp: left_behind_def lt_stop_fields)

lemma left_behind_run:
  "run lt_step s as t \<Longrightarrow> left_behind s \<Longrightarrow> LfPublish \<notin> set as \<Longrightarrow> left_behind t"
  by (induction rule: run.induct) (auto dest: left_behind_step)

section \<open>The loop that never returns\<close>

definition quits :: "'f lt_act \<Rightarrow> bool" where
  "quits a = (case a of Stop \<Rightarrow> True | Loop b \<Rightarrow> sets_quit b | _ \<Rightarrow> False)"

definition loops_on :: "'f loop_thread \<Rightarrow> bool" where
  "loops_on s \<longleftrightarrow> lf_pc s = LfEntered \<and> tq_pc (lt_queue s) = QTask (Job LoopFuncs) \<and>
     (\<exists>l. the_loop s = Some l \<and> \<not> quit l \<and> el_pc l \<noteq> EOut)"

lemma loops_on_step:
  assumes "lt_step s a t" and "loops_on s" and "\<not> quits a"
  shows "loops_on t"
  using assms(1)
proof (cases rule: lt_step.cases)
  case (run_push q)
  then show ?thesis
    using assms(2) tq_keeps_task [OF run_push(3), of "Job LoopFuncs"] by (auto simp: loops_on_def)
next
  case (queue b q)
  then show ?thesis
    using assms(2) tq_keeps_task [OF queue(3), of "Job LoopFuncs"] by (auto simp: loops_on_def)
next
  case (loop l b m)
  with assms(2,3) stays_looping_step [of l b m] show ?thesis by (auto simp: loops_on_def quits_def)
qed (use assms(2,3) in \<open>auto simp: loops_on_def quits_def\<close>)

lemma loops_on_run:
  "run lt_step s as t \<Longrightarrow> loops_on s \<Longrightarrow> \<forall>a \<in> set as. \<not> quits a \<Longrightarrow> loops_on t"
  by (induction rule: run.induct) (auto dest: loops_on_step)

lemma loops_on_not_kept:
  assumes "lt_step s a t" and "loops_on s" and "\<not> quits a"
  shows "kept (lt_queue t) = kept (lt_queue s)"
proof -
  have k: "kept r = kept q" if "tq_step q b r" "tq_pc q = QTask (Job LoopFuncs)" for q b r
    using tq_step_kept [OF that(1)] that by (cases b) (auto dest!: tq_ran_task)
  from assms show ?thesis
    by (cases rule: lt_step.cases) (auto simp: loops_on_def quits_def dest: k)
qed

lemma loops_on_waits:
  "run lt_step s as t \<Longrightarrow> loops_on s \<Longrightarrow> \<forall>a \<in> set as. \<not> quits a \<Longrightarrow> p \<notin> kept (lt_queue s) \<Longrightarrow>
   Queue (SyncReturn p) \<notin> set as"
proof (induction rule: run.induct)
  case (run_cons s a t as u)
  have "loops_on t" using loops_on_step [OF run_cons.hyps(1)] run_cons.prems by auto
  moreover have "kept (lt_queue t) = kept (lt_queue s)"
    using loops_on_not_kept [OF run_cons.hyps(1)] run_cons.prems by auto
  moreover have "a \<noteq> Queue (SyncReturn p)"
    using run_cons.hyps(1) run_cons.prems by (auto simp: step_simps)
  ultimately show ?case using run_cons by auto
qed simp

section \<open>Properties\<close>

text \<open>C27: \<open>Run\<close> can return exactly when a loop was ever published. While \<open>LoopFuncs\<close> has
  published its loop and not returned, \<open>Stop\<close> sets the quit flag of that loop. When
  \<open>LoopFuncs\<close> returns, the loop is gone and the pointer stays: until another loop is
  published, whatever else happens, \<open>Stop\<close> and the destructor use a loop that is gone, and a
  second \<open>Run\<close> may return although there is no new loop yet.\<close>

theorem loop_pointer_lifetime:
  assumes "run lt_step lt_new as s"
  shows "((\<exists>t. lt_step s RunReturn t) \<longleftrightarrow> LfPublish \<in> set as) \<and>
    (lf_pc s \<in> {LfPublished, LfEntered} \<longrightarrow>
       (\<exists>l t. the_loop s = Some l \<and> lt_stop s = Inr t \<and> the_loop t = Some (set_quit l))) \<and>
    (\<forall>t bs u. lt_step s LfReturn t \<and> run lt_step t bs u \<and> LfPublish \<notin> set bs \<longrightarrow>
       the_loop t = None \<and> loop_ptr u = DanglingPtr \<and> lt_stop u = Inl OutOfBounds \<and> lt_step u RunReturn u)"
proof -
  have i: "lt_inv s" by (rule lt.run_inv [OF assms lt_inv_new])
  have "(\<exists>t. lt_step s RunReturn t) \<longleftrightarrow> LfPublish \<in> set as"
    using published_run [OF assms] by (simp add: step_simps lt_new_def)
  moreover have "\<exists>l t. the_loop s = Some l \<and> lt_stop s = Inr t \<and> the_loop t = Some (set_quit l)"
    if "lf_pc s \<in> {LfPublished, LfEntered}"
    using i that by (auto simp: lt_inv_def lt_stop_def)
  moreover have "the_loop t = None \<and> loop_ptr u = DanglingPtr \<and> lt_stop u = Inl OutOfBounds \<and> lt_step u RunReturn u"
    if r: "lt_step s LfReturn t" "run lt_step t bs u" "LfPublish \<notin> set bs" for t bs u
  proof -
    have "left_behind t" "the_loop t = None"
      using i r(1) by (auto simp: lt_inv_def left_behind_def step_simps)
    moreover have "left_behind u" by (rule left_behind_run [OF r(2) \<open>left_behind t\<close> r(3)])
    ultimately show ?thesis by (simp add: left_behind_def lt_stop_def step_simps)
  qed
  ultimately show ?thesis by blast
qed

text \<open>A life of the thread: run, stop in time, and the pointer that is left.\<close>

definition stopped_run :: "unit lt_act list" where
  "stopped_run = [RunPush, Queue NameThread, Queue TestStop, Queue (Take (Job LoopFuncs)), LfConstruct, LfPublish,
     RunReturn, LfEnter, Loop TestQuit, Stop, Loop (PollReturns []), Loop HandledAll, Loop FuncsDone, Loop TestQuit]"

lemmas lt_eval = step_simps lt_new_def tq_new_def holds_mutex_def wake_worker_def run_task_in_queue_def el_new_def
  lt_stop_def set_quit_def run_job_def loop_parts

theorem loop_pointer_lifetime_witness:
  "\<exists>s t u. run lt_step lt_new stopped_run s \<and> lt_step s LfReturn t \<and> run lt_step t [RunPush] u \<and>
     lt_step u RunReturn u \<and> the_loop u = None \<and> lt_stop u = Inl OutOfBounds"
proof -
  obtain s t u where s: "run lt_step lt_new stopped_run s" "lt_step s LfReturn t" "run lt_step t [RunPush] u"
    "the_loop u = None"
    by (simp add: stopped_run_def lt_eval)
  have "LfPublish \<notin> set [RunPush]" by simp
  with loop_pointer_lifetime [OF s(1)] s(2,3) have "lt_stop u = Inl OutOfBounds" "lt_step u RunReturn u" by blast+
  with s show ?thesis by blast
qed

text \<open>A \<open>Stop\<close> between the return of \<open>Run\<close> and the loop thread's entry into \<open>Loop\<close> is
  lost: the loop then goes on for ever, and \<open>Wait\<close> never returns, unless somebody stops it
  again.\<close>

theorem early_stop_lost:
  assumes "run lt_step lt_new before s" and "lt_step s LfEnter t"
    and "run lt_step t as u" and "\<forall>a \<in> set as. \<not> quits a" and "p \<notin> kept (lt_queue s)"
  shows "loops_on u \<and> LfReturn \<notin> set as \<and> Queue (SyncReturn p) \<notin> set as"
proof -
  have i: "lt_inv s" using assms(1) lt_inv_new by (rule lt.run_inv)
  have "lf_pc s = LfPublished" and k: "kept (lt_queue t) = kept (lt_queue s)"
    using assms(2) by (auto simp: lt_step_simps)
  with i assms(2) have on: "loops_on t"
    by (auto simp: loops_on_def lt_inv_def step_simps loop_parts)
  have "LfReturn \<notin> set as"
    using assms(3) on assms(4)
  proof (induction rule: run.induct)
    case (run_cons s a t as u)
    then have "a \<noteq> LfReturn" by (auto simp: loops_on_def lt_step_simps)
    moreover have "loops_on t" using loops_on_step [OF run_cons.hyps(1)] run_cons.prems by auto
    ultimately show ?case using run_cons by auto
  qed simp
  then show ?thesis
    using loops_on_run [OF assms(3) on assms(4)] loops_on_waits [OF assms(3) on assms(4)] assms(5) k by auto
qed

theorem early_stop_lost_witness:
  "\<exists>s t. run lt_step (lt_new :: unit loop_thread) [RunPush, Queue NameThread, Queue TestStop,
      Queue (Take (Job LoopFuncs)), LfConstruct, LfPublish, RunReturn, Stop] s \<and>
    lt_step s LfEnter t \<and> loops_on t"
proof -
  obtain s t where s: "run lt_step (lt_new :: unit loop_thread) [RunPush, Queue NameThread, Queue TestStop,
      Queue (Take (Job LoopFuncs)), LfConstruct, LfPublish, RunReturn, Stop] s"
    "lt_step s LfEnter t" "0 \<notin> kept (lt_queue s)"
    by (simp add: lt_eval)
  have r: "run lt_step t [] t" by simp
  have "loops_on t" using early_stop_lost [OF s(1,2) r _ s(3)] by simp
  with s show ?thesis by (intro exI [of _ s] exI [of _ t] conjI)
qed

end
