(* ===== verification/Inet_Socket.thy ===== *)
theory Inet_Socket
  imports Byte_Order Decimal
begin

text \<open>
  \<open>InetAddress\<close> and \<open>Socket\<close> (\<open>src/water/net/inetaddress.h\<close>, \<open>inetaddress.cc\<close>,
  \<open>socket.h\<close>, \<open>socket.cc\<close>). An address is the 28 bytes of the union of \<open>sockaddr_in\<close> and
  \<open>sockaddr_in6\<close>; an IPv4 constructor initialises the first 16 only, so the others are an
  argument. The text conversions of the C library are defined for IPv4 and arguments for IPv6;
  the results of system calls are arguments.
\<close>

unbundle bit_operations_syntax

section \<open>Text of IPv4 addresses\<close>

function split_dots :: "string \<Rightarrow> string list" where
  "split_dots s =
     (case dropWhile (\<lambda>c. c \<noteq> CHR ''.'') s of
        [] \<Rightarrow> [takeWhile (\<lambda>c. c \<noteq> CHR ''.'') s]
      | c # t \<Rightarrow> takeWhile (\<lambda>c. c \<noteq> CHR ''.'') s # split_dots t)"
  by pat_completeness auto
termination
proof (relation "measure length")
  fix s t :: string and c
  assume "dropWhile (\<lambda>c. c \<noteq> CHR ''.'') s = c # t"
  then have "length (c # t) \<le> length s"
    by (metis length_dropWhile_le)
  then show "(t, s) \<in> measure length" by simp
qed simp

declare split_dots.simps [simp del]

definition octet :: "string \<Rightarrow> byte option" where
  "octet s = (if s \<noteq> [] \<and> list_all is_digit s \<and> (1 < length s \<longrightarrow> hd s \<noteq> CHR ''0'') \<and> dec_val s \<le> 255
              then Some (word_of_nat (dec_val s)) else None)"

text \<open>\<open>inet_pton(AF_INET, ...)\<close>: four decimal numbers up to 255 without leading zeros.\<close>

definition inet_pton4 :: "string \<Rightarrow> byte list option" where
  "inet_pton4 s =
     (case map octet (split_dots s) of
        [Some a, Some b, Some c, Some d] \<Rightarrow> Some [a, b, c, d] | _ \<Rightarrow> None)"

fun inet_ntop4 :: "byte list \<Rightarrow> string" where
  "inet_ntop4 [] = []"
| "inet_ntop4 [b] = dec (unat b)"
| "inet_ntop4 (b # bs) = dec (unat b) @ CHR ''.'' # inet_ntop4 bs"

lemma split_dots_plain: "CHR ''.'' \<notin> set s \<Longrightarrow> split_dots s = [s]"
proof -
  assume "CHR ''.'' \<notin> set s"
  then have "takeWhile (\<lambda>c. c \<noteq> CHR ''.'') s = s" "dropWhile (\<lambda>c. c \<noteq> CHR ''.'') s = []"
    by (auto simp: takeWhile_eq_all_conv dropWhile_eq_Nil_conv)
  then show ?thesis by (simp only: split_dots.simps [of s] list.case)
qed

lemma split_dots_cons: "CHR ''.'' \<notin> set a \<Longrightarrow> split_dots (a @ CHR ''.'' # t) = a # split_dots t"
proof -
  assume "CHR ''.'' \<notin> set a"
  then have "takeWhile (\<lambda>c. c \<noteq> CHR ''.'') (a @ CHR ''.'' # t) = a"
    "dropWhile (\<lambda>c. c \<noteq> CHR ''.'') (a @ CHR ''.'' # t) = CHR ''.'' # t"
    by (subst takeWhile_append2 dropWhile_append2, auto)+
  then show ?thesis by (simp only: split_dots.simps [of "a @ CHR ''.'' # t"] list.case)
qed

lemma dot_not_in_dec: "CHR ''.'' \<notin> set (dec n)"
proof
  assume "CHR ''.'' \<in> set (dec n)"
  then have "is_digit (CHR ''.'')" by (rule dec_digits)
  then show False by (simp add: is_digit_def)
qed

lemma dec_no_leading_zero: "1 < length (dec n) \<Longrightarrow> hd (dec n) \<noteq> CHR ''0''"
proof (induction n rule: dec.induct)
  case (1 n)
  show ?case
  proof (cases "n < 10")
    case True
    with "1.prems" show ?thesis by (simp add: dec_lt10)
  next
    case False
    then have e: "dec n = dec (n div 10) @ [digit (n mod 10)]" by (simp add: dec_ge10)
    show ?thesis
    proof (cases "n div 10 < 10")
      case True
      then have "hd (dec n) = digit (n div 10)" by (simp add: e dec_lt10)
      moreover have "digit (n div 10) \<noteq> digit 0"
        using True False digit_inj [of "n div 10" 0] by simp
      ultimately show ?thesis using digit_char(1) by simp
    next
      case long: False
      then have "1 < length (dec (n div 10))"
        using length_dec_ge [of 1 "n div 10"] by simp
      with "1.IH" False e show ?thesis by simp
    qed
  qed
qed

lemma octet_dec: "octet (dec (unat (b :: byte))) = Some b"
proof -
  have "unat b \<le> 255" using unat_byte_less [of b] by linarith
  moreover have "list_all is_digit (dec (unat b))" by (simp add: list_all_iff dec_digits)
  ultimately show ?thesis
    using dec_no_leading_zero [of "unat b"] by (simp add: octet_def)
qed

lemma pton_ntop4: "inet_pton4 (inet_ntop4 [a, b, c, d]) = Some [a, b, c, d]"
  by (simp add: inet_pton4_def split_dots_cons split_dots_plain dot_not_in_dec octet_dec)

section \<open>\<open>InetAddress\<close>\<close>

type_synonym inet_address = "byte list"

definition AF_INET :: "16 word" where "AF_INET = 2"
definition AF_INET6 :: "16 word" where "AF_INET6 = 10"

definition kInaddrAny :: "32 word" where "kInaddrAny = 0"
definition kInaddrLoopback :: "32 word" where "kInaddrLoopback = 0x7f000001"

text \<open>Store a member at its offset: family 0, port 2, IPv4 address 4, IPv6 address 8.\<close>

definition ia_put :: "nat \<Rightarrow> byte list \<Rightarrow> inet_address \<Rightarrow> inet_address" where
  "ia_put off bs ia = take off ia @ bs @ drop (off + length bs) ia"

definition ia_get :: "nat \<Rightarrow> nat \<Rightarrow> inet_address \<Rightarrow> byte list" where
  "ia_get off n ia = window ia off (off + n)"

definition sockaddr_in6_zero :: inet_address where
  "sockaddr_in6_zero = replicate 28 0"

definition sockaddr_in_zero :: "byte list \<Rightarrow> inet_address" where
  "sockaddr_in_zero garbage = replicate 16 0 @ garbage"

definition in6_any :: "byte list" where "in6_any = replicate 16 0"
definition in6_loopback :: "byte list" where "in6_loopback = replicate 15 0 @ [1]"

definition ia_of_port :: "byte list \<Rightarrow> 16 word \<Rightarrow> bool \<Rightarrow> bool \<Rightarrow> inet_address" where
  "ia_of_port garbage port loopback_only ipv6 =
     (if ipv6 then
        ia_put 2 (store_le (htons port))
          (ia_put 8 (if loopback_only then in6_loopback else in6_any)
            (ia_put 0 (store_le AF_INET6) sockaddr_in6_zero))
      else
        ia_put 2 (store_le (htons port))
          (ia_put 4 (store_le (htonl (if loopback_only then kInaddrLoopback else kInaddrAny)))
            (ia_put 0 (store_le AF_INET) (sockaddr_in_zero garbage))))"

definition ia_of_ip ::
  "(string \<Rightarrow> byte list option) \<Rightarrow> byte list \<Rightarrow> string \<Rightarrow> 16 word \<Rightarrow> bool \<Rightarrow> inet_address" where
  "ia_of_ip pton6 garbage ip port ipv6 =
     (if ipv6 then
        let ia = ia_put 2 (store_le (htons port)) (ia_put 0 (store_le AF_INET6) sockaddr_in6_zero)
        in (case pton6 ip of None \<Rightarrow> ia | Some bs \<Rightarrow> ia_put 8 bs ia)
      else
        let ia = ia_put 2 (store_le (htons port)) (ia_put 0 (store_le AF_INET) (sockaddr_in_zero garbage))
        in (case inet_pton4 ip of None \<Rightarrow> ia | Some bs \<Rightarrow> ia_put 4 bs ia))"

definition ia_of_sockaddr_in :: "byte list \<Rightarrow> byte list \<Rightarrow> inet_address" where
  "ia_of_sockaddr_in garbage addr = addr @ garbage"

definition ia_of_sockaddr_in6 :: "byte list \<Rightarrow> inet_address" where
  "ia_of_sockaddr_in6 addr6 = addr6"

definition ia_family :: "inet_address \<Rightarrow> 16 word" where
  "ia_family ia = load_le (ia_get 0 2 ia)"

definition ia_port_net_endian :: "inet_address \<Rightarrow> 16 word" where
  "ia_port_net_endian ia = load_le (ia_get 2 2 ia)"

definition ia_to_port :: "inet_address \<Rightarrow> 16 word" where
  "ia_to_port ia = htons (ia_port_net_endian ia)"

definition ia_ip_net_endian :: "inet_address \<Rightarrow> 32 word res" where
  "ia_ip_net_endian ia = bind_res (check (ia_family ia = AF_INET) AssertFailed) (\<lambda>_. Inr (load_le (ia_get 4 4 ia)))"

definition ia_to_ip :: "(byte list \<Rightarrow> string) \<Rightarrow> inet_address \<Rightarrow> string res" where
  "ia_to_ip ntop6 ia =
     (if ia_family ia = AF_INET then Inr (inet_ntop4 (ia_get 4 4 ia))
      else if ia_family ia = AF_INET6 then Inr (ntop6 (ia_get 8 16 ia))
      else Inl Uninitialised)"

definition ia_to_ip_port :: "(byte list \<Rightarrow> string) \<Rightarrow> inet_address \<Rightarrow> string res" where
  "ia_to_ip_port ntop6 ia =
     (let port = htons (ia_port_net_endian ia) in
      bind_res (ia_to_ip ntop6 ia) (\<lambda>ip. Inr (ip @ '':'' @ dec (unat port))))"

text \<open>
  \<open>resolve\<close>, given what \<open>gethostbyname_r\<close> returned: its status, and the address family and
  first address of the entry if there is one.
\<close>

definition ia_resolve :: "int \<Rightarrow> (16 word \<times> byte list) option \<Rightarrow> inet_address \<Rightarrow> (bool \<times> inet_address) res" where
  "ia_resolve ret he out =
     (case (if ret = 0 then he else None) of
        Some (addrtype, addr) \<Rightarrow>
          bind_res (check (addrtype = AF_INET \<and> length addr = 4) AssertFailed) (\<lambda>_.
          Inr (True, ia_put 4 addr out))
      | None \<Rightarrow> Inr (False, out))"

section \<open>\<open>Socket\<close>\<close>

text \<open>
  \<open>bind(2)\<close>: an address must have the length of its family (24 bytes at least for IPv6);
  \<open>accepts\<close> is whether the system then takes it.
\<close>

definition os_bind :: "(byte list \<Rightarrow> bool) \<Rightarrow> byte list \<Rightarrow> int" where
  "os_bind accepts addr =
     (if ia_family addr = AF_INET \<and> 16 \<le> length addr \<and> accepts addr then 0
      else if ia_family addr = AF_INET6 \<and> 24 \<le> length addr \<and> accepts addr then 0
      else - 1)"

definition sizeof_sockaddr :: nat where "sizeof_sockaddr = 16"

definition bind_address :: "(byte list \<Rightarrow> bool) \<Rightarrow> int \<Rightarrow> inet_address \<Rightarrow> unit res" where
  "bind_address accepts sock_fd local_addr =
     bind_res (check (0 < sock_fd) AssertFailed) (\<lambda>_.
     let ret = os_bind accepts (take sizeof_sockaddr local_addr)
     in if ret \<noteq> 0 then Inl ProcessExit else Inr ())"

definition socket_listen :: "int \<Rightarrow> int \<Rightarrow> int res" where
  "socket_listen ret sock_fd = bind_res (check (sock_fd \<noteq> 0) AssertFailed) (\<lambda>_. Inr ret)"

text \<open>\<open>Accept\<close>, given the descriptor and the address bytes \<open>accept(2)\<close> wrote.\<close>

definition socket_accept :: "int \<Rightarrow> byte list \<Rightarrow> inet_address \<Rightarrow> int \<times> inet_address" where
  "socket_accept connfd bytes peer =
     (let addr6 = ia_put 0 (take 28 bytes) sockaddr_in6_zero
      in (connfd, if 0 \<le> connfd then addr6 else peer))"

text \<open>\<open>Read\<close>, given the bytes \<open>read(2)\<close> stored, or \<open>None\<close> for an error: the count becomes an \<open>int\<close>.\<close>

definition socket_read :: "byte list option \<Rightarrow> byte list \<Rightarrow> 32 word \<times> byte list" where
  "socket_read result buf =
     (case result of None \<Rightarrow> (- 1, buf) | Some bs \<Rightarrow> (word_of_nat (length bs), bs @ drop (length bs) buf))"

text \<open>\<open>GetLocalAddr\<close> and \<open>GetPeerAddr\<close>, given the bytes the system call wrote, if it did.\<close>

definition get_local_addr :: "byte list option \<Rightarrow> inet_address" where
  "get_local_addr result =
     (case result of None \<Rightarrow> sockaddr_in6_zero | Some bytes \<Rightarrow> ia_put 0 (take 28 bytes) sockaddr_in6_zero)"

definition get_peer_addr :: "byte list option \<Rightarrow> inet_address" where
  "get_peer_addr result =
     (case result of None \<Rightarrow> sockaddr_in6_zero | Some bytes \<Rightarrow> ia_put 0 (take 28 bytes) sockaddr_in6_zero)"

definition socket_close :: "int \<Rightarrow> int list" where
  "socket_close sock_fd = (if 0 \<le> sock_fd then [sock_fd] else [])"

definition create_nonblocking_socket :: "int \<Rightarrow> int res" where
  "create_nonblocking_socket sock_fd = (if sock_fd < 0 then Inl ProcessExit else Inr sock_fd)"

text \<open>
  \<open>fcntl(2)\<close>: \<open>F_SETFL\<close> changes the settable status flags only; close-on-exec is a
  descriptor flag, which \<open>F_SETFD\<close> would set.
\<close>

record fd_flags =
  status_flags :: "32 word"
  close_on_exec :: bool

definition O_NONBLOCK :: "32 word" where "O_NONBLOCK = 0x800"
definition O_CLOEXEC :: "32 word" where "O_CLOEXEC = 0x80000"
definition settable_flags :: "32 word" where "settable_flags = 0x46C00"

definition fcntl_setfl :: "32 word \<Rightarrow> fd_flags \<Rightarrow> fd_flags" where
  "fcntl_setfl w f = f\<lparr>status_flags := (status_flags f AND NOT settable_flags) OR (w AND settable_flags)\<rparr>"

definition set_nonblock_and_close_exec :: "fd_flags \<Rightarrow> fd_flags" where
  "set_nonblock_and_close_exec f =
     (let f = fcntl_setfl (status_flags f OR O_NONBLOCK) f
      in fcntl_setfl (status_flags f OR O_CLOEXEC) f)"

section \<open>Fields\<close>

lemma ia_get_put_same: "off + length bs \<le> length ia \<Longrightarrow> n = length bs \<Longrightarrow> ia_get off n (ia_put off bs ia) = bs"
  by (simp add: ia_get_def ia_put_def window_write_at)

lemma ia_get_put_before: "off + n \<le> off' \<Longrightarrow> off' \<le> length ia \<Longrightarrow> ia_get off n (ia_put off' bs ia) = ia_get off n ia"
  by (simp add: ia_get_def ia_put_def window_write_before)

lemma ia_get_put_after:
  "off' + length bs \<le> off \<Longrightarrow> off' + length bs \<le> length ia \<Longrightarrow> ia_get off n (ia_put off' bs ia) = ia_get off n ia"
  by (simp add: ia_get_def ia_put_def window_write_after)

lemma length_ia_put [simp]: "off + length bs \<le> length ia \<Longrightarrow> length (ia_put off bs ia) = length ia"
  by (simp add: ia_put_def)

lemmas ia_fields = ia_get_put_same ia_get_put_before ia_get_put_after

text \<open>What the constructors make of the fields, whatever the uninitialised bytes hold.\<close>

lemma length_af [simp]: "length (store_le AF_INET) = 2" "length (store_le AF_INET6) = 2"
  "length (store_le (w16 :: 16 word)) = 2" "length (store_le (w32 :: 32 word)) = 4"
  by simp_all

lemma pton4_length: "inet_pton4 s = Some bs \<Longrightarrow> length bs = 4"
  by (auto simp: inet_pton4_def split: list.splits option.splits)

lemma sockaddr_lengths [simp]:
  "length garbage = 12 \<Longrightarrow> length (sockaddr_in_zero garbage) = 28"
  "length sockaddr_in6_zero = 28"
  by (simp_all add: sockaddr_in_zero_def sockaddr_in6_zero_def)

definition ia_v4 :: "inet_address \<Rightarrow> byte list \<Rightarrow> 16 word \<Rightarrow> bool" where
  "ia_v4 ia ip port \<longleftrightarrow> length ia = 28 \<and> ia_get 0 2 ia = store_le AF_INET \<and>
     ia_get 2 2 ia = store_le (htons port) \<and> ia_get 4 4 ia = ip"

definition ia_v6 :: "inet_address \<Rightarrow> byte list \<Rightarrow> 16 word \<Rightarrow> bool" where
  "ia_v6 ia ip port \<longleftrightarrow> length ia = 28 \<and> ia_get 0 2 ia = store_le AF_INET6 \<and>
     ia_get 2 2 ia = store_le (htons port) \<and> ia_get 8 16 ia = ip"

lemma ia_v4_simps:
  assumes "ia_v4 ia ip port"
  shows "ia_family ia = AF_INET" "ia_to_port ia = port" "ia_to_ip ntop6 ia = Inr (inet_ntop4 ip)"
    "ia_to_ip_port ntop6 ia = Inr (inet_ntop4 ip @ '':'' @ dec (unat port))"
proof -
  show f: "ia_family ia = AF_INET" using assms by (simp add: ia_v4_def ia_family_def)
  have p: "ia_port_net_endian ia = htons port" using assms by (simp add: ia_v4_def ia_port_net_endian_def)
  then show "ia_to_port ia = port" by (simp add: ia_to_port_def)
  show i: "ia_to_ip ntop6 ia = Inr (inet_ntop4 ip)" using assms f by (simp add: ia_to_ip_def ia_v4_def)
  show "ia_to_ip_port ntop6 ia = Inr (inet_ntop4 ip @ '':'' @ dec (unat port))"
    using i p by (simp add: ia_to_ip_port_def)
qed

lemma af_distinct: "AF_INET6 \<noteq> AF_INET"
  by (simp add: AF_INET_def AF_INET6_def)

lemma ia_v6_simps:
  assumes "ia_v6 ia ip port"
  shows "ia_family ia = AF_INET6" "ia_to_port ia = port" "ia_to_ip ntop6 ia = Inr (ntop6 ip)"
    "ia_to_ip_port ntop6 ia = Inr (ntop6 ip @ '':'' @ dec (unat port))"
proof -
  show f: "ia_family ia = AF_INET6" using assms by (simp add: ia_v6_def ia_family_def)
  have p: "ia_port_net_endian ia = htons port" using assms by (simp add: ia_v6_def ia_port_net_endian_def)
  then show "ia_to_port ia = port" by (simp add: ia_to_port_def)
  show i: "ia_to_ip ntop6 ia = Inr (ntop6 ip)" using assms f af_distinct by (simp add: ia_to_ip_def ia_v6_def)
  show "ia_to_ip_port ntop6 ia = Inr (ntop6 ip @ '':'' @ dec (unat port))"
    using i p by (simp add: ia_to_ip_port_def)
qed

lemma zero_ip: "length garbage = 12 \<Longrightarrow> ia_get 4 4 (sockaddr_in_zero garbage) = [0, 0, 0, 0]"
  by (simp add: ia_get_def sockaddr_in_zero_def window_def numeral_eq_Suc)

lemma ia_of_ip_v4:
  assumes "length garbage = 12"
  shows "ia_v4 (ia_of_ip pton6 garbage ip port False) (case inet_pton4 ip of Some bs \<Rightarrow> bs | None \<Rightarrow> [0, 0, 0, 0]) port"
proof (cases "inet_pton4 ip")
  case None
  then show ?thesis using assms by (simp add: ia_v4_def ia_of_ip_def ia_fields zero_ip)
next
  case (Some bs)
  then show ?thesis using assms pton4_length [OF Some] by (simp add: ia_v4_def ia_of_ip_def ia_fields)
qed

lemma ia_of_ip_v6:
  assumes "pton6 ip = Some bs" and "length bs = 16"
  shows "ia_v6 (ia_of_ip pton6 garbage ip port True) bs port"
  using assms by (simp add: ia_v6_def ia_of_ip_def ia_fields)

lemma le_bytes_4: "le_bytes 4 v =
    [word_of_nat v, word_of_nat (v div 256), word_of_nat (v div 256 div 256), word_of_nat (v div 256 div 256 div 256)]"
proof -
  have "(4 :: nat) = Suc (Suc (Suc (Suc 0)))" by simp
  then show ?thesis by (simp only: le_bytes.simps)
qed

lemma ia_of_port_v4:
  assumes "length garbage = 12"
  shows "ia_v4 (ia_of_port garbage port lo False) (if lo then [127, 0, 0, 1] else [0, 0, 0, 0]) port"
proof -
  have b: "store_le (htonl kInaddrLoopback) = [127, 0, 0, 1]" "store_le (htonl kInaddrAny) = [0, 0, 0, 0]"
    unfolding store_htonl kInaddrLoopback_def kInaddrAny_def be_bytes_def le_bytes_4
    by simp_all
  show ?thesis
    using assms by (simp add: ia_v4_def ia_of_port_def ia_fields b)
qed

lemma ia_of_port_v6: "ia_v6 (ia_of_port garbage port lo True) (if lo then in6_loopback else in6_any) port"
  by (simp add: ia_v6_def ia_of_port_def ia_fields in6_loopback_def in6_any_def)

text \<open>The addresses the system writes: a \<open>sockaddr_in\<close> and a \<open>sockaddr_in6\<close> (flow and scope zero).\<close>

definition sock_bytes_v4 :: "byte list \<Rightarrow> 16 word \<Rightarrow> byte list" where
  "sock_bytes_v4 ip port = store_le AF_INET @ store_le (htons port) @ ip @ replicate 8 0"

definition sock_bytes_v6 :: "byte list \<Rightarrow> 16 word \<Rightarrow> byte list" where
  "sock_bytes_v6 ip port = store_le AF_INET6 @ store_le (htons port) @ replicate 4 0 @ ip @ replicate 4 0"

lemma sys_addr_v4:
  assumes "length ip = 4"
  shows "ia_v4 (ia_put 0 (take 28 (sock_bytes_v4 ip port)) sockaddr_in6_zero) ip port"
  using assms by (simp add: ia_v4_def sock_bytes_v4_def ia_put_def sockaddr_in6_zero_def ia_get_def window_def)

lemma sys_addr_v6:
  assumes "length ip = 16"
  shows "ia_v6 (ia_put 0 (take 28 (sock_bytes_v6 ip port)) sockaddr_in6_zero) ip port"
  using assms by (simp add: ia_v6_def sock_bytes_v6_def ia_put_def sockaddr_in6_zero_def ia_get_def window_def)

section \<open>Properties\<close>

text \<open>\<open>Read\<close> gives the count as it is, and not cut off or negative: \<open>read(2)\<close> transfers at most
  \<open>0x7ffff000\<close> bytes, however large \<open>len\<close>.\<close>

theorem socket_read_count:
  assumes "length bs \<le> 0x7ffff000" and "length bs \<le> length buf"
  shows "sint (fst (socket_read (Some bs) buf)) = int (length bs) \<and>
    take (length bs) (snd (socket_read (Some bs) buf)) = bs \<and> length (snd (socket_read (Some bs) buf)) = length buf \<and>
    socket_read None buf = (- 1, buf)"
proof -
  have "sint (word_of_nat (length bs) :: 32 word) = signed_take_bit 31 (int (length bs))"
    by (simp add: signed_of_nat)
  also have "\<dots> = int (length bs)"
    by (rule signed_take_bit_int_eq_self) (use assms(1) in simp_all)
  finally show ?thesis using assms(2) by (simp add: socket_read_def)
qed

text \<open>C38: An address made from dotted text and a port gives back that text, port and family,
  and so does an IPv6 one for texts \<open>inet_pton\<close> and \<open>inet_ntop\<close> agree on; a text that is not
  an address is logged as an error and gives \<open>0.0.0.0\<close> all the same. The bytes the IPv4 constructor leaves uninitialised
  never show.\<close>

theorem inet_address_text:
  assumes "length garbage = 12"
  shows "(let ia = ia_of_ip pton6 garbage (inet_ntop4 [a, b, c, d]) port False in
      ia_to_ip_port ntop6 ia = Inr (inet_ntop4 [a, b, c, d] @ '':'' @ dec (unat port)) \<and>
      ia_to_port ia = port \<and> ia_family ia = AF_INET) \<and>
    (pton6 s = Some bs \<and> length bs = 16 \<and> ntop6 bs = s \<longrightarrow>
      ia_to_ip_port ntop6 (ia_of_ip pton6 garbage s port True) = Inr (s @ '':'' @ dec (unat port))) \<and>
    (inet_pton4 s = None \<longrightarrow> ia_to_ip ntop6 (ia_of_ip pton6 garbage s port False) = Inr ''0.0.0.0'') \<and>
    ia_to_ip ntop6 (ia_of_port garbage port lo False) = Inr (if lo then ''127.0.0.1'' else ''0.0.0.0'')"
proof -
  have z: "inet_ntop4 [0, 0, 0, 0] = ''0.0.0.0''" "inet_ntop4 [127, 0, 0, 1] = ''127.0.0.1''"
    using digit_char by (simp_all add: dec_lt10 dec_ge10)
  show ?thesis
    using ia_v4_simps [OF ia_of_ip_v4 [OF assms, of pton6 "inet_ntop4 [a, b, c, d]" port]]
      ia_v4_simps(3) [OF ia_of_ip_v4 [OF assms, of pton6 s port]]
      ia_v6_simps(4) [OF ia_of_ip_v6, of pton6 s bs ntop6 garbage port]
      ia_v4_simps(3) [OF ia_of_port_v4 [OF assms, of port lo]]
    by (simp add: pton_ntop4 z Let_def del: inet_ntop4.simps)
qed

theorem inet_address_text_witness:
  "ia_to_ip (\<lambda>bs. []) (ia_of_port (replicate 12 7) 8080 True False) = Inr ''127.0.0.1'' \<and>
   ia_to_port (ia_of_ip (\<lambda>s. None) (replicate 12 7) (inet_ntop4 [192, 168, 0, 1]) 8080 False) = 8080 \<and>
   ia_to_ip (\<lambda>bs. []) (ia_of_ip (\<lambda>s. None) (replicate 12 7) ''x'' 8080 False) = Inr ''0.0.0.0''"
proof -
  have x: "inet_pton4 ''x'' = None" by (simp add: inet_pton4_def split_dots_plain split: option.split)
  have "ia_to_ip (\<lambda>bs. []) (ia_of_ip (\<lambda>s. None) (replicate 12 7) ''x'' 8080 False) = Inr ''0.0.0.0''"
    using inet_address_text [of "replicate 12 7" "\<lambda>s. None" 192 168 0 1 8080 "\<lambda>bs. []" "''x''" "[]" True] x by simp
  moreover have "ia_to_port (ia_of_ip (\<lambda>s. None) (replicate 12 7) (inet_ntop4 [192, 168, 0, 1]) 8080 False) = 8080"
    using inet_address_text [of "replicate 12 7" "\<lambda>s. None" 192 168 0 1 8080 "\<lambda>bs. []" "''x''" "[]" True]
    by (simp add: Let_def del: inet_ntop4.simps)
  ultimately show ?thesis
    using inet_address_text [of "replicate 12 7" "\<lambda>s. None" 1 2 3 4 8080 "\<lambda>bs. []" "[]" "[]" True] by simp
qed

text \<open>C40: \<open>BindAddress\<close> passes the length of a \<open>sockaddr\<close>, which is too short for IPv6: it
  binds every IPv4 address the system accepts, but with an IPv6 address it always ends the
  process.\<close>

theorem bind_ipv6_exits:
  assumes "0 < fd" and "length ia = 28"
  shows "(ia_family ia = AF_INET6 \<longrightarrow> bind_address accepts fd ia = Inl ProcessExit) \<and>
    (ia_family ia = AF_INET \<longrightarrow>
       bind_address accepts fd ia = (if accepts (take 16 ia) then Inr () else Inl ProcessExit))"
proof -
  have "ia_family (take 16 ia) = ia_family ia"
    by (simp add: ia_family_def ia_get_def window_def)
  then show ?thesis
    using assms af_distinct by (auto simp: bind_address_def os_bind_def sizeof_sockaddr_def Let_def)
qed

theorem bind_ipv6_exits_witness:
  "bind_address (\<lambda>a. True) 3 (ia_of_port [] 80 True True) = Inl ProcessExit"
  using bind_ipv6_exits [of 3 "ia_of_port [] 80 True True" "\<lambda>a. True"]
    ia_v6_simps(1) [OF ia_of_port_v6, of "[]" 80 True] ia_of_port_v6 [of "[]" 80 True]
  by (simp add: ia_v6_def)

text \<open>\<open>resolve\<close> leaves port and family alone, as its comment says, and gives an IPv4
  address the resolved number; for an IPv6 address it reports success and leaves the address
  as it was. On failure nothing changes.\<close>

theorem resolve_keeps_port:
  assumes "length ia = 28" and "length addr = 4"
  shows "\<exists>ia'. ia_resolve 0 (Some (AF_INET, addr)) ia = Inr (True, ia') \<and>
    ia_to_port ia' = ia_to_port ia \<and> ia_family ia' = ia_family ia \<and>
    (ia_family ia = AF_INET \<longrightarrow> ia_to_ip ntop6 ia' = Inr (inet_ntop4 addr)) \<and>
    (ia_family ia = AF_INET6 \<longrightarrow> ia_to_ip ntop6 ia' = ia_to_ip ntop6 ia) \<and>
    ia_resolve 0 None ia = Inr (False, ia)"
proof -
  have g: "ia_get 0 2 (ia_put 4 addr ia) = ia_get 0 2 ia" "ia_get 2 2 (ia_put 4 addr ia) = ia_get 2 2 ia"
    "ia_get 4 4 (ia_put 4 addr ia) = addr" "ia_get 8 16 (ia_put 4 addr ia) = ia_get 8 16 ia"
    using assms by (simp_all add: ia_fields)
  show ?thesis
    using af_distinct assms(2)
    by (auto simp: ia_resolve_def ia_to_port_def ia_port_net_endian_def ia_family_def ia_to_ip_def g)
qed

theorem resolve_keeps_port_witness:
  "\<exists>ia'. ia_resolve 0 (Some (AF_INET, [10, 0, 0, 1])) (ia_of_port (replicate 12 0) 80 False False) = Inr (True, ia') \<and>
     ia_to_ip (\<lambda>bs. []) ia' = Inr (inet_ntop4 [10, 0, 0, 1])"
  using resolve_keeps_port [of "ia_of_port (replicate 12 0) 80 False False" "[10, 0, 0, 1]" "\<lambda>bs. []"]
    ia_of_port_v4 [of "replicate 12 0" 80 False] ia_v4_simps(1) [OF ia_of_port_v4, of "replicate 12 0" 80 False]
  by (auto simp: ia_v4_def)

text \<open>\<open>SetNoncBlockAndCloseExec\<close> makes the descriptor non-blocking but never close-on-exec,
  which is not a status flag.\<close>

theorem close_exec_not_set:
  "status_flags (set_nonblock_and_close_exec f) AND O_NONBLOCK = O_NONBLOCK \<and>
   close_on_exec (set_nonblock_and_close_exec f) = close_on_exec f \<and>
   status_flags (set_nonblock_and_close_exec f) AND O_CLOEXEC = status_flags f AND O_CLOEXEC"
proof -
  have o: "O_NONBLOCK = 2 ^ 11" "O_CLOEXEC = 2 ^ 19"
    by (simp_all add: O_NONBLOCK_def O_CLOEXEC_def)
  have b: "bit O_NONBLOCK n \<longleftrightarrow> n = 11" "bit O_CLOEXEC n \<longleftrightarrow> n = 19" for n
    unfolding o bit_exp_iff by auto
  have s: "bit settable_flags 11" "\<not> bit settable_flags 19"
    by (simp_all add: settable_flags_def)
  show ?thesis
    by (auto simp: set_nonblock_and_close_exec_def fcntl_setfl_def Let_def b s bit_simps intro!: bit_word_eqI)
qed

end
