(* ===== verification/Tcp_Connection.thy ===== *)
theory Tcp_Connection
  imports Traces Msg_Buffer Poller_Channel
begin

text \<open>
  \<open>TcpConnection\<close> (\<open>src/water/net/tcp_connection.h\<close>, \<open>tcp_connection.cc\<close>): a socket, its
  channel in the poller of the loop, and a read and a write buffer. The handlers are functions
  on the connection together with that poller; the results of \<open>readv\<close> and \<open>write\<close> are
  arguments. What the user's callbacks do is the argument \<open>user\<close>: the calls each makes on the
  connection, which run at once as \<open>RunInLoop\<close> runs them in the loop's thread. A step relation
  puts the handlers in any order; \<open>in_loop\<close> is what \<open>AssertInLoopThread\<close> sees. The pending
  output is a byte queue, so the order of the bytes is that interface's.
\<close>

section \<open>State\<close>

datatype conn_state = Disconnected | Connecting | Connected | Disconnecting

text \<open>
  The callbacks the objects of the library give their channels, each bound to its object: a
  connection, the acceptor, the timer queue or the loop. \<open>conn_event\<close> names the callbacks the
  user gives a connection.
\<close>

datatype io_callback = ReadCb nat | WriteCb nat | AcceptCb | TimerCb | WakeCb

datatype conn_event = ConnCallback | CloseCallback | RecvCallback

record tcp_connection =
  tc_poller :: "io_callback poller"
  tc_this :: nat       \<comment> \<open>the address of the connection\<close>
  tc_chan :: nat       \<comment> \<open>the address of \<open>io_channel_ptr_\<close>\<close>
  tc_fd :: int
  read_buffer :: msg_buffer
  write_buffer :: msg_buffer
  tc_state :: conn_state
  recv_set :: bool
  conn_set :: bool
  close_set :: bool
  write_closed :: bool  \<comment> \<open>\<open>shutdown(SHUT_WR)\<close> was called\<close>

definition tc_channel :: "tcp_connection \<Rightarrow> io_callback channel option" where
  "tc_channel c = heap (tc_poller c) (tc_chan c)"

definition tc_writing :: "tcp_connection \<Rightarrow> bool" where
  "tc_writing c = (case tc_channel c of Some ch \<Rightarrow> is_writing ch | None \<Rightarrow> False)"

definition chan_do :: "bool \<Rightarrow> (int \<Rightarrow> bool) \<Rightarrow> chan_op \<Rightarrow> tcp_connection \<Rightarrow> tcp_connection res" where
  "chan_do in_loop valid cop c =
     bind_res (chan_apply in_loop valid cop (tc_chan c) (tc_poller c)) (\<lambda>s. Inr (c\<lparr>tc_poller := s\<rparr>))"

definition buffer_def_len :: nat where "buffer_def_len = 2048"

text \<open>
  The constructor, with the channel at a new address. It gives \<open>state_\<close> no value, so what the
  member holds is an argument.
\<close>

definition tc_new ::
  "bool \<Rightarrow> (int \<Rightarrow> bool) \<Rightarrow> conn_state \<Rightarrow> nat \<Rightarrow> nat \<Rightarrow> int \<Rightarrow> io_callback poller \<Rightarrow> tcp_connection res" where
  "tc_new in_loop valid garbage this p fd s =
     bind_res (mb_new buffer_def_len) (\<lambda>rb.
     bind_res (mb_new buffer_def_len) (\<lambda>wb.
     let ch = set_write_callback (WriteCb this) (set_read_callback (ReadCb this) (channel_new fd));
         c = \<lparr>tc_poller = s\<lparr>heap := (heap s)(p \<mapsto> ch)\<rparr>, tc_this = this, tc_chan = p, tc_fd = fd,
              read_buffer = rb, write_buffer = wb, tc_state = garbage, recv_set = False,
              conn_set = False, close_set = False, write_closed = False\<rparr>
     in chan_do in_loop valid EnableReading c))"

section \<open>Calls of the user\<close>

text \<open>\<open>Socket::CloseWrite\<close>, and the closures \<open>Shutdown\<close> and \<open>Send\<close> pass to \<open>RunInLoop\<close>.\<close>

definition close_write :: "tcp_connection \<Rightarrow> tcp_connection" where
  "close_write c = c\<lparr>write_closed := True\<rparr>"

declare close_write_def [simp]

definition conn_shutdown :: "tcp_connection \<Rightarrow> tcp_connection" where
  "conn_shutdown c =
     (if tc_state c = Connected then
        let c = c\<lparr>tc_state := Disconnecting\<rparr>
        in if \<not> tc_writing c then close_write c else c
      else c)"

definition send_in_loop :: "bool \<Rightarrow> (int \<Rightarrow> bool) \<Rightarrow> byte list \<Rightarrow> tcp_connection \<Rightarrow> tcp_connection res" where
  "send_in_loop in_loop valid msg c =
     bind_res (check in_loop ProcessExit) (\<lambda>_.
     bind_res (mb_append_str (write_buffer c) msg) (\<lambda>wb.
     let c = c\<lparr>write_buffer := wb\<rparr> in
     if \<not> tc_writing c then chan_do in_loop valid EnableWriting c else Inr c))"

definition conn_send :: "(int \<Rightarrow> bool) \<Rightarrow> byte list \<Rightarrow> tcp_connection \<Rightarrow> tcp_connection res" where
  "conn_send valid msg c = send_in_loop True valid msg c"

text \<open>
  What a callback does with the connection it is given: send, shut down, or take bytes from the
  read buffer.
\<close>

datatype conn_call = CallSend "byte list" | CallShutdown | CallRetrieve nat

definition conn_call_do :: "(int \<Rightarrow> bool) \<Rightarrow> conn_call \<Rightarrow> tcp_connection \<Rightarrow> tcp_connection res" where
  "conn_call_do valid call c =
     (case call of CallSend msg \<Rightarrow> conn_send valid msg c
      | CallShutdown \<Rightarrow> Inr (conn_shutdown c)
      | CallRetrieve n \<Rightarrow> Inr (c\<lparr>read_buffer := mb_retrieve (read_buffer c) n\<rparr>))"

fun conn_calls :: "(int \<Rightarrow> bool) \<Rightarrow> conn_call list \<Rightarrow> tcp_connection \<Rightarrow> tcp_connection res" where
  "conn_calls valid [] c = Inr c"
| "conn_calls valid (call # calls) c = bind_res (conn_call_do valid call c) (conn_calls valid calls)"

type_synonym user = "conn_event \<Rightarrow> tcp_connection \<Rightarrow> conn_call list"

text \<open>A callback runs: what it was and what it called.\<close>

definition call_user ::
  "(int \<Rightarrow> bool) \<Rightarrow> user \<Rightarrow> conn_event \<Rightarrow> tcp_connection \<Rightarrow> (tcp_connection \<times> (conn_event \<times> conn_call list) list) res" where
  "call_user valid user e c =
     bind_res (conn_calls valid (user e c) c) (\<lambda>d. Inr (d, [(e, user e c)]))"

definition call_if ::
  "bool \<Rightarrow> (int \<Rightarrow> bool) \<Rightarrow> user \<Rightarrow> conn_event \<Rightarrow> tcp_connection \<Rightarrow> (tcp_connection \<times> (conn_event \<times> conn_call list) list) res" where
  "call_if b valid user e c = (if b then call_user valid user e c else Inr (c, []))"

section \<open>Handlers\<close>

type_synonym called = "(conn_event \<times> conn_call list) list"

definition handle_close ::
  "bool \<Rightarrow> (int \<Rightarrow> bool) \<Rightarrow> user \<Rightarrow> tcp_connection \<Rightarrow> (tcp_connection \<times> called) res" where
  "handle_close in_loop valid user c =
     bind_res (check in_loop ProcessExit) (\<lambda>_.
     bind_res (chan_do in_loop valid DisableAll (c\<lparr>tc_state := Disconnected\<rparr>)) (\<lambda>c.
     bind_res (call_if (conn_set c) valid user ConnCallback c) (\<lambda>(c, evs).
     bind_res (call_if (close_set c) valid user CloseCallback c) (\<lambda>(c, evs').
     Inr (c, evs @ evs')))))"

text \<open>\<open>n\<close> is a \<open>size_t\<close>: the test \<open>n<0\<close> is never true and an error is the largest value.\<close>

definition tc_read_callback ::
  "bool \<Rightarrow> (int \<Rightarrow> bool) \<Rightarrow> user \<Rightarrow> nat + byte list \<Rightarrow> tcp_connection \<Rightarrow> (tcp_connection \<times> called) res" where
  "tc_read_callback in_loop valid user readv c =
     bind_res (check in_loop ProcessExit) (\<lambda>_.
     bind_res (mb_read_fd (read_buffer c) readv) (\<lambda>(n, rb, ret_errno).
     let c = c\<lparr>read_buffer := rb\<rparr> in
     bind_res (if n = 0 then handle_close in_loop valid user c else Inr (c, [])) (\<lambda>(c, evs).
     bind_res (call_if (0 < n \<and> recv_set c) valid user RecvCallback c) (\<lambda>(c, evs').
     Inr (c, evs @ evs')))))"

text \<open>
  \<open>WriteCallback\<close>, given the number of bytes \<open>write\<close> took or \<open>None\<close> for an error it returned
  (\<open>SIGPIPE\<close>, which comes with \<open>EPIPE\<close> and ends a process that does not ignore it, is not
  modelled), which as a \<open>size_t\<close> is \<open>2\<^sup>6\<^sup>4 - 1\<close>. The second result is the bytes written.
\<close>

definition tc_write_callback ::
  "bool \<Rightarrow> (int \<Rightarrow> bool) \<Rightarrow> nat option \<Rightarrow> tcp_connection \<Rightarrow> (tcp_connection \<times> byte list) res" where
  "tc_write_callback in_loop valid wr c =
     bind_res (check in_loop ProcessExit) (\<lambda>_.
     if tc_writing c then
       if mb_readable (write_buffer c) \<le> 0 then
         bind_res (chan_do in_loop valid DisableWriting c) (\<lambda>c.
         Inr (if tc_state c = Disconnecting then close_write c else c, []))
       else
         let n = (case wr of Some k \<Rightarrow> k | None \<Rightarrow> 2 ^ 64 - 1);
             out = (case wr of Some k \<Rightarrow> take k (mb_contents (write_buffer c)) | None \<Rightarrow> [])
         in Inr (c\<lparr>write_buffer := mb_retrieve (write_buffer c) n\<rparr>, out)
     else Inr (c, []))"

definition connection_established ::
  "bool \<Rightarrow> (int \<Rightarrow> bool) \<Rightarrow> user \<Rightarrow> tcp_connection \<Rightarrow> (tcp_connection \<times> called) res" where
  "connection_established in_loop valid user c =
     bind_res (check in_loop ProcessExit) (\<lambda>_.
     bind_res (check (tc_state c = Connecting) AssertFailed) (\<lambda>_.
     case tc_channel c of None \<Rightarrow> Inl OutOfBounds | Some ch \<Rightarrow>
       let s = tc_poller c;
           c = c\<lparr>tc_poller := s\<lparr>heap := (heap s)(tc_chan c \<mapsto> tie_to (tc_this c) ch)\<rparr>\<rparr> in
       bind_res (chan_do in_loop valid EnableReading c) (\<lambda>c.
       let c = c\<lparr>tc_state := Connected\<rparr> in call_if (conn_set c) valid user ConnCallback c)))"

text \<open>\<open>ConnectionDestroy\<close> calls \<open>conn_callback_\<close> without testing that it is set.\<close>

definition connection_destroy ::
  "bool \<Rightarrow> dispatching \<Rightarrow> (int \<Rightarrow> bool) \<Rightarrow> user \<Rightarrow> tcp_connection \<Rightarrow> (tcp_connection \<times> called) res" where
  "connection_destroy in_loop dsp valid user c =
     bind_res (check in_loop ProcessExit) (\<lambda>_.
     bind_res (if tc_state c = Connected
               then bind_res (chan_do in_loop valid DisableAll (c\<lparr>tc_state := Disconnected\<rparr>)) (\<lambda>c.
                    bind_res (check (conn_set c) NullCall) (\<lambda>_. call_user valid user ConnCallback c))
               else Inr (c, [])) (\<lambda>(c, evs).
     bind_res (chan_remove in_loop dsp valid (tc_chan c) (tc_poller c)) (\<lambda>s. Inr (c\<lparr>tc_poller := s\<rparr>, evs))))"

section \<open>The connection as a step relation\<close>

text \<open>
  \<open>Wrote\<close> is a \<open>WriteCallback\<close> that reaches \<open>write\<close>, with the bytes it wrote;
  \<open>WriteIdle\<close> is one that does not.
\<close>

datatype tc_act =
    Called conn_call | Wrote "nat option" "byte list" | WriteIdle
  | ReadEvent "nat + byte list" called | Established called | Destroyed called

definition will_write :: "tcp_connection \<Rightarrow> bool" where
  "will_write c \<longleftrightarrow> tc_writing c \<and> 0 < mb_readable (write_buffer c)"

inductive tc_step :: "(int \<Rightarrow> bool) \<Rightarrow> user \<Rightarrow> tcp_connection \<Rightarrow> tc_act \<Rightarrow> tcp_connection \<Rightarrow> bool"
  for valid user where
  called: "conn_call_do valid call c = Inr d \<Longrightarrow> tc_step valid user c (Called call) d"
| wrote: "will_write c \<Longrightarrow> tc_write_callback True valid wr c = Inr (d, out) \<Longrightarrow>
    tc_step valid user c (Wrote wr out) d"
| write_idle: "\<not> will_write c \<Longrightarrow> tc_write_callback True valid wr c = Inr (d, []) \<Longrightarrow>
    tc_step valid user c WriteIdle d"
| read_event: "tc_read_callback True valid user readv c = Inr (d, evs) \<Longrightarrow>
    tc_step valid user c (ReadEvent readv evs) d"
| established: "connection_established True valid user c = Inr (d, evs) \<Longrightarrow>
    tc_step valid user c (Established evs) d"
| destroyed: "connection_destroy True dsp valid user c = Inr (d, evs) \<Longrightarrow>
    tc_step valid user c (Destroyed evs) d"

inductive_cases tc_stepE: "tc_step valid user c a d"

inductive_simps tc_step_simps [step_simps]:
  "tc_step valid user c (Called call) d"
  "tc_step valid user c (Wrote wr out) d"
  "tc_step valid user c WriteIdle d"
  "tc_step valid user c (ReadEvent readv evs) d"
  "tc_step valid user c (Established evs) d"
  "tc_step valid user c (Destroyed evs) d"

section \<open>The channel of a connection\<close>

text \<open>
  The channel is there, no other channel has its descriptor, and as long as it has events the
  kernel watches it.
\<close>

definition chan_frame :: "nat \<Rightarrow> 'f poller \<Rightarrow> 'f poller \<Rightarrow> bool" where
  "chan_frame p s s' \<longleftrightarrow> (\<forall>q. q \<noteq> p \<longrightarrow> heap s' q = heap s q) \<and>
     (\<forall>ch. heap s p = Some ch \<longrightarrow>
        (\<exists>e i. heap s' p = Some (ch\<lparr>events := e, index := i\<rparr>)) \<and>
        (\<forall>fd. fd \<noteq> ch_fd ch \<longrightarrow> channels s' fd = channels s fd) \<and>
        (channels s (ch_fd ch) = Some p \<longrightarrow> channels s' (ch_fd ch) = Some p)) \<and> event_list_size s' = event_list_size s"

lemma chan_frame_refl [simp]: "chan_frame p s s"
proof -
  have "\<exists>e i. ch = ch\<lparr>events := e, index := i\<rparr>" for ch :: "'a channel"
    by (rule exI [of _ "events ch"], rule exI [of _ "index ch"]) simp
  then show ?thesis by (auto simp: chan_frame_def)
qed

lemma chan_frame_trans: "chan_frame p s s' \<Longrightarrow> chan_frame p s' s'' \<Longrightarrow> chan_frame p s s''"
  unfolding chan_frame_def by (intro conjI; fastforce)

definition chan_ok :: "(int \<Rightarrow> bool) \<Rightarrow> io_callback poller \<Rightarrow> nat \<Rightarrow> bool" where
  "chan_ok valid s p \<longleftrightarrow> poller_inv s \<and> (\<exists>ch. heap s p = Some ch \<and>
     channels s (ch_fd ch) \<in> {None, Some p} \<and> valid (ch_fd ch) \<and> (events ch \<noteq> 0 \<longrightarrow> index ch = kAdded))"

lemma write_bit:
  "new_events EnableWriting e AND kWriteEvent \<noteq> 0"
  "new_events DisableWriting e AND kWriteEvent = 0"
  "new_events EnableReading e AND kWriteEvent = e AND kWriteEvent"
  "new_events DisableAll e AND kWriteEvent = 0"
proof -
  have b: "kWriteEvent = 2 ^ 2" "kReadEvent = 2 ^ 0 OR 2 ^ 1"
    by (simp_all add: kWriteEvent_def kReadEvent_def poll_flags)
  have w: "bit kWriteEvent n \<longleftrightarrow> n = 2" "bit kReadEvent n \<longleftrightarrow> n = 0 \<or> n = 1" for n
    unfolding b bit_or_iff bit_exp_iff by auto
  have "bit (new_events EnableWriting e AND kWriteEvent) 2"
    by (simp add: bit_simps w)
  then show "new_events EnableWriting e AND kWriteEvent \<noteq> 0" by auto
  show "new_events DisableWriting e AND kWriteEvent = 0"
    by (rule bit_word_eqI) (auto simp: bit_simps w)
  show "new_events EnableReading e AND kWriteEvent = e AND kWriteEvent"
    by (rule bit_word_eqI) (auto simp: bit_simps w)
  show "new_events DisableAll e AND kWriteEvent = 0" by (simp add: kNoneEvent_def)
qed

lemma chan_apply_chan_ok:
  assumes "chan_ok valid s p" and "heap s p = Some ch"
  obtains s' where "chan_apply True valid cop p s = Inr s'" "chan_ok valid s' p"
    "map_option events (heap s' p) = Some (new_events cop (events ch))"
    "map_option ch_fd (heap s' p) = Some (ch_fd ch)" "chan_frame p s s'"
proof -
  from assms have i: "poller_inv s" "channels s (ch_fd ch) \<in> {None, Some p}" "valid (ch_fd ch)"
    "events ch \<noteq> 0 \<longrightarrow> index ch = kAdded"
    by (auto simp: chan_ok_def)
  let ?d = "ch\<lparr>events := new_events cop (events ch), index := next_index cop ch\<rparr>"
  have "poller_inv (put_channel p ?d s)"
    by (rule put_channel_inv [OF i(1) assms(2)]) (use i(2) in \<open>simp_all add: next_index_def\<close>)
  moreover have "kAdded \<noteq> kNew" "kDeleted \<noteq> kNew" by (simp_all add: index_states)
  ultimately have "chan_ok valid (put_channel p ?d s) p"
    using i(3) by (auto simp: chan_ok_def put_channel_def next_index_def kNoneEvent_def)
  moreover have "chan_frame p s (put_channel p ?d s)"
    using assms(2) by (auto simp: chan_frame_def put_channel_def next_index_def index_states split: if_splits)
  ultimately show ?thesis
    using that [of "put_channel p ?d s"] chan_apply_ok [where valid = valid, OF i(1) assms(2) i(2,3), of cop]
    by (simp add: put_channel_def)
qed

lemma chan_ok_tie:
  assumes "chan_ok valid s p" and "heap s p = Some ch"
  shows "chan_ok valid (s\<lparr>heap := (heap s)(p \<mapsto> tie_to obj ch)\<rparr>) p"
proof -
  have i: "poller_inv s" "channels s (ch_fd ch) \<in> {None, Some p}" "valid (ch_fd ch)"
    "events ch \<noteq> 0 \<longrightarrow> index ch = kAdded"
    using assms by (auto simp: chan_ok_def)
  have "poller_inv (s\<lparr>heap := (heap s)(p \<mapsto> tie_to obj ch)\<rparr>)"
    by (rule heap_update_inv [OF i(1) assms(2)]) (simp_all add: tie_to_def)
  with i show ?thesis by (auto simp: chan_ok_def tie_to_def)
qed

text \<open>What the kernel is asked to watch for the descriptor of the channel.\<close>

lemma chan_ok_watched:
  assumes "chan_ok valid s p" and "heap s p = Some ch" and "events ch \<noteq> 0"
  shows "interests s (ch_fd ch) = Some (events ch, p)"
  using assms by (auto simp: chan_ok_def poller_inv_def)

definition tc_chan_ok :: "(int \<Rightarrow> bool) \<Rightarrow> tcp_connection \<Rightarrow> bool" where
  "tc_chan_ok valid c \<longleftrightarrow> chan_ok valid (tc_poller c) (tc_chan c) \<and>
     map_option ch_fd (tc_channel c) = Some (tc_fd c)"

text \<open>Parts of a connection that an update leaves alone.\<close>

lemma tc_frame [simp]:
  "tc_channel (c\<lparr>write_buffer := wb\<rparr>) = tc_channel c" "tc_channel (c\<lparr>read_buffer := wb\<rparr>) = tc_channel c"
  "tc_channel (c\<lparr>tc_state := st\<rparr>) = tc_channel c" "tc_channel (c\<lparr>write_closed := b\<rparr>) = tc_channel c"
  by (simp_all add: tc_channel_def)

lemma tc_frame_ok [simp]:
  "tc_writing (c\<lparr>write_buffer := wb\<rparr>) = tc_writing c" "tc_writing (c\<lparr>read_buffer := wb\<rparr>) = tc_writing c"
  "tc_writing (c\<lparr>tc_state := st\<rparr>) = tc_writing c" "tc_writing (c\<lparr>write_closed := b\<rparr>) = tc_writing c"
  "tc_chan_ok valid (c\<lparr>write_buffer := wb\<rparr>) = tc_chan_ok valid c"
  "tc_chan_ok valid (c\<lparr>read_buffer := wb\<rparr>) = tc_chan_ok valid c"
  "tc_chan_ok valid (c\<lparr>tc_state := st\<rparr>) = tc_chan_ok valid c"
  "tc_chan_ok valid (c\<lparr>write_closed := b\<rparr>) = tc_chan_ok valid c"
  by (simp_all add: tc_writing_def tc_chan_ok_def)

lemma chan_do_E:
  assumes "tc_chan_ok valid c"
  obtains s where "chan_do True valid cop c = Inr (c\<lparr>tc_poller := s\<rparr>)" "tc_chan_ok valid (c\<lparr>tc_poller := s\<rparr>)"
    "tc_writing (c\<lparr>tc_poller := s\<rparr>) \<longleftrightarrow>
       (case cop of EnableWriting \<Rightarrow> True | DisableWriting \<Rightarrow> False | DisableAll \<Rightarrow> False | EnableReading \<Rightarrow> tc_writing c
        | DisableReading \<Rightarrow> tc_writing (c\<lparr>tc_poller := s\<rparr>))"
    "map_option events (heap s (tc_chan c)) = map_option (\<lambda>ch. new_events cop (events ch)) (tc_channel c)"
    "chan_frame (tc_chan c) (tc_poller c) s"
proof -
  obtain ch where ch: "heap (tc_poller c) (tc_chan c) = Some ch" "ch_fd ch = tc_fd c"
    using assms by (auto simp: tc_channel_def tc_chan_ok_def)
  obtain s where s: "chan_apply True valid cop (tc_chan c) (tc_poller c) = Inr s" "chan_ok valid s (tc_chan c)"
    "map_option events (heap s (tc_chan c)) = Some (new_events cop (events ch))"
    "map_option ch_fd (heap s (tc_chan c)) = Some (ch_fd ch)" "chan_frame (tc_chan c) (tc_poller c) s"
    by (rule chan_apply_chan_ok [of valid "tc_poller c" "tc_chan c" ch cop])
      (use assms ch(1) in \<open>simp_all add: tc_chan_ok_def\<close>)
  then obtain ch' where ch': "heap s (tc_chan c) = Some ch'" "events ch' = new_events cop (events ch)" by auto
  have w: "tc_writing c \<longleftrightarrow> events ch AND kWriteEvent \<noteq> 0"
    "tc_writing (c\<lparr>tc_poller := s\<rparr>) \<longleftrightarrow> new_events cop (events ch) AND kWriteEvent \<noteq> 0"
    using ch(1) ch' by (simp_all add: tc_writing_def tc_channel_def is_writing_def)
  show ?thesis
    by (rule that [of s]) (use s ch w write_bit [of "events ch"] in
        \<open>auto simp: chan_do_def tc_chan_ok_def tc_channel_def split: chan_op.split\<close>)
qed

section \<open>The invariant\<close>

text \<open>
  While the connection is not \<open>Disconnected\<close>, pending output means that the channel is
  writing.
\<close>

definition tc_inv :: "(int \<Rightarrow> bool) \<Rightarrow> tcp_connection \<Rightarrow> bool" where
  "tc_inv valid c \<longleftrightarrow> tc_chan_ok valid c \<and>
     (tc_state c = Disconnected \<or> tc_writing c \<or> mb_readable (write_buffer c) = 0)"

lemma tc_inv_frame [simp]: "tc_inv valid (c\<lparr>read_buffer := rb\<rparr>) = tc_inv valid c"
  by (simp add: tc_inv_def)

lemma conn_call_inv:
  assumes "tc_inv valid c" and "conn_call_do valid call c = Inr d"
  shows "tc_inv valid d"
proof (cases call)
  case (CallSend msg)
  with assms(2) obtain wb where wb: "mb_append_str (write_buffer c) msg = Inr wb"
    "(if tc_writing c then Inr (c\<lparr>write_buffer := wb\<rparr>) else chan_do True valid EnableWriting (c\<lparr>write_buffer := wb\<rparr>)) = Inr d"
    by (auto simp: conn_call_do_def conn_send_def send_in_loop_def bind_res_Inr_iff Let_def split: if_splits)
  have "tc_chan_ok valid (c\<lparr>write_buffer := wb\<rparr>)" using assms(1) by (simp add: tc_inv_def)
  then obtain s where "chan_do True valid EnableWriting (c\<lparr>write_buffer := wb\<rparr>) = Inr (c\<lparr>write_buffer := wb, tc_poller := s\<rparr>)"
    "tc_chan_ok valid (c\<lparr>write_buffer := wb, tc_poller := s\<rparr>)" "tc_writing (c\<lparr>write_buffer := wb, tc_poller := s\<rparr>)"
    by (rule chan_do_E [where cop = EnableWriting]) simp
  with wb(2) assms(1) show ?thesis by (auto simp: tc_inv_def split: if_splits)
next
  case CallShutdown
  then have "d = conn_shutdown c" using assms(2) by (simp add: conn_call_do_def)
  then show ?thesis using assms(1)
    by (cases "tc_state c = Connected") (auto simp: conn_shutdown_def tc_inv_def Let_def)
qed (use assms in \<open>auto simp: conn_call_do_def\<close>)

lemma conn_calls_inv: "tc_inv valid c \<Longrightarrow> conn_calls valid calls c = Inr d \<Longrightarrow> tc_inv valid d"
  by (induction calls arbitrary: c) (auto simp: bind_res_Inr_iff dest: conn_call_inv)

lemma call_if_inv: "tc_inv valid c \<Longrightarrow> call_if b valid user e c = Inr (d, evs) \<Longrightarrow> tc_inv valid d"
  by (auto simp: call_if_def call_user_def bind_res_Inr_iff conn_calls_inv split: if_splits)

text \<open>Disabling all events of a disconnected connection, the start of closing and destroying.\<close>

lemma disable_all_E:
  assumes "tc_chan_ok valid c"
  obtains s where "chan_do True valid DisableAll (c\<lparr>tc_state := Disconnected\<rparr>) = Inr (c\<lparr>tc_state := Disconnected, tc_poller := s\<rparr>)"
    "tc_inv valid (c\<lparr>tc_state := Disconnected, tc_poller := s\<rparr>)"
    "map_option events (heap s (tc_chan c)) = Some 0" "chan_frame (tc_chan c) (tc_poller c) s"
proof -
  have "tc_chan_ok valid (c\<lparr>tc_state := Disconnected\<rparr>)" using assms by simp
  then show ?thesis
    by (rule chan_do_E [where cop = DisableAll])
      (use assms in \<open>auto intro!: that simp: tc_inv_def tc_chan_ok_def kNoneEvent_def\<close>)
qed

lemma handle_close_E:
  assumes "tc_chan_ok valid c" and "handle_close True valid user c = Inr (d, evs)"
  obtains s c1 evs1 evs2 where
    "tc_inv valid (c\<lparr>tc_state := Disconnected, tc_poller := s\<rparr>)"
    "map_option events (heap s (tc_chan c)) = Some 0"
    "call_if (conn_set c) valid user ConnCallback (c\<lparr>tc_state := Disconnected, tc_poller := s\<rparr>) = Inr (c1, evs1)"
    "call_if (close_set c1) valid user CloseCallback c1 = Inr (d, evs2)" "evs = evs1 @ evs2"
proof -
  from assms(1) obtain s where s:
    "chan_do True valid DisableAll (c\<lparr>tc_state := Disconnected\<rparr>) = Inr (c\<lparr>tc_state := Disconnected, tc_poller := s\<rparr>)"
    "tc_inv valid (c\<lparr>tc_state := Disconnected, tc_poller := s\<rparr>)" "map_option events (heap s (tc_chan c)) = Some 0"
    by (rule disable_all_E)
  with assms(2) show ?thesis by (auto simp: handle_close_def bind_res_Inr_iff intro: that)
qed

lemma handle_close_inv:
  assumes "tc_inv valid c" and "handle_close True valid user c = Inr (d, evs)"
  shows "tc_inv valid d"
proof -
  have "tc_chan_ok valid c" using assms(1) by (simp add: tc_inv_def)
  from this assms(2) show ?thesis
    by (rule handle_close_E) (rule call_if_inv, rule call_if_inv)
qed

lemma tc_read_callback_E:
  assumes "tc_read_callback True valid user readv c = Inr (d, evs)"
  obtains n rb err c1 evs1 evs2 where "mb_read_fd (read_buffer c) readv = Inr (n, rb, err)"
    "if n = 0 then handle_close True valid user (c\<lparr>read_buffer := rb\<rparr>) = Inr (c1, evs1)
     else c1 = c\<lparr>read_buffer := rb\<rparr> \<and> evs1 = []"
    "call_if (0 < n \<and> recv_set c1) valid user RecvCallback c1 = Inr (d, evs2)" "evs = evs1 @ evs2"
proof -
  from assms obtain n rb err c1 evs1 evs2 where r: "mb_read_fd (read_buffer c) readv = Inr (n, rb, err)"
    "(if n = 0 then handle_close True valid user (c\<lparr>read_buffer := rb\<rparr>)
      else Inr (c\<lparr>read_buffer := rb\<rparr>, [])) = Inr (c1, evs1)"
    "call_if (0 < n \<and> recv_set c1) valid user RecvCallback c1 = Inr (d, evs2)" "evs = evs1 @ evs2"
    unfolding tc_read_callback_def Let_def check_simps bind_res_simps
    by (fastforce simp: bind_res_Inr_iff)
  from r(2) have "if n = 0 then handle_close True valid user (c\<lparr>read_buffer := rb\<rparr>) = Inr (c1, evs1)
     else c1 = c\<lparr>read_buffer := rb\<rparr> \<and> evs1 = []" by (cases "n = 0") simp_all
  with r show ?thesis by (rule_tac that)
qed

lemma tc_read_callback_inv:
  assumes "tc_inv valid c" and "tc_read_callback True valid user readv c = Inr (d, evs)"
  shows "tc_inv valid d"
  using assms(2)
proof (rule tc_read_callback_E)
  fix n :: nat and rb err c1 evs1 evs2
  assume "if n = 0 then handle_close True valid user (c\<lparr>read_buffer := rb\<rparr>) = Inr (c1, evs1)
     else c1 = c\<lparr>read_buffer := rb\<rparr> \<and> evs1 = []"
  then have "tc_inv valid c1"
    using assms(1) handle_close_inv [of valid "c\<lparr>read_buffer := rb\<rparr>"] by (cases "n = 0") auto
  moreover assume "call_if (0 < n \<and> recv_set c1) valid user RecvCallback c1 = Inr (d, evs2)"
  ultimately show ?thesis by (rule call_if_inv)
qed

lemma tc_write_callback_inv:
  assumes "tc_inv valid c" and "tc_write_callback True valid wr c = Inr (d, out)"
  shows "tc_inv valid d"
proof -
  have "tc_chan_ok valid c" using assms(1) by (simp add: tc_inv_def)
  then obtain s where "chan_do True valid DisableWriting c = Inr (c\<lparr>tc_poller := s\<rparr>)"
    "tc_chan_ok valid (c\<lparr>tc_poller := s\<rparr>)"
    by (rule chan_do_E [where cop = DisableWriting])
  with assms show ?thesis
    by (auto simp: tc_write_callback_def Let_def tc_inv_def split: if_splits)
qed

lemma established_E:
  assumes "tc_chan_ok valid c" and "connection_established True valid user c = Inr (d, evs)"
  obtains s where "tc_state c = Connecting" "tc_chan_ok valid (c\<lparr>tc_poller := s\<rparr>)"
    "tc_writing (c\<lparr>tc_poller := s\<rparr>) = tc_writing c"
    "call_if (conn_set c) valid user ConnCallback (c\<lparr>tc_poller := s, tc_state := Connected\<rparr>) = Inr (d, evs)"
proof -
  obtain ch where ch: "heap (tc_poller c) (tc_chan c) = Some ch" "ch_fd ch = tc_fd c"
    using assms(1) by (auto simp: tc_chan_ok_def tc_channel_def)
  let ?c = "c\<lparr>tc_poller := (tc_poller c)\<lparr>heap := (heap (tc_poller c))(tc_chan c \<mapsto> tie_to (tc_this c) ch)\<rparr>\<rparr>"
  have "chan_ok valid (tc_poller ?c) (tc_chan ?c)"
    using assms(1) ch(1) by (auto simp: tc_chan_ok_def intro: chan_ok_tie)
  then have "tc_chan_ok valid ?c" using ch by (simp add: tc_chan_ok_def tc_channel_def tie_to_def)
  then obtain s where s: "chan_do True valid EnableReading ?c = Inr (?c\<lparr>tc_poller := s\<rparr>)"
    "tc_chan_ok valid (?c\<lparr>tc_poller := s\<rparr>)" "tc_writing (?c\<lparr>tc_poller := s\<rparr>) = tc_writing ?c"
    by (rule chan_do_E [where cop = EnableReading]) simp
  moreover have "tc_writing ?c = tc_writing c"
    using ch(1) by (simp add: tc_writing_def tc_channel_def tie_to_def is_writing_def)
  ultimately show ?thesis
    using assms(2) ch(1) that [of s]
    by (simp add: connection_established_def tc_channel_def Let_def bind_res_Inr_iff check_def split: if_splits)
qed

lemma established_inv:
  assumes "tc_inv valid c" and "connection_established True valid user c = Inr (d, evs)"
  shows "tc_inv valid d"
proof -
  have "tc_chan_ok valid c" using assms(1) by (simp add: tc_inv_def)
  from this assms(2) show ?thesis
  proof (rule established_E)
    fix s
    assume "tc_state c = Connecting" "tc_chan_ok valid (c\<lparr>tc_poller := s\<rparr>)"
      "tc_writing (c\<lparr>tc_poller := s\<rparr>) = tc_writing c"
    then have "tc_inv valid (c\<lparr>tc_poller := s, tc_state := Connected\<rparr>)"
      using assms(1) by (simp add: tc_inv_def tc_chan_ok_def tc_writing_def tc_channel_def)
    then show "call_if (conn_set c) valid user ConnCallback (c\<lparr>tc_poller := s, tc_state := Connected\<rparr>) = Inr (d, evs) \<Longrightarrow>
        tc_inv valid d" by (rule call_if_inv)
  qed
qed

lemma chan_remove_chan_ok:
  assumes "chan_ok valid s p" and "heap s p = Some ch"
  shows "chan_remove True dsp valid p s =
    (if events ch = 0 \<and> index ch \<noteq> kNew \<and> may_remove dsp p then Inr (put_channel p (ch\<lparr>added_to_loop := False, index := kNew\<rparr>) s)
     else Inl AssertFailed)"
    "events ch = 0 \<Longrightarrow> chan_ok valid (put_channel p (ch\<lparr>added_to_loop := False, index := kNew\<rparr>) s) p"
proof -
  from assms have i: "poller_inv s" "channels s (ch_fd ch) \<in> {None, Some p}" "valid (ch_fd ch)"
    by (auto simp: chan_ok_def)
  note n = inv_channel [OF i(1) assms(2) i(2)]
  show "chan_remove True dsp valid p s =
    (if events ch = 0 \<and> index ch \<noteq> kNew \<and> may_remove dsp p then Inr (put_channel p (ch\<lparr>added_to_loop := False, index := kNew\<rparr>) s)
     else Inl AssertFailed)"
  proof (cases "events ch = 0 \<and> index ch \<noteq> kNew \<and> may_remove dsp p")
    case True
    then have "channels s (ch_fd ch) = Some p" using n(1) i(2) by auto
    with True chan_remove_ok [where valid = valid, OF i(1) assms(2) this i(3)] show ?thesis
      by (simp add: kNoneEvent_def)
  next
    case False
    with n(1) assms(2) show ?thesis
      by (auto simp: chan_remove_def el_remove_channel_def remove_channel_def check_def kNoneEvent_def Let_def)
  qed
  assume e: "events ch = 0"
  have "poller_inv (put_channel p (ch\<lparr>added_to_loop := False, index := kNew\<rparr>) s)"
    by (rule put_channel_inv [OF i(1) assms(2)]) (use i(2) in simp_all)
  with i e show "chan_ok valid (put_channel p (ch\<lparr>added_to_loop := False, index := kNew\<rparr>) s) p"
    by (simp add: chan_ok_def put_channel_def)
qed

lemma destroy_remove_inv:
  assumes "tc_inv valid c" and "chan_remove True dsp valid (tc_chan c) (tc_poller c) = Inr s"
  shows "tc_inv valid (c\<lparr>tc_poller := s\<rparr>)"
proof -
  have k: "chan_ok valid (tc_poller c) (tc_chan c)" using assms(1) by (simp add: tc_inv_def tc_chan_ok_def)
  then obtain ch where ch: "heap (tc_poller c) (tc_chan c) = Some ch" by (auto simp: chan_ok_def)
  note r = chan_remove_chan_ok [OF k ch]
  from assms(2) r(1) have e: "events ch = 0"
    "s = put_channel (tc_chan c) (ch\<lparr>added_to_loop := False, index := kNew\<rparr>) (tc_poller c)"
    by (simp_all split: if_splits)
  moreover have "\<not> tc_writing c" using e(1) ch by (simp add: tc_writing_def tc_channel_def is_writing_def)
  ultimately show ?thesis
    using assms(1) r(2) ch by (auto simp: tc_inv_def tc_chan_ok_def tc_channel_def put_channel_def)
qed

lemma destroyed_inv:
  assumes "tc_inv valid c" and "connection_destroy True dsp valid user c = Inr (d, evs)"
  shows "tc_inv valid d"
proof -
  have k: "tc_chan_ok valid c" using assms(1) by (simp add: tc_inv_def)
  then obtain s where s:
    "chan_do True valid DisableAll (c\<lparr>tc_state := Disconnected\<rparr>) = Inr (c\<lparr>tc_state := Disconnected, tc_poller := s\<rparr>)"
    "tc_inv valid (c\<lparr>tc_state := Disconnected, tc_poller := s\<rparr>)"
    by (rule disable_all_E)
  have u: "tc_inv valid c1" if "call_user valid user ConnCallback (c\<lparr>tc_state := Disconnected, tc_poller := s\<rparr>) = Inr (c1, e)" for c1 e
    by (rule call_if_inv [OF s(2), of True user ConnCallback]) (use that in \<open>simp add: call_if_def\<close>)
  obtain c1 s1 where "tc_inv valid c1" "chan_remove True dsp valid (tc_chan c1) (tc_poller c1) = Inr s1"
    "d = c1\<lparr>tc_poller := s1\<rparr>"
    using assms(2) s(1) u assms(1)
    by (cases "tc_state c = Connected") (auto simp: connection_destroy_def bind_res_Inr_iff check_def split: if_splits)
  then show ?thesis using destroy_remove_inv by simp
qed

interpretation tc: step_invariant "tc_step valid user" "tc_inv valid"
  by unfold_locales (erule tc_stepE; blast intro: conn_call_inv tc_write_callback_inv tc_read_callback_inv established_inv destroyed_inv)

lemma tc_new_inv:
  assumes "tc_new True valid g this p fd s = Inr c"
    and "poller_inv s" and "heap s p = None" and "channels s fd = None" and "valid fd"
  shows "tc_inv valid c" "mb_contents (write_buffer c) = []" "mb_inv (write_buffer c)"
    "length (buffer (write_buffer c)) = 2056" "mb_inv (read_buffer c)"
proof -
  obtain b where b: "mb_new buffer_def_len = Inr b" "mb_inv b" "mb_contents b = []" "length (buffer b) = buffer_def_len + 8"
    by (rule mb_new_ok [of buffer_def_len]) (simp_all add: buffer_def_len_def vec_max_def)
  let ?ch = "set_write_callback (WriteCb this) (set_read_callback (ReadCb this) (channel_new fd)) :: io_callback channel"
  let ?c = "\<lparr>tc_poller = s\<lparr>heap := (heap s)(p \<mapsto> ?ch)\<rparr>, tc_this = this, tc_chan = p, tc_fd = fd,
              read_buffer = b, write_buffer = b, tc_state = g, recv_set = False,
              conn_set = False, close_set = False, write_closed = False\<rparr>"
  have "poller_inv (s\<lparr>heap := (heap s)(p \<mapsto> ?ch)\<rparr>)"
    by (rule new_channel_inv [OF assms(2,3)])
      (simp add: set_write_callback_def set_read_callback_def channel_new_def kNew_def)
  then have "tc_chan_ok valid ?c"
    using assms(4,5)
    by (simp add: tc_chan_ok_def chan_ok_def tc_channel_def set_write_callback_def set_read_callback_def channel_new_def)
  then obtain s' where s': "chan_do True valid EnableReading ?c = Inr (?c\<lparr>tc_poller := s'\<rparr>)"
    "tc_chan_ok valid (?c\<lparr>tc_poller := s'\<rparr>)"
    by (rule chan_do_E [where cop = EnableReading])
  moreover have "c = ?c\<lparr>tc_poller := s'\<rparr>"
    using assms(1) b(1) s'(1) by (simp add: tc_new_def Let_def)
  ultimately show "tc_inv valid c" "mb_contents (write_buffer c) = []" "mb_inv (write_buffer c)"
    "length (buffer (write_buffer c)) = 2056" "mb_inv (read_buffer c)"
    using b(2-4) mb_readable_inv [OF b(2)] by (simp_all add: tc_inv_def buffer_def_len_def)
qed

end
