(* ===== verification/Connection_Stream.thy ===== *)
theory Connection_Stream
  imports Tcp_Connection
begin

text \<open>
  What a \<open>TcpConnection\<close> does with the bytes it is given: its pending output as a byte queue,
  the handlers under bounds that keep every buffer far below \<open>max_size()\<close>, and the properties
  of the connection.
\<close>

section \<open>The pending output as a byte queue\<close>

interpretation mbs: byte_queue mb_append_str mb_retrieve mb_contents mb_inv "\<lambda>b. length (buffer b)" vec_max
  by unfold_locales (use mb_append_ok in \<open>simp_all add: mb_fits_def mb_append_str_eq mb_retrieve_ok\<close>)

fun call_ops :: "conn_call \<Rightarrow> queue_op list" where
  "call_ops (CallSend msg) = [Put msg]"
| "call_ops CallShutdown = []"
| "call_ops (CallRetrieve n) = []"

definition called_ops :: "called \<Rightarrow> queue_op list" where
  "called_ops evs = concat (map call_ops (concat (map snd evs)))"

lemma called_ops_simps [simp]:
  "called_ops [] = []"
  "called_ops ((e, calls) # evs) = concat (map call_ops calls) @ called_ops evs"
  "called_ops (evs @ evs') = called_ops evs @ called_ops evs'"
  by (simp_all add: called_ops_def)

text \<open>What a step does to the queue, which bytes it was asked to send, and which it wrote.\<close>

fun act_ops :: "tc_act \<Rightarrow> queue_op list" where
  "act_ops (Called call) = call_ops call"
| "act_ops (Wrote wr out) = [Take (case wr of Some k \<Rightarrow> k | None \<Rightarrow> 2 ^ 64 - 1)]"
| "act_ops WriteIdle = []"
| "act_ops (ReadEvent readv evs) = called_ops evs"
| "act_ops (Established evs) = called_ops evs"
| "act_ops (Destroyed evs) = called_ops evs"

definition asked :: "tc_act \<Rightarrow> byte list" where
  "asked a = concat (map put_bytes (act_ops a))"

fun written :: "tc_act \<Rightarrow> byte list" where
  "written (Wrote wr out) = out"
| "written a = []"

fun failed_write :: "tc_act \<Rightarrow> bool" where
  "failed_write (Wrote None out) = True"
| "failed_write a = False"

abbreviation out_run :: "queue_op list \<Rightarrow> msg_buffer \<Rightarrow> (byte list \<times> msg_buffer) res" where
  "out_run \<equiv> queue_run mb_append_str mb_retrieve mb_contents"

lemma chan_do_frame:
  "chan_do in_loop valid cop c = Inr d \<Longrightarrow> write_buffer d = write_buffer c \<and> read_buffer d = read_buffer c \<and>
     tc_this d = tc_this c \<and> tc_chan d = tc_chan c \<and> tc_fd d = tc_fd c \<and> tc_state d = tc_state c \<and>
     recv_set d = recv_set c \<and> conn_set d = conn_set c \<and> close_set d = close_set c \<and> write_closed d = write_closed c"
  by (auto simp: chan_do_def bind_res_Inr_iff)

lemma conn_call_out: "conn_call_do valid call c = Inr d \<Longrightarrow> out_run (call_ops call) (write_buffer c) = Inr ([], write_buffer d)"
  by (cases call) (auto simp: conn_call_do_def conn_send_def send_in_loop_def bind_res_Inr_iff conn_shutdown_def Let_def
      split: if_splits dest: chan_do_frame)

lemma conn_calls_out:
  "conn_calls valid calls c = Inr d \<Longrightarrow> out_run (concat (map call_ops calls)) (write_buffer c) = Inr ([], write_buffer d)"
  by (induction calls arbitrary: c) (auto simp: bind_res_Inr_iff queue_run_append dest: conn_call_out)

lemma call_if_out:
  "call_if b valid user e c = Inr (d, evs) \<Longrightarrow> out_run (called_ops evs) (write_buffer c) = Inr ([], write_buffer d)"
  by (auto simp: call_if_def call_user_def bind_res_Inr_iff split: if_splits dest: conn_calls_out)

lemma handle_close_out:
  "handle_close in_loop valid user c = Inr (d, evs) \<Longrightarrow> out_run (called_ops evs) (write_buffer c) = Inr ([], write_buffer d)"
  by (auto simp: handle_close_def bind_res_Inr_iff queue_run_append dest!: call_if_out chan_do_frame)

lemma tc_step_out:
  assumes "tc_step valid user c a d"
  shows "\<exists>out. out_run (act_ops a) (write_buffer c) = Inr (out, write_buffer d) \<and> (\<not> failed_write a \<longrightarrow> out = written a)"
  using assms
proof (cases rule: tc_step.cases)
  case (called call)
  then show ?thesis by (simp add: conn_call_out)
next
  case (wrote wr out)
  then have "tc_writing c" "\<not> mb_readable (write_buffer c) \<le> 0" by (simp_all add: will_write_def)
  with wrote show ?thesis by (cases wr) (auto simp: tc_write_callback_def Let_def)
next
  case write_idle
  then show ?thesis
    by (auto simp: tc_write_callback_def will_write_def bind_res_Inr_iff Let_def split: if_splits dest: chan_do_frame)
next
  case (read_event readv evs)
  then show ?thesis
    by (elim tc_read_callback_E)
      (auto simp: queue_run_append split: if_splits dest!: call_if_out handle_close_out)
next
  case (established evs)
  then show ?thesis
    by (auto simp: connection_established_def bind_res_Inr_iff Let_def split: option.splits
        dest!: call_if_out chan_do_frame)
next
  case (destroyed evs)
  then show ?thesis
    by (auto simp: connection_destroy_def bind_res_Inr_iff call_if_def [of True, simplified, symmetric]
        split: if_splits dest!: call_if_out chan_do_frame)
qed

lemma tc_run_out:
  "run (tc_step valid user) c as d \<Longrightarrow> \<exists>out. out_run (concat (map act_ops as)) (write_buffer c) = Inr (out, write_buffer d) \<and>
    ((\<forall>a \<in> set as. \<not> failed_write a) \<longrightarrow> out = concat (map written as))"
proof (induction rule: run.induct)
  case (run_cons c a d as e)
  from tc_step_out [OF run_cons.hyps(1)] run_cons.IH show ?case
    by (auto simp: queue_run_append)
qed simp

section \<open>Handlers that cannot fault\<close>

text \<open>
  With the contents of a buffer below \<open>2\<^sup>6\<^sup>0\<close> bytes, no growth step comes near
  \<open>max_size()\<close>. A connection whose buffers are in this range and whose channel is sound has
  handlers that succeed, and that touch nothing of the poller but their own channel.
\<close>

definition room :: nat where "room = 2 ^ 60"

definition buf_ok :: "msg_buffer \<Rightarrow> bool" where
  "buf_ok b \<longleftrightarrow> mb_inv b \<and> length (buffer b) \<le> 2 * room + 24"

definition conn_ok :: "(int \<Rightarrow> bool) \<Rightarrow> tcp_connection \<Rightarrow> bool" where
  "conn_ok valid c \<longleftrightarrow> tc_inv valid c \<and> buf_ok (read_buffer c) \<and> buf_ok (write_buffer c)"

definition conn_next :: "(int \<Rightarrow> bool) \<Rightarrow> tcp_connection \<Rightarrow> tcp_connection \<Rightarrow> bool" where
  "conn_next valid c d \<longleftrightarrow> conn_ok valid d \<and> chan_frame (tc_chan c) (tc_poller c) (tc_poller d) \<and>
     tc_this d = tc_this c \<and> tc_chan d = tc_chan c \<and> tc_fd d = tc_fd c \<and>
     recv_set d = recv_set c \<and> conn_set d = conn_set c \<and> close_set d = close_set c"

lemma conn_next_trans: "conn_next valid c d \<Longrightarrow> conn_next valid d e \<Longrightarrow> conn_next valid c e"
  unfolding conn_next_def by (metis chan_frame_trans)

lemma conn_next_refl [simp]: "conn_next valid c c = conn_ok valid c"
  by (simp add: conn_next_def)

lemma conn_next_frame: "conn_ok valid d \<Longrightarrow> tc_poller d = tc_poller c \<Longrightarrow> tc_this d = tc_this c \<Longrightarrow>
    tc_chan d = tc_chan c \<Longrightarrow> tc_fd d = tc_fd c \<Longrightarrow> recv_set d = recv_set c \<Longrightarrow> conn_set d = conn_set c \<Longrightarrow>
    close_set d = close_set c \<Longrightarrow> conn_next valid c d"
  by (simp add: conn_next_def)

definition call_bytes :: "conn_call list \<Rightarrow> byte list" where
  "call_bytes calls = concat (map put_bytes (concat (map call_ops calls)))"

lemma call_bytes_simps [simp]:
  "call_bytes [] = []" "call_bytes (call # calls) = concat (map put_bytes (call_ops call)) @ call_bytes calls"
  by (simp_all add: call_bytes_def)

text \<open>The messages a callback sent.\<close>

definition call_msgs :: "conn_call list \<Rightarrow> byte list list" where
  "call_msgs calls = List.map_filter (\<lambda>call. case call of CallSend msg \<Rightarrow> Some msg | _ \<Rightarrow> None) calls"

definition called_msgs :: "called \<Rightarrow> byte list list" where
  "called_msgs evs = concat (map (\<lambda>(e, calls). call_msgs calls) evs)"

lemma call_msgs_bytes: "concat (call_msgs calls) = call_bytes calls"
proof (induction calls)
  case (Cons call calls)
  then show ?case by (cases call) (simp_all add: call_msgs_def List.map_filter_simps)
qed (simp add: call_msgs_def List.map_filter_simps)

lemma called_msgs_simps [simp]:
  "called_msgs [] = []" "called_msgs ((e, calls) # evs) = call_msgs calls @ called_msgs evs"
  "called_msgs (evs @ evs') = called_msgs evs @ called_msgs evs'"
  by (simp_all add: called_msgs_def)

lemma buf_ok_put:
  assumes "buf_ok b" and "length (mb_contents b) + length bs \<le> room"
  obtains b' where "mb_append_str b bs = Inr b'" "buf_ok b'" "mb_contents b' = mb_contents b @ bs"
proof -
  have "mb_inv b" "2 * length (buffer b) + length bs + 16 \<le> vec_max"
    using assms by (auto simp: buf_ok_def vec_max_def room_def)
  then obtain b' where "mb_append_str b bs = Inr b'" "mb_inv b'" "mb_contents b' = mb_contents b @ bs"
    "length (buffer b') \<le> max (length (buffer b)) (2 * (length (mb_contents b) + length bs) + 24)"
    by (rule mbs.put_E)
  with that [of b'] assms show ?thesis by (auto simp: buf_ok_def)
qed

lemma buf_ok_retrieve [simp]: "buf_ok b \<Longrightarrow> buf_ok (mb_retrieve b n)"
  by (simp add: buf_ok_def mb_retrieve_ok)

lemma buf_ok_read:
  assumes "buf_ok b" and "length (mb_contents b) + length bs \<le> room" and "length bs \<le> mb_iov_len b"
  obtains b' where "mb_read_fd b (Inr bs) = Inr (length bs, b', None)" "buf_ok b'" "mb_contents b' = mb_contents b @ bs"
proof -
  have "mb_inv b" "mb_fits b (length bs)"
    using assms by (auto simp: buf_ok_def vec_max_def room_def mb_fits_def)
  with mb_read_fd_ok [OF this(1) assms(3) this(2)] that assms(1,2) show ?thesis by (auto simp: buf_ok_def)
qed

lemma conn_shutdown_ok:
  assumes "conn_ok valid c"
  shows "conn_next valid c (conn_shutdown c)" "write_buffer (conn_shutdown c) = write_buffer c"
proof -
  have "conn_call_do valid CallShutdown c = Inr (conn_shutdown c)" by (simp add: conn_call_do_def)
  then have "tc_inv valid (conn_shutdown c)" using assms conn_call_inv conn_ok_def by blast
  then show "conn_next valid c (conn_shutdown c)" "write_buffer (conn_shutdown c) = write_buffer c"
    using assms by (auto simp: conn_shutdown_def conn_next_def conn_ok_def Let_def)
qed

lemma conn_call_ok:
  assumes "conn_ok valid c"
    and "length (mb_contents (write_buffer c)) + length (concat (map put_bytes (call_ops call))) \<le> room"
  shows "\<exists>d. conn_call_do valid call c = Inr d \<and> conn_next valid c d \<and>
    mb_contents (write_buffer d) = mb_contents (write_buffer c) @ concat (map put_bytes (call_ops call))"
proof (cases call)
  case (CallSend msg)
  have c: "tc_chan_ok valid c" "buf_ok (read_buffer c)" "buf_ok (write_buffer c)"
    using assms(1) by (simp_all add: conn_ok_def tc_inv_def)
  obtain wb where wb: "mb_append_str (write_buffer c) msg = Inr wb" "buf_ok wb" "mb_contents wb = mb_contents (write_buffer c) @ msg"
    by (rule buf_ok_put [OF c(3), of msg]) (use assms(2) CallSend in auto)
  have "tc_chan_ok valid (c\<lparr>write_buffer := wb\<rparr>)" using c(1) by simp
  then obtain s where s: "chan_do True valid EnableWriting (c\<lparr>write_buffer := wb\<rparr>) = Inr (c\<lparr>write_buffer := wb, tc_poller := s\<rparr>)"
    "tc_chan_ok valid (c\<lparr>write_buffer := wb, tc_poller := s\<rparr>)" "tc_writing (c\<lparr>write_buffer := wb, tc_poller := s\<rparr>)"
    "chan_frame (tc_chan c) (tc_poller c) s"
    by (rule chan_do_E [where cop = EnableWriting]) simp
  show ?thesis
    using assms(1) CallSend wb s c
    by (cases "tc_writing c")
      (auto simp: conn_call_do_def conn_send_def send_in_loop_def conn_next_def conn_ok_def tc_inv_def)
next
  case CallShutdown
  with conn_shutdown_ok [OF assms(1)] show ?thesis by (simp add: conn_call_do_def)
next
  case (CallRetrieve n)
  with assms(1) show ?thesis by (simp add: conn_call_do_def conn_next_def conn_ok_def)
qed

lemma conn_calls_ok:
  assumes "conn_ok valid c" and "length (mb_contents (write_buffer c)) + length (call_bytes calls) \<le> room"
  shows "\<exists>d. conn_calls valid calls c = Inr d \<and> conn_next valid c d \<and>
    mb_contents (write_buffer d) = mb_contents (write_buffer c) @ call_bytes calls"
  using assms
proof (induction calls arbitrary: c)
  case (Cons call calls)
  from Cons.prems(2) have "length (mb_contents (write_buffer c)) + length (concat (map put_bytes (call_ops call))) \<le> room"
    by simp
  from conn_call_ok [OF Cons.prems(1) this] obtain d where d: "conn_call_do valid call c = Inr d" "conn_next valid c d"
    "mb_contents (write_buffer d) = mb_contents (write_buffer c) @ concat (map put_bytes (call_ops call))"
    by blast
  moreover have "conn_ok valid d" using d(2) by (simp add: conn_next_def)
  ultimately show ?case using Cons.IH [of d] Cons.prems(2) by (auto intro: conn_next_trans)
qed simp

lemma call_if_ok:
  assumes "conn_ok valid c" and "length (mb_contents (write_buffer c)) + length (call_bytes (user e c)) \<le> room"
  obtains d evs where "call_if b valid user e c = Inr (d, evs)" "conn_next valid c d"
    "mb_contents (write_buffer d) = mb_contents (write_buffer c) @ concat (called_msgs evs)"
    "length (concat (called_msgs evs)) \<le> length (call_bytes (user e c))"
proof -
  from conn_calls_ok [OF assms] obtain d where "conn_calls valid (user e c) c = Inr d" "conn_next valid c d"
    "mb_contents (write_buffer d) = mb_contents (write_buffer c) @ call_bytes (user e c)" by blast
  with that [of d "[(e, user e c)]"] that [of c "[]"] assms(1) show ?thesis
    by (cases b) (simp_all add: call_if_def call_user_def call_msgs_bytes)
qed

text \<open>A bound on what one callback of the user may send, and the handlers under it.\<close>

definition user_bounded :: "user \<Rightarrow> bool" where
  "user_bounded user \<longleftrightarrow> (\<forall>e c. 4 * length (call_bytes (user e c)) \<le> room)"

lemma user_boundedD: "user_bounded user \<Longrightarrow> 4 * length (call_bytes (user e c)) \<le> room"
  by (simp add: user_bounded_def)

lemma handle_close_ok:
  assumes "conn_ok valid c" and "user_bounded user" and "2 * length (mb_contents (write_buffer c)) \<le> room"
  shows "\<exists>d evs. handle_close True valid user c = Inr (d, evs) \<and> conn_next valid c d \<and>
    mb_contents (write_buffer d) = mb_contents (write_buffer c) @ concat (called_msgs evs)"
proof -
  have "tc_chan_ok valid c" using assms(1) by (simp add: conn_ok_def tc_inv_def)
  then obtain s where s: "chan_do True valid DisableAll (c\<lparr>tc_state := Disconnected\<rparr>) = Inr (c\<lparr>tc_state := Disconnected, tc_poller := s\<rparr>)"
    "tc_inv valid (c\<lparr>tc_state := Disconnected, tc_poller := s\<rparr>)" "chan_frame (tc_chan c) (tc_poller c) s"
    by (rule disable_all_E)
  let ?c = "c\<lparr>tc_state := Disconnected, tc_poller := s\<rparr>"
  have n: "conn_next valid c ?c" "conn_ok valid ?c" using assms(1) s by (simp_all add: conn_next_def conn_ok_def)
  obtain c1 e1 where c1: "call_if (conn_set c) valid user ConnCallback ?c = Inr (c1, e1)" "conn_next valid ?c c1"
    "mb_contents (write_buffer c1) = mb_contents (write_buffer ?c) @ concat (called_msgs e1)"
    "length (concat (called_msgs e1)) \<le> length (call_bytes (user ConnCallback ?c))"
    by (rule call_if_ok [OF n(2), of user ConnCallback]) (use assms(3) user_boundedD [OF assms(2), of ConnCallback ?c] in simp)
  have k: "conn_ok valid c1" using c1(2) by (simp add: conn_next_def)
  obtain c2 e2 where c2: "call_if (close_set c1) valid user CloseCallback c1 = Inr (c2, e2)" "conn_next valid c1 c2"
    "mb_contents (write_buffer c2) = mb_contents (write_buffer c1) @ concat (called_msgs e2)"
    by (rule call_if_ok [OF k, of user CloseCallback])
      (use c1(3,4) assms(3) user_boundedD [OF assms(2), of CloseCallback c1] user_boundedD [OF assms(2), of ConnCallback ?c] in auto)
  with s(1) c1(1) have "handle_close True valid user c = Inr (c2, e1 @ e2)" by (simp add: handle_close_def)
  moreover have "conn_next valid c c2" using n(1) c1(2) c2(2) conn_next_trans by blast
  ultimately show ?thesis using c1(3) c2(3) by auto
qed

text \<open>\<open>readv\<close> stores at most what the two vectors hold.\<close>

definition read_fits :: "nat + byte list \<Rightarrow> tcp_connection \<Rightarrow> bool" where
  "read_fits readv c = (case readv of Inl errno \<Rightarrow> True
     | Inr bs \<Rightarrow> length bs \<le> mb_iov_len (read_buffer c) \<and>
                length (mb_contents (read_buffer c)) + length bs \<le> room)"

lemma read_fits_E:
  assumes "conn_ok valid c" and "read_fits readv c"
  obtains n rb err where "mb_read_fd (read_buffer c) readv = Inr (n, rb, err)" "buf_ok rb"
    "readv = Inr [] \<longleftrightarrow> n = 0"
proof (cases readv)
  case (Inl e)
  with assms(1) that show ?thesis by (simp add: mb_read_fd_def conn_ok_def)
next
  case (Inr bs)
  with assms(2) have f: "length (mb_contents (read_buffer c)) + length bs \<le> room" "length bs \<le> mb_iov_len (read_buffer c)"
    by (simp_all add: read_fits_def)
  have "buf_ok (read_buffer c)" using assms(1) by (simp add: conn_ok_def)
  then show ?thesis by (rule buf_ok_read [OF _ f]) (use Inr that in auto)
qed

lemma read_callback_ok:
  assumes "conn_ok valid c" and "user_bounded user" and "2 * length (mb_contents (write_buffer c)) \<le> room"
    and "read_fits readv c"
  shows "\<exists>d evs. tc_read_callback True valid user readv c = Inr (d, evs) \<and> conn_next valid c d \<and>
    mb_contents (write_buffer d) = mb_contents (write_buffer c) @ concat (called_msgs evs)"
proof -
  obtain n rb err where r: "mb_read_fd (read_buffer c) readv = Inr (n, rb, err)" "buf_ok rb"
    by (rule read_fits_E [OF assms(1,4)])
  let ?c = "c\<lparr>read_buffer := rb\<rparr>"
  have n: "conn_next valid c ?c" "conn_ok valid ?c" using assms(1) r(2) by (simp_all add: conn_next_def conn_ok_def)
  show ?thesis
  proof (cases "n = 0")
    case True
    obtain d evs where "handle_close True valid user ?c = Inr (d, evs)" "conn_next valid ?c d"
      "mb_contents (write_buffer d) = mb_contents (write_buffer c) @ concat (called_msgs evs)"
      using handle_close_ok [OF n(2) assms(2)] assms(3) by auto
    moreover from this True r(1) n(1) have "tc_read_callback True valid user readv c = Inr (d, evs) \<and> conn_next valid c d"
      by (auto simp: tc_read_callback_def call_if_def intro: conn_next_trans)
    ultimately show ?thesis by blast
  next
    case False
    obtain d evs where "call_if (recv_set c) valid user RecvCallback ?c = Inr (d, evs)" "conn_next valid ?c d"
      "mb_contents (write_buffer d) = mb_contents (write_buffer ?c) @ concat (called_msgs evs)"
      by (rule call_if_ok [OF n(2), of user RecvCallback])
        (use assms(3) user_boundedD [OF assms(2), of RecvCallback ?c] in simp)
    moreover from this False r(1) n(1) have "tc_read_callback True valid user readv c = Inr (d, evs) \<and> conn_next valid c d"
      by (auto simp: tc_read_callback_def intro: conn_next_trans)
    ultimately show ?thesis by auto
  qed
qed

lemma write_callback_ok:
  assumes "conn_ok valid c"
  shows "\<exists>d out. tc_write_callback True valid wr c = Inr (d, out) \<and> conn_next valid c d \<and>
    (wr \<noteq> None \<longrightarrow> out @ mb_contents (write_buffer d) = mb_contents (write_buffer c))"
proof -
  have c: "tc_inv valid c" "tc_chan_ok valid c" using assms(1) by (simp_all add: conn_ok_def tc_inv_def)
  obtain s where s: "chan_do True valid DisableWriting c = Inr (c\<lparr>tc_poller := s\<rparr>)"
    "chan_frame (tc_chan c) (tc_poller c) s"
    by (rule chan_do_E [OF c(2), where cop = DisableWriting])
  let ?w = "\<lambda>n. c\<lparr>write_buffer := mb_retrieve (write_buffer c) n\<rparr>"
  let ?out = "case wr of None \<Rightarrow> [] | Some k \<Rightarrow> take k (mb_contents (write_buffer c))"
  from s have w: "tc_write_callback True valid wr c =
      Inr (if \<not> tc_writing c then (c, [])
           else if 0 < mb_readable (write_buffer c) then (?w (case wr of None \<Rightarrow> 2 ^ 64 - 1 | Some k \<Rightarrow> k), ?out)
           else if tc_state c = Disconnecting then (c\<lparr>tc_poller := s, write_closed := True\<rparr>, [])
           else (c\<lparr>tc_poller := s\<rparr>, []))" (is "_ = Inr ?r")
    by (simp add: tc_write_callback_def Let_def)
  have "tc_inv valid (fst ?r)"
    by (rule tc_write_callback_inv [OF c(1), of wr _ "snd ?r"]) (simp only: w prod.collapse)
  then have "conn_next valid c (fst ?r)"
    using assms s(2) by (simp add: conn_next_def conn_ok_def)
  moreover have "mb_inv (write_buffer c)" using assms by (simp add: conn_ok_def buf_ok_def)
  then have "wr \<noteq> None \<longrightarrow> snd ?r @ mb_contents (write_buffer (fst ?r)) = mb_contents (write_buffer c)"
    by (auto simp: mb_retrieve_ok)
  ultimately show ?thesis using w by (metis prod.collapse)
qed

abbreviation conn_channel :: "nat \<Rightarrow> int \<Rightarrow> io_callback channel" where
  "conn_channel this fd \<equiv> set_write_callback (WriteCb this) (set_read_callback (ReadCb this) (channel_new fd))"

lemma tc_new_ok:
  assumes "poller_inv s" and "heap s p = None" and "channels s fd = None" and "valid fd"
  obtains c where "tc_new True valid g this p fd s = Inr c" "conn_ok valid c"
    "mb_contents (write_buffer c) = []" "mb_contents (read_buffer c) = []"
    "tc_this c = this" "tc_chan c = p" "tc_fd c = fd" "tc_state c = g" "\<not> recv_set c" "\<not> conn_set c" "\<not> close_set c"
    "\<not> write_closed c" "\<not> tc_writing c"
    "tc_poller c = put_channel p ((conn_channel this fd)\<lparr>events := kReadEvent, index := kAdded\<rparr>) s"
proof -
  obtain b where b: "mb_new buffer_def_len = Inr b" "mb_inv b" "mb_contents b = []" "length (buffer b) = buffer_def_len + 8"
    by (rule mb_new_ok [of buffer_def_len]) (simp_all add: buffer_def_len_def vec_max_def)
  let ?ch = "conn_channel this fd"
  let ?c = "\<lparr>tc_poller = s\<lparr>heap := (heap s)(p \<mapsto> ?ch)\<rparr>, tc_this = this, tc_chan = p, tc_fd = fd,
              read_buffer = b, write_buffer = b, tc_state = g, recv_set = False,
              conn_set = False, close_set = False, write_closed = False\<rparr>"
  let ?s = "put_channel p (?ch\<lparr>events := kReadEvent, index := kAdded\<rparr>) s"
  have ch: "ch_fd ?ch = fd" "index ?ch = kNew" "events ?ch = 0"
    by (simp_all add: set_write_callback_def set_read_callback_def channel_new_def kNew_def)
  have "poller_inv (s\<lparr>heap := (heap s)(p \<mapsto> ?ch)\<rparr>)"
    by (rule new_channel_inv [OF assms(1,2) ch(2)])
  then have "chan_apply True valid EnableReading p (s\<lparr>heap := (heap s)(p \<mapsto> ?ch)\<rparr>) =
      Inr (put_channel p (?ch\<lparr>events := new_events EnableReading (events ?ch), index := next_index EnableReading ?ch\<rparr>)
        (s\<lparr>heap := (heap s)(p \<mapsto> ?ch)\<rparr>))"
    by (rule chan_apply_ok) (use assms(3,4) ch in simp_all)
  moreover have "next_index EnableReading ?ch = kAdded"
    using ch by (simp add: next_index_def index_states)
  moreover have "put_channel p d (s\<lparr>heap := (heap s)(p \<mapsto> ?ch)\<rparr>) = put_channel p d s" for d
    by (simp add: put_channel_def)
  ultimately have n: "tc_new True valid g this p fd s = Inr (?c\<lparr>tc_poller := ?s\<rparr>)"
    using b(1) ch(3) by (simp add: tc_new_def chan_do_def Let_def del: put_channel_def)
  have w: "\<not> tc_writing (?c\<lparr>tc_poller := ?s\<rparr>)"
    using write_bit(3) [of 0] by (simp add: tc_writing_def tc_channel_def put_channel_def is_writing_def)
  have "buf_ok b" using b(2,4) by (simp add: buf_ok_def buffer_def_len_def room_def)
  with tc_new_inv(1) [OF n assms] have "conn_ok valid (?c\<lparr>tc_poller := ?s\<rparr>)" by (simp add: conn_ok_def)
  with n w b(3) that [of "?c\<lparr>tc_poller := ?s\<rparr>"] show ?thesis by simp
qed

section \<open>The received bytes\<close>

text \<open>What \<open>readv\<close> stored, and how many bytes the calls of a callback take from the buffer.\<close>

definition stored :: "nat + byte list \<Rightarrow> byte list" where
  "stored readv = (case readv of Inl errno \<Rightarrow> [] | Inr bs \<Rightarrow> bs)"

definition call_takes :: "conn_call \<Rightarrow> nat" where
  "call_takes call = (case call of CallRetrieve n \<Rightarrow> n | _ \<Rightarrow> 0)"

definition called_takes :: "called \<Rightarrow> nat" where
  "called_takes evs = sum_list (map call_takes (concat (map snd evs)))"

lemma called_takes_simps [simp]:
  "called_takes [] = 0" "called_takes ((e, calls) # evs) = sum_list (map call_takes calls) + called_takes evs"
  "called_takes (evs @ evs') = called_takes evs + called_takes evs'"
  by (simp_all add: called_takes_def)

text \<open>The read buffer has lost its first \<open>n\<close> bytes, or all.\<close>

definition read_drops :: "nat \<Rightarrow> tcp_connection \<Rightarrow> tcp_connection \<Rightarrow> bool" where
  "read_drops n c d \<longleftrightarrow> (mb_inv (read_buffer c) \<longrightarrow>
     mb_inv (read_buffer d) \<and> mb_contents (read_buffer d) = drop n (mb_contents (read_buffer c)))"

lemma read_drops_same: "read_buffer d = read_buffer c \<Longrightarrow> read_drops 0 c d"
  by (simp add: read_drops_def)

lemma read_drops_trans: "read_drops n c d \<Longrightarrow> read_drops m d e \<Longrightarrow> read_drops (n + m) c e"
  by (simp add: read_drops_def add.commute)

lemma conn_call_read: "conn_call_do valid call c = Inr d \<Longrightarrow> read_drops (call_takes call) c d"
  by (cases call) (auto simp: conn_call_do_def conn_send_def send_in_loop_def bind_res_Inr_iff conn_shutdown_def Let_def
      call_takes_def read_drops_def mb_retrieve_ok split: if_splits dest!: chan_do_frame)

lemma conn_shutdown_read [simp]: "read_buffer (conn_shutdown c) = read_buffer c"
  by (simp add: conn_shutdown_def Let_def)

lemma conn_calls_read: "conn_calls valid calls c = Inr d \<Longrightarrow> read_drops (sum_list (map call_takes calls)) c d"
  by (induction calls arbitrary: c)
    (auto simp: bind_res_Inr_iff read_drops_same intro: read_drops_trans dest: conn_call_read)

lemma call_if_read: "call_if b valid user e c = Inr (d, evs) \<Longrightarrow> read_drops (called_takes evs) c d"
  by (auto simp: call_if_def call_user_def bind_res_Inr_iff read_drops_same dest: conn_calls_read split: if_splits)

lemma handle_close_read:
  assumes "handle_close in_loop valid user c = Inr (d, evs)"
  shows "read_drops (called_takes evs) c d"
proof -
  obtain c1 c2 e1 e2 where c: "chan_do in_loop valid DisableAll (c\<lparr>tc_state := Disconnected\<rparr>) = Inr c1"
    "call_if (conn_set c1) valid user ConnCallback c1 = Inr (c2, e1)"
    "call_if (close_set c2) valid user CloseCallback c2 = Inr (d, e2)" "evs = e1 @ e2"
    using assms by (auto simp: handle_close_def bind_res_Inr_iff)
  have "read_drops 0 c c1" using chan_do_frame [OF c(1)] by (simp add: read_drops_def)
  from read_drops_trans [OF read_drops_trans [OF this call_if_read [OF c(2)]] call_if_read [OF c(3)]] c(4)
  show ?thesis by simp
qed

lemma read_callback_read:
  assumes "conn_ok valid c" and "read_fits readv c" and "tc_read_callback True valid user readv c = Inr (d, evs)"
  shows "mb_contents (read_buffer d) = drop (called_takes evs) (mb_contents (read_buffer c) @ stored readv)"
  using assms(3)
proof (rule tc_read_callback_E)
  fix n :: nat and rb err c1 evs1 evs2
  assume r: "mb_read_fd (read_buffer c) readv = Inr (n, rb, err)"
    "if n = 0 then handle_close True valid user (c\<lparr>read_buffer := rb\<rparr>) = Inr (c1, evs1)
     else c1 = c\<lparr>read_buffer := rb\<rparr> \<and> evs1 = []"
    "call_if (0 < n \<and> recv_set c1) valid user RecvCallback c1 = Inr (d, evs2)" "evs = evs1 @ evs2"
  have b: "buf_ok (read_buffer c)" using assms(1) by (simp add: conn_ok_def)
  have "buf_ok rb \<and> mb_contents rb = mb_contents (read_buffer c) @ stored readv"
  proof (cases readv)
    case (Inl e)
    with r(1) b show ?thesis by (simp add: mb_read_fd_def stored_def)
  next
    case (Inr bs)
    with assms(2) have f: "length (mb_contents (read_buffer c)) + length bs \<le> room" "length bs \<le> mb_iov_len (read_buffer c)"
      by (simp_all add: read_fits_def)
    show ?thesis by (rule buf_ok_read [OF b f]) (use Inr r(1) in \<open>simp add: stored_def\<close>)
  qed
  moreover have "read_drops (called_takes evs1) (c\<lparr>read_buffer := rb\<rparr>) c1"
    using r(2) handle_close_read by (cases "n = 0") (auto simp: read_drops_same)
  from read_drops_trans [OF this call_if_read [OF r(3)]] r(4)
  have "read_drops (called_takes evs) (c\<lparr>read_buffer := rb\<rparr>) d" by simp
  ultimately show ?thesis by (simp add: read_drops_def buf_ok_def)
qed

lemma write_callback_read: "tc_write_callback True valid wr c = Inr (d, out) \<Longrightarrow> read_buffer d = read_buffer c"
  by (auto simp: tc_write_callback_def bind_res_Inr_iff Let_def split: if_splits dest!: chan_do_frame)

section \<open>Draining\<close>

lemma conn_ok_readable: "conn_ok valid c \<Longrightarrow> mb_readable (write_buffer c) = length (mb_contents (write_buffer c))"
  by (simp add: conn_ok_def buf_ok_def mb_readable_inv)

lemma wrote_step:
  assumes "conn_ok valid c" and "tc_writing c" and "mb_contents (write_buffer c) \<noteq> []"
  shows "tc_step valid user c (Wrote (Some k) (take k (mb_contents (write_buffer c))))
      (c\<lparr>write_buffer := mb_retrieve (write_buffer c) k\<rparr>)"
    "conn_ok valid (c\<lparr>write_buffer := mb_retrieve (write_buffer c) k\<rparr>)"
    "mb_contents (mb_retrieve (write_buffer c) k) = drop k (mb_contents (write_buffer c))"
proof -
  show "tc_step valid user c (Wrote (Some k) (take k (mb_contents (write_buffer c))))
      (c\<lparr>write_buffer := mb_retrieve (write_buffer c) k\<rparr>)"
    using assms by (simp add: step_simps will_write_def tc_write_callback_def Let_def conn_ok_readable)
  show "conn_ok valid (c\<lparr>write_buffer := mb_retrieve (write_buffer c) k\<rparr>)"
    using assms(1,2) by (simp add: conn_ok_def tc_inv_def)
  show "mb_contents (mb_retrieve (write_buffer c) k) = drop k (mb_contents (write_buffer c))"
    using assms(1) by (simp add: conn_ok_def buf_ok_def mb_retrieve_ok)
qed

lemma idle_step:
  assumes "conn_ok valid c" and "tc_writing c" and "mb_contents (write_buffer c) = []" and "tc_state c = Disconnecting"
  shows "\<exists>d. tc_step valid user c WriteIdle d \<and> write_closed d \<and> \<not> tc_writing d \<and> tc_state d = Disconnecting"
proof -
  have "tc_chan_ok valid c" using assms(1) by (simp add: conn_ok_def tc_inv_def)
  then obtain s where "chan_do True valid DisableWriting c = Inr (c\<lparr>tc_poller := s\<rparr>)" "\<not> tc_writing (c\<lparr>tc_poller := s\<rparr>)"
    by (rule chan_do_E [where cop = DisableWriting]) simp
  with assms show ?thesis
    by (auto simp: step_simps will_write_def tc_write_callback_def conn_ok_readable)
qed

lemma drains:
  assumes "conn_ok valid c" and "tc_writing c" and "tc_state c = Disconnecting"
    and "sum_list ks = length (mb_contents (write_buffer c))" and "0 \<notin> set ks"
  shows "\<exists>outs d. run (tc_step valid user) c (map2 Wrote (map Some ks) outs @ [WriteIdle]) d \<and>
    length outs = length ks \<and> concat outs = mb_contents (write_buffer c) \<and> write_closed d \<and> \<not> tc_writing d"
  using assms
proof (induction ks arbitrary: c)
  case Nil
  then show ?case using idle_step [of valid c user] by auto
next
  case (Cons k ks)
  let ?b = "mb_contents (write_buffer c)"
  let ?c = "c\<lparr>write_buffer := mb_retrieve (write_buffer c) k\<rparr>"
  have "?b \<noteq> []" using Cons.prems(4,5) by auto
  note w = wrote_step [OF Cons.prems(1,2) this, where k = k]
  have "sum_list ks = length (mb_contents (write_buffer ?c))"
    using w(3) Cons.prems(4) by simp
  with Cons.IH [of ?c] w(2) Cons.prems obtain outs d where d:
    "run (tc_step valid user) ?c (map2 Wrote (map Some ks) outs @ [WriteIdle]) d" "length outs = length ks"
    "concat outs = drop k ?b" "write_closed d" "\<not> tc_writing d"
    using w(3) by auto
  have "run (tc_step valid user) c (map2 Wrote (map Some (k # ks)) (take k ?b # outs) @ [WriteIdle]) d"
    using w(1) d(1) by auto
  with d show ?case by (intro exI [of _ "take k ?b # outs"] exI [of _ d]) simp
qed

lemma disable_all_unwatches:
  assumes "tc_chan_ok valid c" and "chan_do True valid DisableAll c = Inr d"
    and "interests (tc_poller c) (tc_fd c) \<noteq> None"
  shows "interests (tc_poller d) (tc_fd c) = None"
proof -
  let ?s = "tc_poller c"
  obtain ch where ch: "heap ?s (tc_chan c) = Some ch" "ch_fd ch = tc_fd c" "poller_inv ?s"
    "channels ?s (ch_fd ch) \<in> {None, Some (tc_chan c)}" "valid (ch_fd ch)"
    using assms(1) by (auto simp: tc_chan_ok_def tc_channel_def chan_ok_def)
  have "index ch = kAdded" using inv_channel(3) [OF ch(3,1,4)] assms(3) ch(2) by auto
  with chan_apply_ok [where valid = valid, OF ch(3,1,4,5), of DisableAll] assms(2) ch(2) show ?thesis
    by (auto simp: chan_do_def next_index_def put_channel_def index_states)
qed

section \<open>Properties\<close>

text \<open>C6: Whatever the order of reads, writes, sends and callbacks, as long as no \<open>write\<close>
  fails, the bytes the peer is written followed by the bytes still pending are the bytes the
  connection was asked to send, in order, the sends of the user's callbacks included.\<close>

theorem conn_stream_in_order:
  assumes "tc_new True valid g this p fd s = Inr c" and "run (tc_step valid user) c as d"
    and "\<And>a. a \<in> set as \<Longrightarrow> \<not> failed_write a"
    and "5 * length (concat (map asked as)) + 2 ^ 14 \<le> vec_max"
  shows "concat (map written as) @ mb_contents (write_buffer d) = concat (map asked as)"
proof -
  let ?ops = "concat (map act_ops as)"
  let ?N = "length (concat (map asked as)) + 1016"
  have a: "concat (map put_bytes ?ops) = concat (map asked as)"
    by (induction as) (simp_all add: asked_def)
  obtain b where "mb_new buffer_def_len = Inr b" "mb_inv b" "mb_contents b = []" "length (buffer b) = buffer_def_len + 8"
    by (rule mb_new_ok [of buffer_def_len]) (simp_all add: buffer_def_len_def vec_max_def)
  moreover from this(1) have "write_buffer c = b"
    using assms(1) by (auto simp: tc_new_def Let_def dest: chan_do_frame)
  ultimately have b: "mb_inv (write_buffer c)" "mb_contents (write_buffer c) = []" "length (buffer (write_buffer c)) = 2056"
    by (simp_all add: buffer_def_len_def)
  have "5 * ?N + 64 \<le> vec_max" using assms(4) by simp
  with mbs.run_fifo [of "write_buffer c" ?N ?ops] b a obtain out q where
    "out_run ?ops (write_buffer c) = Inr (out, q)" "out @ mb_contents q = concat (map asked as)" by auto
  with tc_run_out [OF assms(2)] assms(3) show ?thesis by auto
qed

lemma one_conn_E:
  obtains c where "tc_new True (\<lambda>fd. True) g 1 0 7 (poller_new Map.empty) = Inr c" "conn_ok (\<lambda>fd. True) c"
    "mb_contents (write_buffer c) = []" "mb_contents (read_buffer c) = []" "tc_state c = g" "tc_chan c = 0" "tc_fd c = 7"
    "\<not> conn_set c" "\<not> recv_set c" "\<not> close_set c"
    "tc_poller c = put_channel 0 ((conn_channel 1 7)\<lparr>events := kReadEvent, index := kAdded\<rparr>) (poller_new Map.empty)"
proof -
  let ?s = "poller_new Map.empty :: io_callback poller"
  have "poller_inv ?s" by (rule poller_inv_new) simp
  then obtain c where "tc_new True (\<lambda>fd. True) g 1 0 7 ?s = Inr c" "conn_ok (\<lambda>fd. True) c"
    "mb_contents (write_buffer c) = []" "mb_contents (read_buffer c) = []" "tc_state c = g" "tc_chan c = 0" "tc_fd c = 7"
    "\<not> conn_set c" "\<not> recv_set c" "\<not> close_set c"
    "tc_poller c = put_channel 0 ((conn_channel 1 7)\<lparr>events := kReadEvent, index := kAdded\<rparr>) ?s"
    by (rule tc_new_ok [where valid = "\<lambda>fd. True" and fd = 7 and this = 1 and p = 0 and g = g])
      (auto simp: poller_new_def)
  then show ?thesis by (rule that)
qed

lemma tc_new_open: "tc_new in_loop valid g this p fd s = Inr c \<Longrightarrow> \<not> write_closed c"
  by (auto simp: tc_new_def bind_res_Inr_iff Let_def dest!: chan_do_frame)

lemma sent_E:
  assumes "conn_ok valid c" and "length (mb_contents (write_buffer c)) + length msg \<le> room"
  obtains d where "conn_call_do valid (CallSend msg) c = Inr d" "conn_ok valid d" "tc_writing d"
    "mb_contents (write_buffer d) = mb_contents (write_buffer c) @ msg" "tc_state d = tc_state c"
    "write_closed d = write_closed c"
proof -
  obtain d where d: "conn_call_do valid (CallSend msg) c = Inr d" "conn_next valid c d"
    "mb_contents (write_buffer d) = mb_contents (write_buffer c) @ msg"
    using conn_call_ok [OF assms(1), of "CallSend msg"] assms(2) by auto
  then obtain wb where wb: "tc_writing c \<and> d = c\<lparr>write_buffer := wb\<rparr> \<or>
      chan_do True valid EnableWriting (c\<lparr>write_buffer := wb\<rparr>) = Inr d"
    by (auto simp: conn_call_do_def conn_send_def send_in_loop_def bind_res_Inr_iff Let_def split: if_splits)
  have "tc_chan_ok valid (c\<lparr>write_buffer := wb\<rparr>)" using assms(1) by (simp add: conn_ok_def tc_inv_def)
  then have "tc_writing d"
    by (rule chan_do_E [where cop = EnableWriting]) (use wb in auto)
  moreover have "tc_state d = tc_state c" "write_closed d = write_closed c" using wb by (auto dest: chan_do_frame)
  moreover have "conn_ok valid d" using d(2) by (simp add: conn_next_def)
  ultimately show ?thesis using d(1,3) that by blast
qed

theorem conn_stream_in_order_witness:
  "\<exists>c d. tc_new True (\<lambda>fd. True) Connected 1 0 7 (poller_new Map.empty) = Inr c \<and>
     run (tc_step (\<lambda>fd. True) (\<lambda>e c. [])) c [Called (CallSend [1, 2, 3]), Wrote (Some 2) [1, 2], Called (CallSend [4])] d \<and>
     [1, 2] @ mb_contents (write_buffer d) = [1, 2, 3, 4]"
proof -
  let ?v = "\<lambda>fd :: int. True"
  obtain c where c: "tc_new True ?v Connected 1 0 7 (poller_new Map.empty) = Inr c" "conn_ok ?v c"
    "mb_contents (write_buffer c) = []" by (rule one_conn_E)
  obtain c1 where c1: "conn_call_do ?v (CallSend [1, 2, 3]) c = Inr c1" "conn_ok ?v c1" "tc_writing c1"
    "mb_contents (write_buffer c1) = [1, 2, 3]"
    by (rule sent_E [OF c(2), of "[1, 2, 3]"]) (use c(3) in \<open>auto simp: room_def\<close>)
  let ?c = "c1\<lparr>write_buffer := mb_retrieve (write_buffer c1) 2\<rparr>"
  have w: "tc_step ?v (\<lambda>e c. []) c1 (Wrote (Some 2) [1, 2]) ?c" "conn_ok ?v ?c" "mb_contents (write_buffer ?c) = [3]"
    using wrote_step(1) [OF c1(2,3), where k = 2 and user = "\<lambda>e c. []"] wrote_step(2,3) [OF c1(2,3), where k = 2] c1(4)
    by simp_all
  obtain d where d: "conn_call_do ?v (CallSend [4]) ?c = Inr d"
    by (rule sent_E [OF w(2), of "[4]"]) (use w(3) in \<open>auto simp: room_def\<close>)
  have r: "run (tc_step ?v (\<lambda>e c. [])) c [Called (CallSend [1, 2, 3]), Wrote (Some 2) [1, 2], Called (CallSend [4])] d"
    using c1(1) w(1) d by (auto intro: tc_step.called)
  have "concat (map written [Called (CallSend [1, 2, 3]), Wrote (Some 2) [1, 2], Called (CallSend [4])]) @
      mb_contents (write_buffer d) = concat (map asked [Called (CallSend [1, 2, 3]), Wrote (Some 2) [1, 2], Called (CallSend [4])])"
    by (rule conn_stream_in_order [OF c(1) r]) (auto simp: asked_def vec_max_def)
  then show ?thesis using c(1) r by (auto simp: asked_def)
qed



lemma wrote_keeps_open: "tc_step valid user c (Wrote wr out) d \<Longrightarrow> write_closed d = write_closed c"
  by (auto simp: step_simps tc_write_callback_def will_write_def Let_def)

lemma wrotes_keep_open:
  "run (tc_step valid user) c as d \<Longrightarrow> \<forall>a \<in> set as. \<exists>wr out. a = Wrote wr out \<Longrightarrow> write_closed d = write_closed c"
  by (induction rule: run.induct) (auto simp: wrote_keeps_open)

text \<open>C14: After \<open>Shutdown\<close> of a connection with pending output, the write events that follow
  write exactly that output, however many bytes each \<open>write\<close> takes. Neither \<open>Shutdown\<close> nor any
  of them closes the writing side: that is done by the first write event after the output is
  gone, which also stops the events.\<close>

theorem shutdown_drains:
  assumes "conn_ok valid c" and "tc_writing c" and "tc_state c = Connected" and "\<not> write_closed c"
    and "sum_list ks = length (mb_contents (write_buffer c))" and "0 \<notin> set ks"
  shows "\<exists>outs d. run (tc_step valid user) c (Called CallShutdown # map2 Wrote (map Some ks) outs @ [WriteIdle]) d \<and>
    concat outs = mb_contents (write_buffer c) \<and> write_closed d \<and> \<not> tc_writing d \<and>
    (\<forall>n e. run (tc_step valid user) c (take n (Called CallShutdown # map2 Wrote (map Some ks) outs)) e \<longrightarrow> \<not> write_closed e)"
proof -
  let ?c = "c\<lparr>tc_state := Disconnecting\<rparr>"
  have sd: "tc_step valid user c (Called CallShutdown) e \<longleftrightarrow> e = ?c" for e
    using assms(2,3) by (auto simp: step_simps conn_call_do_def conn_shutdown_def)
  moreover have "conn_ok valid ?c" using assms(1,2) by (simp add: conn_ok_def tc_inv_def)
  then obtain outs d where o: "run (tc_step valid user) ?c (map2 Wrote (map Some ks) outs @ [WriteIdle]) d"
    "concat outs = mb_contents (write_buffer c)" "write_closed d" "\<not> tc_writing d"
    using drains [of valid ?c ks user] assms(2,5,6) by auto
  moreover have "\<not> write_closed e"
    if "run (tc_step valid user) c (take n (Called CallShutdown # map2 Wrote (map Some ks) outs)) e" for n e
  proof (cases n)
    case 0
    with that assms(4) show ?thesis by simp
  next
    case (Suc m)
    with that sd have "run (tc_step valid user) ?c (take m (map2 Wrote (map Some ks) outs)) e" by auto
    then have "write_closed e = write_closed ?c"
      by (rule wrotes_keep_open) (auto dest!: in_set_takeD)
    with assms(4) show ?thesis by simp
  qed
  ultimately show ?thesis by (intro exI [of _ outs] exI [of _ d]) auto
qed

theorem shutdown_drains_witness:
  "\<exists>c c1 outs d. mb_contents (write_buffer c) = [1, 2, 3] \<and>
     run (tc_step (\<lambda>fd. True) (\<lambda>e c. [])) c [Called CallShutdown] c1 \<and> \<not> write_closed c1 \<and>
     run (tc_step (\<lambda>fd. True) (\<lambda>e c. [])) c (Called CallShutdown # map2 Wrote [Some 2, Some 1] outs @ [WriteIdle]) d \<and>
     concat outs = [1, 2, 3] \<and> write_closed d"
proof -
  let ?v = "\<lambda>fd :: int. True" and ?u = "\<lambda>e c. []" and ?w = "\<lambda>outs. map2 Wrote (map Some [2, 1]) outs"
  obtain c where c: "tc_new True ?v Connected 1 0 7 (poller_new Map.empty) = Inr c" "conn_ok ?v c"
    "mb_contents (write_buffer c) = []" "tc_state c = Connected" by (rule one_conn_E)
  obtain d where d: "conn_call_do ?v (CallSend [1, 2, 3]) c = Inr d" "conn_ok ?v d" "tc_state d = tc_state c"
    "tc_writing d" "mb_contents (write_buffer d) = [1, 2, 3]" "write_closed d = write_closed c"
    by (rule sent_E [OF c(2), of "[1, 2, 3]"]) (use c(3) in \<open>auto simp: room_def\<close>)
  obtain outs e where e: "run (tc_step ?v ?u) d (Called CallShutdown # ?w outs @ [WriteIdle]) e"
    "concat outs = [1, 2, 3]" "write_closed e"
    "\<forall>n e. run (tc_step ?v ?u) d (take n (Called CallShutdown # ?w outs)) e \<longrightarrow> \<not> write_closed e"
    using shutdown_drains [OF d(2,4), of "[2, 1]" ?u] c(4) tc_new_open [OF c(1)] d(3,5,6) by auto
  obtain c1 where c1: "run (tc_step ?v ?u) d [Called CallShutdown] c1" using e(1) by auto
  with e(4) have "\<not> write_closed c1" by (metis take_Suc_Cons take_0)
  with d(5) c1 e(1-3) show ?thesis by (intro exI [of _ d] exI [of _ c1] exI [of _ outs] exI [of _ e]) simp
qed

text \<open>C18: \<open>ReadCallback\<close> on every outcome of the read: received bytes are appended to the read
  buffer and the receive callback runs; an end of file disconnects, stops the kernel watching
  the descriptor and runs the connection and the close callback that are set, with the unread
  bytes kept. A read error is none of these: since \<open>n\<close> is unsigned, the receive callback runs
  on an unchanged buffer, and the connection stays as it is.\<close>

theorem read_callback_outcomes:
  assumes "conn_ok valid c" and "read_fits (Inr bs) c" and "bs \<noteq> []"
  shows "(\<exists>rb. mb_contents rb = mb_contents (read_buffer c) @ bs \<and>
      tc_read_callback True valid user (Inr bs) c = call_if (recv_set c) valid user RecvCallback (c\<lparr>read_buffer := rb\<rparr>)) \<and>
    (interests (tc_poller c) (tc_fd c) \<noteq> None \<longrightarrow>
      (\<exists>rb s. mb_contents rb = mb_contents (read_buffer c) \<and> interests s (tc_fd c) = None \<and>
        tc_read_callback True valid (\<lambda>e c. []) (Inr []) c =
          Inr (c\<lparr>read_buffer := rb, tc_state := Disconnected, tc_poller := s\<rparr>,
               (if conn_set c then [(ConnCallback, [])] else []) @ (if close_set c then [(CloseCallback, [])] else [])))) \<and>
    tc_read_callback True valid user (Inl e) c = call_if (recv_set c) valid user RecvCallback c"
proof (intro conjI impI)
  have b: "buf_ok (read_buffer c)" and t: "tc_chan_ok valid c" using assms(1) by (simp_all add: conn_ok_def tc_inv_def)
  obtain rb where rb: "mb_read_fd (read_buffer c) (Inr bs) = Inr (length bs, rb, None)"
    "mb_contents rb = mb_contents (read_buffer c) @ bs"
    by (rule buf_ok_read [OF b, of bs]) (use assms(2) in \<open>simp_all add: read_fits_def\<close>)
  have "bind_res m (\<lambda>(c, evs). Inr (c, evs)) = m" for m :: "(tcp_connection \<times> called) res"
    by (cases m) auto
  with rb assms(3) show "\<exists>rb. mb_contents rb = mb_contents (read_buffer c) @ bs \<and>
      tc_read_callback True valid user (Inr bs) c = call_if (recv_set c) valid user RecvCallback (c\<lparr>read_buffer := rb\<rparr>)"
    by (intro exI [of _ rb]) (simp add: tc_read_callback_def)
  show "tc_read_callback True valid user (Inl e) c = call_if (recv_set c) valid user RecvCallback c"
    using \<open>\<And>m. bind_res m (\<lambda>(c, evs). Inr (c, evs)) = m\<close> by (simp add: tc_read_callback_def mb_read_fd_def)
  assume i: "interests (tc_poller c) (tc_fd c) \<noteq> None"
  obtain rb where rb: "mb_read_fd (read_buffer c) (Inr []) = Inr (0, rb, None)"
    "mb_contents rb = mb_contents (read_buffer c)"
    by (rule buf_ok_read [OF b, of "[]"]) (use assms(2) in \<open>auto simp: read_fits_def\<close>)
  let ?c = "c\<lparr>read_buffer := rb\<rparr>"
  have "tc_chan_ok valid ?c" using t by simp
  then obtain s where s: "chan_do True valid DisableAll (?c\<lparr>tc_state := Disconnected\<rparr>) =
      Inr (?c\<lparr>tc_state := Disconnected, tc_poller := s\<rparr>)" by (rule disable_all_E)
  have "interests s (tc_fd c) = None"
    using disable_all_unwatches [OF _ s] t i by simp
  with rb s show "\<exists>rb s. mb_contents rb = mb_contents (read_buffer c) \<and> interests s (tc_fd c) = None \<and>
        tc_read_callback True valid (\<lambda>e c. []) (Inr []) c =
          Inr (c\<lparr>read_buffer := rb, tc_state := Disconnected, tc_poller := s\<rparr>,
               (if conn_set c then [(ConnCallback, [])] else []) @ (if close_set c then [(CloseCallback, [])] else []))"
    by (intro exI [of _ rb] exI [of _ s])
      (simp add: tc_read_callback_def handle_close_def call_if_def call_user_def)
qed

theorem read_callback_outcomes_witness:
  "\<exists>c rb. mb_contents rb = [1] \<and>
     tc_read_callback True (\<lambda>fd. True) (\<lambda>e c. []) (Inr [1]) c = Inr (c\<lparr>read_buffer := rb\<rparr>, []) \<and>
     tc_read_callback True (\<lambda>fd. True) (\<lambda>e c. []) (Inl 104) c = Inr (c, [])"
proof -
  let ?v = "\<lambda>fd :: int. True"
  obtain c where c: "conn_ok ?v c" "mb_contents (read_buffer c) = []" "\<not> recv_set c" by (rule one_conn_E)
  have "read_fits (Inr [1]) c" using c(2) by (simp add: read_fits_def room_def mb_iov_len_def ext_len_def Let_def)
  from read_callback_outcomes [OF c(1) this, of "\<lambda>e c. []" 104] c(2,3) show ?thesis
    by (auto simp: call_if_def)
qed

text \<open>C19: When \<open>write\<close> returns an error, whichever (and without \<open>SIGPIPE\<close>, see the header of
  \<open>Spec2Isabelle\<close>), \<open>Retrieve\<close> gets the largest \<open>size_t\<close>
  and drops all pending output. Nothing else changes, so the connection looks as if the output
  had been sent: the next write event stops the events and, after \<open>Shutdown\<close>, closes the
  writing side.\<close>

theorem write_error_drops_output:
  assumes "conn_ok valid c" and "tc_writing c" and "mb_contents (write_buffer c) \<noteq> []"
  shows "\<exists>d e. tc_step valid user c (Wrote None []) d \<and> tc_step valid user d WriteIdle e \<and>
    mb_contents (write_buffer d) = [] \<and> d = c\<lparr>write_buffer := write_buffer d\<rparr> \<and>
    \<not> tc_writing e \<and> tc_state e = tc_state c \<and> write_closed e = (write_closed c \<or> tc_state c = Disconnecting)"
proof -
  let ?d = "c\<lparr>write_buffer := mb_retrieve (write_buffer c) (2 ^ 64 - 1)\<rparr>"
  have b: "mb_inv (write_buffer c)" "buf_ok (write_buffer c)" "tc_chan_ok valid c"
    using assms(1) by (simp_all add: conn_ok_def buf_ok_def tc_inv_def)
  have "length (mb_contents (write_buffer c)) \<le> length (buffer (write_buffer c))"
    by (simp add: mb_contents_def)
  also have "\<dots> < 2 ^ 64 - 1" using b(2) by (simp add: buf_ok_def room_def)
  finally have e: "mb_contents (write_buffer ?d) = []"
    using b(1) by (simp add: mb_retrieve_ok)
  have d: "tc_step valid user c (Wrote None []) ?d"
    using assms by (simp add: step_simps will_write_def tc_write_callback_def conn_ok_readable Let_def)
  have k: "conn_ok valid ?d" using assms(1,2) by (simp add: conn_ok_def tc_inv_def)
  have "tc_chan_ok valid ?d" using b(3) by simp
  then obtain s where "chan_do True valid DisableWriting ?d = Inr (?d\<lparr>tc_poller := s\<rparr>)" "\<not> tc_writing (?d\<lparr>tc_poller := s\<rparr>)"
    by (rule chan_do_E [where cop = DisableWriting]) simp
  with assms(2) e conn_ok_readable [OF k]
  have "\<exists>e. tc_step valid user ?d WriteIdle e \<and> \<not> tc_writing e \<and> tc_state e = tc_state c \<and>
      write_closed e = (write_closed c \<or> tc_state c = Disconnecting)"
    by (auto simp: step_simps will_write_def tc_write_callback_def)
  moreover have "?d = c\<lparr>write_buffer := write_buffer ?d\<rparr>" by simp
  ultimately show ?thesis using d e by blast
qed

theorem write_error_drops_output_witness:
  "\<exists>c d. mb_contents (write_buffer c) = [1, 2] \<and> tc_step (\<lambda>fd. True) (\<lambda>e c. []) c (Wrote None []) d \<and>
     mb_contents (write_buffer d) = [] \<and> tc_state d = Connected"
proof -
  let ?v = "\<lambda>fd :: int. True"
  obtain c0 where c0: "conn_ok ?v c0" "mb_contents (write_buffer c0) = []" "tc_state c0 = Connected" by (rule one_conn_E)
  obtain c where c: "conn_ok ?v c" "tc_state c = tc_state c0" "tc_writing c" "mb_contents (write_buffer c) = [1, 2]"
    by (rule sent_E [OF c0(1), of "[1, 2]"]) (use c0(2) in \<open>auto simp: room_def\<close>)
  from write_error_drops_output [OF c(1,3), of "\<lambda>e c. []"] c(4) obtain d where d:
    "tc_step ?v (\<lambda>e c. []) c (Wrote None []) d" "mb_contents (write_buffer d) = []" "d = c\<lparr>write_buffer := write_buffer d\<rparr>"
    by auto
  have "tc_state d = Connected" by (subst d(3)) (simp add: c(2) c0(3))
  with c(4) d(1,2) show ?thesis by blast
qed

text \<open>C20: \<open>ConnectionDestroy\<close> in every state. A connected one whose connection callback is
  set and calls nothing is disconnected, reported and forgotten by poller and kernel; without
  the callback the call throws. In any other state it forgets a channel that has no events, as
  after an end of file, and fails an assertion on one that still has some, as after
  \<open>Shutdown\<close> or before \<open>ConnectionEstablished\<close>. And where it would succeed it fails the
  assertion of \<open>RemoveChannel\<close> when it is called while the loop dispatches and its channel is
  active but not the one being handled.\<close>

theorem destroy_outcomes:
  assumes "tc_inv valid c" and "tc_channel c = Some ch"
  shows "(tc_state c = Connected \<and> conn_set c \<longrightarrow>
      (if may_remove dsp (tc_chan c)
       then \<exists>d. connection_destroy True dsp valid (\<lambda>e c. []) c = Inr (d, [(ConnCallback, [])]) \<and> tc_state d = Disconnected \<and>
         channels (tc_poller d) (tc_fd c) = None \<and> interests (tc_poller d) (tc_fd c) = None
       else connection_destroy True dsp valid (\<lambda>e c. []) c = Inl AssertFailed)) \<and>
    (tc_state c = Connected \<and> \<not> conn_set c \<longrightarrow> connection_destroy True dsp valid user c = Inl NullCall) \<and>
    (tc_state c \<noteq> Connected \<longrightarrow>
      (if events ch = 0 \<and> index ch \<noteq> kNew \<and> may_remove dsp (tc_chan c)
       then \<exists>d. connection_destroy True dsp valid user c = Inr (d, []) \<and> tc_state d = tc_state c \<and>
         channels (tc_poller d) (tc_fd c) = None \<and> interests (tc_poller d) (tc_fd c) = None
       else connection_destroy True dsp valid user c = Inl AssertFailed))"
proof -
  have t: "tc_chan_ok valid c" and k: "chan_ok valid (tc_poller c) (tc_chan c)" and fd: "ch_fd ch = tc_fd c"
    using assms by (simp_all add: tc_inv_def tc_chan_ok_def)
  have h: "heap (tc_poller c) (tc_chan c) = Some ch" using assms(2) by (simp add: tc_channel_def)
  obtain s where s: "chan_do True valid DisableAll (c\<lparr>tc_state := Disconnected\<rparr>) = Inr (c\<lparr>tc_state := Disconnected, tc_poller := s\<rparr>)"
    "map_option events (heap s (tc_chan c)) = Some 0" "tc_inv valid (c\<lparr>tc_state := Disconnected, tc_poller := s\<rparr>)"
    by (rule disable_all_E [OF t])
  then obtain ch' where ch': "heap s (tc_chan c) = Some ch'" "events ch' = 0" "ch_fd ch' = tc_fd c" "chan_ok valid s (tc_chan c)"
    by (auto simp: tc_inv_def tc_chan_ok_def tc_channel_def)
  have "index ch' \<noteq> kNew"
  proof -
    have "chan_apply True valid DisableAll (tc_chan c) (tc_poller c) = Inr s"
      using s(1) by (auto simp: chan_do_def bind_res_Inr_iff dest: arg_cong [where f = tc_poller])
    with chan_apply_ok [where valid = valid and cop = DisableAll, of "tc_poller c" "tc_chan c" ch] k h ch'(1)
    show ?thesis by (auto simp: chan_ok_def put_channel_def next_index_def index_states split: if_splits)
  qed
  with chan_remove_chan_ok(1) [OF ch'(4,1)] ch'(2) have
    "chan_remove True dsp valid (tc_chan c) s =
       (if may_remove dsp (tc_chan c)
        then Inr (put_channel (tc_chan c) (ch'\<lparr>added_to_loop := False, index := kNew\<rparr>) s) else Inl AssertFailed)"
    by simp
  with s(1) ch'(3) have "tc_state c = Connected \<and> conn_set c \<longrightarrow>
      (if may_remove dsp (tc_chan c)
       then \<exists>d. connection_destroy True dsp valid (\<lambda>e c. []) c = Inr (d, [(ConnCallback, [])]) \<and> tc_state d = Disconnected \<and>
         channels (tc_poller d) (tc_fd c) = None \<and> interests (tc_poller d) (tc_fd c) = None
       else connection_destroy True dsp valid (\<lambda>e c. []) c = Inl AssertFailed)"
    by (auto simp: connection_destroy_def call_user_def put_channel_def index_states)
  moreover have "tc_state c = Connected \<and> \<not> conn_set c \<longrightarrow> connection_destroy True dsp valid user c = Inl NullCall"
    using s(1) by (simp add: connection_destroy_def)
  moreover have "tc_state c \<noteq> Connected \<longrightarrow>
      (if events ch = 0 \<and> index ch \<noteq> kNew \<and> may_remove dsp (tc_chan c)
       then \<exists>d. connection_destroy True dsp valid user c = Inr (d, []) \<and> tc_state d = tc_state c \<and>
         channels (tc_poller d) (tc_fd c) = None \<and> interests (tc_poller d) (tc_fd c) = None
       else connection_destroy True dsp valid user c = Inl AssertFailed)"
    using chan_remove_chan_ok(1) [OF k h] fd by (auto simp: connection_destroy_def put_channel_def index_states)
  ultimately show ?thesis by blast
qed

theorem destroy_outcomes_witness:
  "\<exists>c. tc_new True (\<lambda>fd. True) Connecting 1 0 7 (poller_new Map.empty) = Inr c \<and>
     connection_destroy True None (\<lambda>fd. True) (\<lambda>e c. []) c = Inl AssertFailed"
proof -
  let ?v = "\<lambda>fd :: int. True"
  obtain c where c: "tc_new True ?v Connecting 1 0 7 (poller_new Map.empty) = Inr c" "conn_ok ?v c" "tc_state c = Connecting"
    "tc_chan c = 0"
    "tc_poller c = put_channel 0 ((conn_channel 1 7)\<lparr>events := kReadEvent, index := kAdded\<rparr>) (poller_new Map.empty)"
    by (rule one_conn_E)
  have "tc_inv ?v c" using c(2) by (simp add: conn_ok_def)
  moreover have "tc_channel c = Some ((conn_channel 1 7)\<lparr>events := kReadEvent, index := kAdded\<rparr>)"
    using c(4,5) by (simp add: tc_channel_def put_channel_def)
  ultimately have "connection_destroy True None ?v (\<lambda>e c. []) c = Inl AssertFailed"
    using destroy_outcomes [of ?v c "(conn_channel 1 7)\<lparr>events := kReadEvent, index := kAdded\<rparr>" None] c(3)
    by (simp add: kReadEvent_def poll_flags)
  with c(1) show ?thesis by blast
qed

end
