(* ===== verification/Tcp_Server.thy ===== *)
theory Tcp_Server
  imports Connection_Stream Inet_Socket Event_Loop
begin

text \<open>
  \<open>Acceptor\<close> and \<open>TcpServer\<close> (\<open>src/water/net/acceptor.h\<close>, \<open>acceptor.cc\<close>,
  \<open>tcp_server.h\<close>, \<open>tcp_server.cc\<close>), put together with the connections, their channels and
  the poller of the loop, which also has the channels of the loop itself. The state holds the
  server's members, the poller and, for every descriptor, the bytes handed to the kernel and
  the messages given to the connection to send, the bytes read from it and the bytes its
  callbacks took. A dispatch is \<open>HandleEvent\<close> of an active
  channel, which calls back into acceptor and connections. What the system calls of one turn of
  the loop return is a record, and so are the addresses the allocator gives new objects.
\<close>

section \<open>Acceptor\<close>

record acceptor =
  ac_sock :: int
  ac_addr :: inet_address
  ac_chan :: nat          \<comment> \<open>the address of \<open>accept_channel_\<close>\<close>
  ac_callback :: bool     \<comment> \<open>\<open>new_connection_callback_\<close> is set\<close>

definition acceptor_new ::
  "(byte list \<Rightarrow> bool) \<Rightarrow> int \<Rightarrow> nat \<Rightarrow> inet_address \<Rightarrow> io_callback poller \<Rightarrow> (acceptor \<times> io_callback poller) res" where
  "acceptor_new accepts sock p addr s =
     bind_res (create_nonblocking_socket sock) (\<lambda>fd.
     bind_res (bind_address accepts fd addr) (\<lambda>_.
     Inr (\<lparr>ac_sock = fd, ac_addr = addr, ac_chan = p, ac_callback = False\<rparr>,
          s\<lparr>heap := (heap s)(p \<mapsto> set_read_callback AcceptCb (channel_new fd))\<rparr>)))"

definition acceptor_listen ::
  "bool \<Rightarrow> (int \<Rightarrow> bool) \<Rightarrow> int \<Rightarrow> acceptor \<Rightarrow> io_callback poller \<Rightarrow> io_callback poller res" where
  "acceptor_listen in_loop valid ret a s =
     bind_res (check in_loop ProcessExit) (\<lambda>_.
     bind_res (socket_listen ret (ac_sock a)) (\<lambda>_.
     chan_apply in_loop valid EnableReading (ac_chan a) s))"

text \<open>\<open>ReadCallback\<close>, given what \<open>accept(2)\<close> returned.\<close>

datatype accepted = AcceptFailed | AcceptDropped int | AcceptNew int inet_address

definition acceptor_read :: "int \<Rightarrow> byte list \<Rightarrow> byte list \<Rightarrow> acceptor \<Rightarrow> accepted" where
  "acceptor_read connfd bytes garbage a =
     (case socket_accept connfd bytes (ia_of_port garbage 0 False False) of (new_sock, peer) \<Rightarrow>
        if 0 \<le> new_sock then if ac_callback a then AcceptNew new_sock peer else AcceptDropped new_sock
        else AcceptFailed)"

definition acceptor_destroy :: "bool \<Rightarrow> dispatching \<Rightarrow> (int \<Rightarrow> bool) \<Rightarrow> acceptor \<Rightarrow> io_callback poller \<Rightarrow> io_callback poller res" where
  "acceptor_destroy in_loop dsp valid a s =
     bind_res (chan_apply in_loop valid DisableAll (ac_chan a) s) (\<lambda>s.
     bind_res (chan_remove in_loop dsp valid (ac_chan a) s) (\<lambda>s.
     Inr (release (ac_chan a) (ac_sock a) s)))"

section \<open>Server\<close>

text \<open>Who had a message sent: \<open>NewConnection\<close> itself, a callback of the connection, another
  callback of the loop's thread, or a function that another thread queued.\<close>

datatype sent_by = ByServer | ByCallback | ByLoop | ByQueue

record tcp_server =
  sv_poller :: "io_callback poller"
  sv_acceptor :: acceptor
  sv_conns :: "nat \<Rightarrow> tcp_connection option"   \<comment> \<open>\<open>conn_set_\<close>, by address\<close>
  sv_recv :: bool                              \<comment> \<open>\<open>recv_msg_callback_\<close> is set\<close>
  wire :: "int \<Rightarrow> byte list"                   \<comment> \<open>the bytes the kernel took for a descriptor\<close>
  asked_of :: "int \<Rightarrow> (sent_by \<times> byte list) list"  \<comment> \<open>the messages to send on it\<close>
  heard :: "int \<Rightarrow> byte list"                  \<comment> \<open>the bytes \<open>readv\<close> stored for a descriptor\<close>
  consumed :: "int \<Rightarrow> byte list"               \<comment> \<open>those its callbacks took from the read buffer\<close>

definition server_new ::
  "(byte list \<Rightarrow> bool) \<Rightarrow> int \<Rightarrow> nat \<Rightarrow> inet_address \<Rightarrow> io_callback poller \<Rightarrow> tcp_server res" where
  "server_new accepts sock p addr s =
     bind_res (acceptor_new accepts sock p addr s) (\<lambda>(a, s).
     Inr \<lparr>sv_poller = s, sv_acceptor = a\<lparr>ac_callback := True\<rparr>, sv_conns = Map.empty, sv_recv = False,
          wire = (\<lambda>fd. []), asked_of = (\<lambda>fd. []), heard = (\<lambda>fd. []), consumed = (\<lambda>fd. [])\<rparr>)"

definition server_start :: "(int \<Rightarrow> bool) \<Rightarrow> int \<Rightarrow> tcp_server \<Rightarrow> tcp_server res" where
  "server_start valid ret s =
     bind_res (acceptor_listen True valid ret (sv_acceptor s) (sv_poller s)) (\<lambda>p. Inr (s\<lparr>sv_poller := p\<rparr>))"

text \<open>
  \<open>NewConnection\<close> first writes a hundred megabytes to the client itself (\<open>greeted\<close> is what
  \<open>write\<close> returned, \<open>None\<close> an error) and then makes the connection.
\<close>

definition greeting :: "byte list" where
  "greeting = replicate (1024 * 1024 * 100) 65"

definition new_connection ::
  "(int \<Rightarrow> bool) \<Rightarrow> nat option \<Rightarrow> conn_state \<Rightarrow> nat \<Rightarrow> nat \<Rightarrow> int \<Rightarrow> tcp_server \<Rightarrow> tcp_server res" where
  "new_connection valid greeted garbage this p sock_fd s =
     (let out = (case greeted of Some n \<Rightarrow> take n greeting | None \<Rightarrow> []) in
      bind_res (tc_new True valid garbage this p sock_fd (sv_poller s)) (\<lambda>c.
      let c = c\<lparr>recv_set := True\<rparr> in
      Inr (s\<lparr>sv_poller := tc_poller c, sv_conns := (sv_conns s)(this \<mapsto> c),
             wire := (wire s)(sock_fd := wire s sock_fd @ out),
             asked_of := (asked_of s)(sock_fd := asked_of s sock_fd @ [(ByServer, out)])\<rparr>)))"

text \<open>The callback the server gives every connection, which asks for the user's first.\<close>

definition server_user :: "user \<Rightarrow> tcp_server \<Rightarrow> user" where
  "server_user user s e c = (if sv_recv s then user e c else [])"

text \<open>
  The destructor: the members go in reverse order, so the connections, without
  \<open>ConnectionDestroy\<close>, and then the acceptor. No one else holds the connections.
\<close>

definition drop_conns :: "(nat \<times> int) list \<Rightarrow> io_callback poller \<Rightarrow> io_callback poller" where
  "drop_conns objs s = fold (\<lambda>(p, fd). release p fd) objs s"

definition server_destroy ::
  "bool \<Rightarrow> dispatching \<Rightarrow> (int \<Rightarrow> bool) \<Rightarrow> nat list \<Rightarrow> tcp_server \<Rightarrow> io_callback poller res" where
  "server_destroy in_loop dsp valid order s =
     bind_res (check in_loop ProcessExit) (\<lambda>_.
     acceptor_destroy in_loop dsp valid (sv_acceptor s)
       (drop_conns (List.map_filter (\<lambda>this. map_option (\<lambda>c. (tc_chan c, tc_fd c)) (sv_conns s this)) order) (sv_poller s)))"

text \<open>A server on a loop: the loop is made first, and the server gets its poller.\<close>

definition server_boot ::
  "(int \<Rightarrow> bool) \<Rightarrow> (byte list \<Rightarrow> bool) \<Rightarrow> nat \<times> int \<Rightarrow> nat \<times> int \<Rightarrow> int \<Rightarrow> nat \<Rightarrow> inet_address \<Rightarrow> tcp_server res" where
  "server_boot valid accepts timer wake sock p addr =
     bind_res (loop_ctor valid False TimerCb WakeCb timer wake) (server_new accepts sock p addr)"

section \<open>Dispatch\<close>

record turn =
  accept_result :: "int \<times> byte list"
  greet_result :: "nat option"
  state_garbage :: conn_state
  new_this :: nat
  new_chan :: nat
  readv_result :: "nat \<Rightarrow> nat + byte list"
  write_result :: "nat \<Rightarrow> nat option"

text \<open>A callback of a connection runs on the connection with the loop's poller.\<close>

definition conn_in :: "tcp_server \<Rightarrow> tcp_connection \<Rightarrow> tcp_connection" where
  "conn_in s c = c\<lparr>tc_poller := sv_poller s\<rparr>"

definition conn_out ::
  "nat \<Rightarrow> byte list \<Rightarrow> (sent_by \<times> byte list) list \<Rightarrow> byte list \<Rightarrow> byte list \<Rightarrow> tcp_connection \<Rightarrow> tcp_server \<Rightarrow> tcp_server" where
  "conn_out this out msgs got took d s = s\<lparr>sv_poller := tc_poller d, sv_conns := (sv_conns s)(this \<mapsto> d),
     wire := (wire s)(tc_fd d := wire s (tc_fd d) @ out),
     asked_of := (asked_of s)(tc_fd d := asked_of s (tc_fd d) @ msgs),
     heard := (heard s)(tc_fd d := heard s (tc_fd d) @ got),
     consumed := (consumed s)(tc_fd d := consumed s (tc_fd d) @ took)\<rparr>"

text \<open>The callbacks of timer queue and loop do not act on this state; they are in \<open>Reactor\<close>.\<close>

definition io_call :: "(int \<Rightarrow> bool) \<Rightarrow> user \<Rightarrow> turn \<Rightarrow> io_callback \<Rightarrow> tcp_server \<Rightarrow> tcp_server res" where
  "io_call valid user env cb s =
     (case cb of
        AcceptCb \<Rightarrow>
          (case acceptor_read (fst (accept_result env)) (snd (accept_result env)) (replicate 12 0) (sv_acceptor s) of
             AcceptNew fd peer \<Rightarrow>
               new_connection valid (greet_result env) (state_garbage env) (new_this env) (new_chan env) fd s
           | _ \<Rightarrow> Inr s)
      | ReadCb this \<Rightarrow>
          (case sv_conns s this of None \<Rightarrow> Inl OutOfBounds | Some c \<Rightarrow>
             bind_res (tc_read_callback True valid (server_user user s) (readv_result env this) (conn_in s c)) (\<lambda>(d, evs).
             Inr (conn_out this [] (map (Pair ByCallback) (called_msgs evs)) (stored (readv_result env this))
               (take (called_takes evs) (mb_contents (read_buffer c) @ stored (readv_result env this))) d s)))
      | WriteCb this \<Rightarrow>
          (case sv_conns s this of None \<Rightarrow> Inl OutOfBounds | Some c \<Rightarrow>
             bind_res (tc_write_callback True valid (write_result env this) (conn_in s c)) (\<lambda>(d, out).
             Inr (conn_out this out [] [] [] d s)))
      | _ \<Rightarrow> Inr s)"

definition handle_channel :: "(int \<Rightarrow> bool) \<Rightarrow> user \<Rightarrow> turn \<Rightarrow> nat \<Rightarrow> tcp_server \<Rightarrow> tcp_server res" where
  "handle_channel valid user env q s =
     (if heap (sv_poller s) q = None then Inl OutOfBounds
      else handle_event (\<lambda>obj s. sv_conns s obj \<noteq> None) (\<lambda>s. the (heap (sv_poller s) q)) (io_call valid user env) s)"

section \<open>Properties\<close>

text \<open>C39: The address the acceptor hands on with a new client is the one the system reports,
  IPv4 or IPv6, in text, port and family; \<open>GetPeerAddr\<close> and \<open>GetLocalAddr\<close> give it in the same
  form. Without a callback the new descriptor is closed. When \<open>accept\<close> fails nothing is handed
  on and the caller's address is left alone; when \<open>getsockname\<close> or \<open>getpeername\<close> does, the
  result has no family, and its text is that of an uninitialised array.\<close>

theorem accepted_address:
  assumes "length ip = 4" and "length ip6 = 16" and "0 \<le> fd"
  shows "(\<exists>ia. acceptor_read fd (sock_bytes_v4 ip port) garbage a = (if ac_callback a then AcceptNew fd ia else AcceptDropped fd) \<and>
      ia_family ia = AF_INET \<and> ia_to_port ia = port \<and>
      ia_to_ip_port ntop6 ia = Inr (inet_ntop4 ip @ '':'' @ dec (unat port)) \<and>
      socket_accept fd (sock_bytes_v4 ip port) peer = (fd, ia) \<and>
      get_peer_addr (Some (sock_bytes_v4 ip port)) = ia \<and> get_local_addr (Some (sock_bytes_v4 ip port)) = ia) \<and>
    (\<exists>ia. acceptor_read fd (sock_bytes_v6 ip6 port) garbage a = (if ac_callback a then AcceptNew fd ia else AcceptDropped fd) \<and>
      ia_family ia = AF_INET6 \<and> ia_to_port ia = port \<and>
      ia_to_ip_port ntop6 ia = Inr (ntop6 ip6 @ '':'' @ dec (unat port)) \<and>
      socket_accept fd (sock_bytes_v6 ip6 port) peer = (fd, ia) \<and>
      get_peer_addr (Some (sock_bytes_v6 ip6 port)) = ia \<and> get_local_addr (Some (sock_bytes_v6 ip6 port)) = ia) \<and>
    acceptor_read (- 1) bytes garbage a = AcceptFailed \<and> socket_accept (- 1) bytes peer = (- 1, peer) \<and>
    ia_to_ip ntop6 (get_peer_addr None) = Inl Uninitialised \<and> get_local_addr None = get_peer_addr None"
proof -
  have "ia_family sockaddr_in6_zero = 0"
    by (simp add: ia_family_def ia_get_def window_def sockaddr_in6_zero_def numeral_2_eq_2 load_le_def)
  then have "ia_to_ip ntop6 (get_peer_addr None) = Inl Uninitialised"
    by (simp add: ia_to_ip_def get_peer_addr_def AF_INET_def AF_INET6_def)
  with ia_v4_simps [OF sys_addr_v4 [OF assms(1), of port]] ia_v6_simps [OF sys_addr_v6 [OF assms(2), of port]]
    sys_addr_v4 [OF assms(1), of port] sys_addr_v6 [OF assms(2), of port] assms(3)
  show ?thesis
    by (simp add: acceptor_read_def socket_accept_def get_peer_addr_def get_local_addr_def ia_v4_def ia_v6_def Let_def)
qed

theorem accepted_address_witness:
  "\<exists>ia. acceptor_read 7 (sock_bytes_v4 [10, 0, 0, 1] 80) (replicate 12 0)
      \<lparr>ac_sock = 3, ac_addr = [], ac_chan = 0, ac_callback = True\<rparr> = AcceptNew 7 ia \<and>
    ia_to_port ia = 80 \<and> ia_family ia = AF_INET"
  using accepted_address [of "[10, 0, 0, 1]" "replicate 16 0" 7 80 "replicate 12 0"
      "\<lparr>ac_sock = 3, ac_addr = [], ac_chan = 0, ac_callback = True\<rparr>"] by auto

end
