(* ===== verification/Server_Inv.thy ===== *)
theory Server_Inv
  imports Tcp_Server
begin

text \<open>
  The composition of \<open>Poller\<close>, \<open>Channel\<close>, \<open>Acceptor\<close>, \<open>TcpServer\<close> and
  \<open>TcpConnection\<close>: an invariant that ties every channel of the poller to the object that owns
  it, the streams of the connections, and lemmas that one channel's callbacks succeed, keep both
  and leave the other objects alone.
\<close>

section \<open>What the objects leave alone\<close>

definition others_same :: "nat \<Rightarrow> int \<Rightarrow> 'f poller \<Rightarrow> 'f poller \<Rightarrow> bool" where
  "others_same p fd s s' \<longleftrightarrow> (\<forall>q. q \<noteq> p \<longrightarrow> heap s' q = heap s q) \<and>
     (\<forall>f. f \<noteq> fd \<longrightarrow> channels s' f = channels s f) \<and> event_list_size s' = event_list_size s"

lemma chan_frame_others: "chan_frame p s s' \<Longrightarrow> heap s p = Some ch \<Longrightarrow> others_same p (ch_fd ch) s s'"
  by (auto simp: chan_frame_def others_same_def)

lemma put_channel_others: "others_same p (ch_fd d) s (put_channel p d s)"
  by (simp add: others_same_def put_channel_def)

lemma chan_ok_others:
  assumes "chan_ok valid s q" and "poller_inv s'" and "others_same p fd s s'" and "q \<noteq> p"
    and "heap s q = Some ch" and "ch_fd ch \<noteq> fd"
  shows "chan_ok valid s' q" "heap s' q = Some ch" "channels s' (ch_fd ch) = channels s (ch_fd ch)"
  using assms by (auto simp: chan_ok_def others_same_def)

section \<open>The invariant of the server\<close>

text \<open>
  Every channel belongs to the acceptor, to one connection or to the loop itself; their
  descriptors differ, and every connection is known to the poller.
\<close>

definition loop_owned :: "io_callback channel \<Rightarrow> bool" where
  "loop_owned ch \<longleftrightarrow> tie ch = None \<and> read_callback ch \<in> {Some TimerCb, Some WakeCb} \<and>
     write_callback ch = None \<and> error_callback ch = None"

definition accept_ok :: "(int \<Rightarrow> bool) \<Rightarrow> acceptor \<Rightarrow> io_callback poller \<Rightarrow> bool" where
  "accept_ok valid a s \<longleftrightarrow> chan_ok valid s (ac_chan a) \<and> ac_callback a \<and> 0 < ac_sock a \<and>
     (\<exists>ch. heap s (ac_chan a) = Some ch \<and> ch_fd ch = ac_sock a \<and> tie ch = None \<and>
        read_callback ch = Some AcceptCb \<and> write_callback ch = None \<and> error_callback ch = None)"

definition member_ok :: "(int \<Rightarrow> bool) \<Rightarrow> tcp_server \<Rightarrow> nat \<Rightarrow> tcp_connection \<Rightarrow> bool" where
  "member_ok valid s this c \<longleftrightarrow> conn_ok valid (conn_in s c) \<and> tc_this c = this \<and>
     recv_set c \<and> \<not> conn_set c \<and> \<not> close_set c \<and>
     tc_chan c \<noteq> ac_chan (sv_acceptor s) \<and> tc_fd c \<noteq> ac_sock (sv_acceptor s) \<and>
     channels (sv_poller s) (tc_fd c) = Some (tc_chan c) \<and>
     (\<exists>ch. heap (sv_poller s) (tc_chan c) = Some ch \<and> tie ch = None \<and> error_callback ch = None \<and>
        read_callback ch = Some (ReadCb this) \<and> write_callback ch = Some (WriteCb this))"

definition distinct_conns :: "(nat \<Rightarrow> tcp_connection option) \<Rightarrow> bool" where
  "distinct_conns cs \<longleftrightarrow> (\<forall>i j c d. cs i = Some c \<and> cs j = Some d \<and> i \<noteq> j \<longrightarrow> tc_chan c \<noteq> tc_chan d \<and> tc_fd c \<noteq> tc_fd d)"

definition sv_inv :: "(int \<Rightarrow> bool) \<Rightarrow> tcp_server \<Rightarrow> bool" where
  "sv_inv valid s \<longleftrightarrow> accept_ok valid (sv_acceptor s) (sv_poller s) \<and>
     (\<forall>this c. sv_conns s this = Some c \<longrightarrow> member_ok valid s this c) \<and> distinct_conns (sv_conns s) \<and>
     (\<forall>p ch. heap (sv_poller s) p = Some ch \<longrightarrow>
        p = ac_chan (sv_acceptor s) \<or> (\<exists>this c. sv_conns s this = Some c \<and> tc_chan c = p) \<or> loop_owned ch) \<and>
     0 < event_list_size (sv_poller s)"

lemma conn_in_simps [simp]:
  "tc_poller (conn_in s c) = sv_poller s" "tc_this (conn_in s c) = tc_this c" "tc_chan (conn_in s c) = tc_chan c"
  "tc_fd (conn_in s c) = tc_fd c" "read_buffer (conn_in s c) = read_buffer c" "write_buffer (conn_in s c) = write_buffer c"
  "recv_set (conn_in s c) = recv_set c" "conn_set (conn_in s c) = conn_set c" "close_set (conn_in s c) = close_set c"
  "tc_state (conn_in s c) = tc_state c" "write_closed (conn_in s c) = write_closed c"
  by (simp_all add: conn_in_def)

lemma conn_in_self [simp]: "tc_poller d = sv_poller s \<Longrightarrow> conn_in s d = d"
  by (simp add: conn_in_def)

lemma sv_inv_poller: "sv_inv valid s \<Longrightarrow> poller_inv (sv_poller s)"
  by (auto simp: sv_inv_def accept_ok_def chan_ok_def)

lemma sv_channel_cases:
  assumes "sv_inv valid s" and "heap (sv_poller s) p = Some ch"
  obtains "p = ac_chan (sv_acceptor s)" | this c where "sv_conns s this = Some c" "tc_chan c = p" | "loop_owned ch"
  using assms unfolding sv_inv_def by blast

lemma sv_member: "sv_inv valid s \<Longrightarrow> sv_conns s this = Some c \<Longrightarrow> member_ok valid s this c"
  by (simp add: sv_inv_def)

lemma sv_accept: "sv_inv valid s \<Longrightarrow> accept_ok valid (sv_acceptor s) (sv_poller s)"
  by (simp add: sv_inv_def)

text \<open>A member whose channel and descriptor are not the ones that changed stays sound.\<close>

lemma member_chan:
  assumes "member_ok valid s this c"
  obtains ch where "heap (sv_poller s) (tc_chan c) = Some ch" "ch_fd ch = tc_fd c" "chan_ok valid (sv_poller s) (tc_chan c)"
    "tie ch = None" "error_callback ch = None" "read_callback ch = Some (ReadCb this)"
    "write_callback ch = Some (WriteCb this)"
  using assms by (auto simp: member_ok_def conn_ok_def tc_inv_def tc_chan_ok_def tc_channel_def)

lemma member_others:
  assumes "member_ok valid s this c" and "poller_inv p'" and "others_same p fd (sv_poller s) p'"
    and "tc_chan c \<noteq> p" and "tc_fd c \<noteq> fd"
    and "sv_poller t = p'" and "sv_acceptor t = sv_acceptor s"
  shows "member_ok valid t this c"
proof -
  obtain ch where ch: "heap (sv_poller s) (tc_chan c) = Some ch" "ch_fd ch = tc_fd c"
    "chan_ok valid (sv_poller s) (tc_chan c)"
    by (rule member_chan [OF assms(1)])
  have k: "chan_ok valid p' (tc_chan c)" "heap p' (tc_chan c) = Some ch" "channels p' (tc_fd c) = channels (sv_poller s) (tc_fd c)"
    using chan_ok_others [OF ch(3) assms(2,3,4) ch(1)] ch(2) assms(5) by simp_all
  have "tc_writing (conn_in t c) = tc_writing (conn_in s c)"
    using k(2) ch(1) assms(6) by (simp add: tc_writing_def tc_channel_def)
  then show ?thesis
    using assms(1,6,7) k ch by (auto simp: member_ok_def conn_ok_def tc_inv_def tc_chan_ok_def tc_channel_def)
qed

lemma accept_others:
  assumes "accept_ok valid a s" and "poller_inv s'" and "others_same p fd s s'" and "ac_chan a \<noteq> p" and "ac_sock a \<noteq> fd"
  shows "accept_ok valid a s'"
proof -
  obtain ch where ch: "heap s (ac_chan a) = Some ch" "ch_fd ch = ac_sock a" "chan_ok valid s (ac_chan a)"
    using assms(1) by (auto simp: accept_ok_def)
  then show ?thesis
    using assms(1) chan_ok_others [OF ch(3) assms(2,3,4) ch(1)] assms(5) by (auto simp: accept_ok_def)
qed

lemma distinct_connsD:
  "distinct_conns cs \<Longrightarrow> cs i = Some c \<Longrightarrow> cs j = Some d \<Longrightarrow> i \<noteq> j \<Longrightarrow> tc_chan c \<noteq> tc_chan d \<and> tc_fd c \<noteq> tc_fd d"
  by (auto simp: distinct_conns_def)

lemma distinct_conns_upd:
  assumes "distinct_conns cs" and "\<And>i b. cs i = Some b \<Longrightarrow> i \<noteq> this \<Longrightarrow> tc_chan b \<noteq> tc_chan d \<and> tc_fd b \<noteq> tc_fd d"
  shows "distinct_conns (cs(this \<mapsto> d))"
  unfolding distinct_conns_def
proof (intro allI impI, elim conjE)
  fix i j b e
  assume *: "(cs(this \<mapsto> d)) i = Some b" "(cs(this \<mapsto> d)) j = Some e" "i \<noteq> j"
  show "tc_chan b \<noteq> tc_chan e \<and> tc_fd b \<noteq> tc_fd e"
  proof (cases "i = this")
    case True
    with * assms(2) [of j e] show ?thesis by force
  next
    case False
    then have b: "cs i = Some b" using *(1) by simp
    show ?thesis
    proof (cases "j = this")
      case True
      with *(2) assms(2) [OF b False] show ?thesis by simp
    next
      case False
      with *(2) have "cs j = Some e" by simp
      from distinct_connsD [OF assms(1) b this *(3)] show ?thesis .
    qed
  qed
qed

text \<open>A connection is put at \<open>this\<close>: the old one with a new state, or a new one.\<close>

lemma sv_inv_put:
  assumes "sv_inv valid s" and "poller_inv (sv_poller t)"
    and "others_same (tc_chan d) (tc_fd d) (sv_poller s) (sv_poller t)"
    and "sv_acceptor t = sv_acceptor s" and "sv_conns t = (sv_conns s)(this \<mapsto> d)" and "member_ok valid t this d"
    and "\<And>i b. sv_conns s i = Some b \<Longrightarrow> i \<noteq> this \<Longrightarrow> tc_chan b \<noteq> tc_chan d \<and> tc_fd b \<noteq> tc_fd d"
    and "\<And>c. sv_conns s this = Some c \<Longrightarrow> tc_chan c = tc_chan d"
  shows "sv_inv valid t"
proof -
  have n: "ac_chan (sv_acceptor s) \<noteq> tc_chan d" "ac_sock (sv_acceptor s) \<noteq> tc_fd d"
    using assms(4,6) by (auto simp: member_ok_def)
  have "accept_ok valid (sv_acceptor t) (sv_poller t)"
    using accept_others [OF _ assms(2,3) n] assms(1,4) by (simp add: sv_inv_def)
  moreover have "member_ok valid t i b" if "sv_conns t i = Some b" for i b
  proof (cases "i = this")
    case True
    with that assms(5,6) show ?thesis by simp
  next
    case False
    with that assms(5) have b: "sv_conns s i = Some b" by simp
    from assms(7) [OF b False] show ?thesis
      by (intro member_others [OF sv_member [OF assms(1) b] assms(2,3)]) (simp_all add: assms(4))
  qed
  moreover have "distinct_conns (sv_conns t)"
    unfolding assms(5) by (rule distinct_conns_upd) (use assms(1,7) in \<open>simp_all add: sv_inv_def\<close>)
  moreover have "q = ac_chan (sv_acceptor t) \<or> (\<exists>i b. sv_conns t i = Some b \<and> tc_chan b = q) \<or> loop_owned ch"
    if "heap (sv_poller t) q = Some ch" for q ch
  proof (cases "q = tc_chan d")
    case True
    then show ?thesis using assms(5) by auto
  next
    case False
    then have "heap (sv_poller s) q = Some ch" using that assms(3) by (simp add: others_same_def)
    with assms(1) show ?thesis
    proof (cases rule: sv_channel_cases)
      case (2 i b)
      with False assms(8) have "i \<noteq> this" by auto
      with 2 assms(5) show ?thesis by (auto intro: exI [of _ i])
    qed (simp_all add: assms(4))
  qed
  moreover have "0 < event_list_size (sv_poller t)"
    using assms(1,3) by (simp add: sv_inv_def others_same_def)
  ultimately show ?thesis unfolding sv_inv_def by blast
qed

lemma conn_out_inv:
  assumes "sv_inv valid s" and "sv_conns s this = Some c" and "conn_next valid (conn_in s c) d"
  shows "sv_inv valid (conn_out this out msgs got took d s)"
proof -
  let ?t = "conn_out this out msgs got took d s"
  note m = sv_member [OF assms(1,2)]
  obtain ch where ch: "heap (sv_poller s) (tc_chan c) = Some ch" "ch_fd ch = tc_fd c" "tie ch = None" "error_callback ch = None"
    "read_callback ch = Some (ReadCb this)" "write_callback ch = Some (WriteCb this)"
    by (rule member_chan [OF m])
  have d: "conn_ok valid d" "tc_this d = tc_this c" "tc_chan d = tc_chan c" "tc_fd d = tc_fd c" "recv_set d = recv_set c"
    "conn_set d = conn_set c" "close_set d = close_set c" and f: "chan_frame (tc_chan c) (sv_poller s) (tc_poller d)"
    using assms(3) by (simp_all add: conn_next_def)
  have t: "sv_poller ?t = tc_poller d" "sv_acceptor ?t = sv_acceptor s" "sv_conns ?t = (sv_conns s)(this \<mapsto> d)"
    by (simp_all add: conn_out_def)
  show ?thesis
  proof (rule sv_inv_put [OF assms(1) _ _ t(2,3)])
    show "poller_inv (sv_poller ?t)" using d(1) t(1) by (simp add: conn_ok_def tc_inv_def tc_chan_ok_def chan_ok_def)
    show "others_same (tc_chan d) (tc_fd d) (sv_poller s) (sv_poller ?t)"
      using chan_frame_others [OF f ch(1)] ch(2) d(3,4) t(1) by simp
    show "member_ok valid ?t this d"
      using m d f ch by (auto simp: member_ok_def t chan_frame_def)
    show "tc_chan b \<noteq> tc_chan d \<and> tc_fd b \<noteq> tc_fd d" if "sv_conns s i = Some b" "i \<noteq> this" for i b
      using distinct_connsD [of "sv_conns s", OF _ that(1) assms(2) that(2)] assms(1) d(3,4) by (simp add: sv_inv_def)
  qed (use assms(2) d(3) in simp)
qed

text \<open>\<open>accept(2)\<close> gives a descriptor that is not in use, and the allocator new addresses.\<close>

definition fresh_for :: "(int \<Rightarrow> bool) \<Rightarrow> tcp_server \<Rightarrow> int \<Rightarrow> nat \<Rightarrow> nat \<Rightarrow> bool" where
  "fresh_for valid s fd this p \<longleftrightarrow> valid fd \<and> (\<forall>q ch. heap (sv_poller s) q = Some ch \<longrightarrow> ch_fd ch \<noteq> fd) \<and>
     sv_conns s this = None \<and> heap (sv_poller s) p = None"

lemma fresh_fds:
  assumes "sv_inv valid s" and "fresh_for valid s fd this p"
  shows "fd \<noteq> ac_sock (sv_acceptor s)" "sv_conns s i = Some c \<Longrightarrow> tc_fd c \<noteq> fd"
proof -
  show "fd \<noteq> ac_sock (sv_acceptor s)" using assms by (auto simp: sv_inv_def accept_ok_def fresh_for_def)
  assume "sv_conns s i = Some c"
  then obtain ch where "heap (sv_poller s) (tc_chan c) = Some ch" "ch_fd ch = tc_fd c"
    by (rule member_chan [OF sv_member [OF assms(1)]])
  with assms(2) show "tc_fd c \<noteq> fd" by (auto simp: fresh_for_def)
qed

lemma fresh_channels:
  assumes "sv_inv valid s" and "fresh_for valid s fd this p"
  shows "channels (sv_poller s) fd = None"
  using assms(2) sv_inv_poller [OF assms(1)]
  by (cases "channels (sv_poller s) fd") (auto simp: poller_inv_def registered_def fresh_for_def)

lemma new_connection_E:
  assumes "sv_inv valid s" and "fresh_for valid s fd this p"
  obtains t c where "new_connection valid greeted g this p fd s = Inr t" "sv_inv valid t"
    "sv_conns t = (sv_conns s)(this \<mapsto> c)" "tc_chan c = p" "tc_fd c = fd" "sv_acceptor t = sv_acceptor s"
    "mb_contents (write_buffer c) = []" "mb_contents (read_buffer c) = []" "tc_state c = g" "conn_ok valid c"
    "sv_poller t = put_channel p ((conn_channel this fd)\<lparr>events := kReadEvent, index := kAdded\<rparr>) (sv_poller s)"
    "wire t = (wire s)(fd := wire s fd @ (case greeted of Some n \<Rightarrow> take n greeting | None \<Rightarrow> []))"
    "asked_of t = (asked_of s)(fd := asked_of s fd @ [(ByServer, case greeted of Some n \<Rightarrow> take n greeting | None \<Rightarrow> [])])"
    "sv_recv t = sv_recv s" "heard t = heard s" "consumed t = consumed s"
proof -
  have fr: "valid fd" "fd \<noteq> ac_sock (sv_acceptor s)" "sv_conns s this = None" "heap (sv_poller s) p = None"
    using assms(2) fresh_fds(1) [OF assms] by (simp_all add: fresh_for_def)
  note fd = fresh_fds(2) [OF assms]
  note z = fresh_channels [OF assms]
  let ?ch = "(conn_channel this fd)\<lparr>events := kReadEvent, index := kAdded\<rparr>"
  let ?p = "put_channel p ?ch (sv_poller s)"
  have chs: "ch_fd ?ch = fd" "tie ?ch = None" "error_callback ?ch = None" "read_callback ?ch = Some (ReadCb this)"
    "write_callback ?ch = Some (WriteCb this)"
    by (simp_all add: set_read_callback_def set_write_callback_def channel_new_def)
  obtain c where c: "tc_new True valid g this p fd (sv_poller s) = Inr c" "conn_ok valid c"
    "mb_contents (write_buffer c) = []" "mb_contents (read_buffer c) = []"
    "tc_this c = this" "tc_chan c = p" "tc_fd c = fd" "tc_state c = g" "\<not> conn_set c" "\<not> close_set c" "tc_poller c = ?p"
    by (rule tc_new_ok [where valid = valid and s = "sv_poller s" and p = p and fd = fd and g = g and this = this])
      (use sv_inv_poller [OF assms(1)] fr(4) z fr(1) in simp_all)
  let ?c = "c\<lparr>recv_set := True\<rparr>"
  let ?w = "(wire s)(fd := wire s fd @ (case greeted of Some n \<Rightarrow> take n greeting | None \<Rightarrow> []))"
  let ?m = "(asked_of s)(fd := asked_of s fd @ [(ByServer, case greeted of Some n \<Rightarrow> take n greeting | None \<Rightarrow> [])])"
  let ?t = "s\<lparr>sv_poller := ?p, sv_conns := (sv_conns s)(this \<mapsto> ?c), wire := ?w, asked_of := ?m\<rparr>"
  have k: "conn_ok valid ?c"
    using c(2) by (simp add: conn_ok_def tc_inv_def tc_chan_ok_def tc_writing_def tc_channel_def)
  then have i: "poller_inv ?p" using c(11) by (simp add: conn_ok_def tc_inv_def tc_chan_ok_def chan_ok_def)
  have a: "ac_chan (sv_acceptor s) \<noteq> p" using assms(1) fr(4) by (auto simp: sv_inv_def accept_ok_def)
  have "sv_inv valid ?t"
  proof (rule sv_inv_put [OF assms(1), of _ ?c])
    show "others_same (tc_chan ?c) (tc_fd ?c) (sv_poller s) (sv_poller ?t)"
      using put_channel_others [of p ?ch] chs(1) c(6,7) by simp
    show "member_ok valid ?t this ?c"
      using k c a fr(2) chs by (simp add: member_ok_def put_channel_def index_states)
    show "tc_chan b \<noteq> tc_chan ?c \<and> tc_fd b \<noteq> tc_fd ?c" if "sv_conns s i = Some b" for i b
      using sv_member [OF assms(1) that] fr(4) fd [OF that] c(6,7) by (auto simp: member_ok_def)
  qed (use i fr(3) in simp_all)
  with that [of ?t ?c] c k show ?thesis by (simp add: new_connection_def Let_def)
qed

section \<open>The loop's own channels\<close>

text \<open>The server's objects leave the channels of timer queue and loop as they are.\<close>

definition own_same :: "tcp_server \<Rightarrow> tcp_server \<Rightarrow> bool" where
  "own_same s t \<longleftrightarrow> (\<forall>p ch. loop_owned ch \<longrightarrow> (heap (sv_poller t) p = Some ch \<longleftrightarrow> heap (sv_poller s) p = Some ch))"

lemma own_same_refl [simp]: "own_same s s" by (simp add: own_same_def)

lemma own_same_trans: "own_same s t \<Longrightarrow> own_same t u \<Longrightarrow> own_same s u"
  by (simp add: own_same_def)

lemma own_same_others:
  assumes "others_same p fd (sv_poller s) (sv_poller t)"
    and "\<And>ch. heap (sv_poller s) p = Some ch \<Longrightarrow> \<not> loop_owned ch"
    and "\<And>ch. heap (sv_poller t) p = Some ch \<Longrightarrow> \<not> loop_owned ch"
  shows "own_same s t"
  unfolding own_same_def
proof (intro allI impI)
  fix q ch
  assume "loop_owned ch"
  with assms show "heap (sv_poller t) q = Some ch \<longleftrightarrow> heap (sv_poller s) q = Some ch"
    by (cases "q = p") (auto simp: others_same_def)
qed

lemma member_not_owned:
  assumes "member_ok valid s this c" and "heap (sv_poller s) (tc_chan c) = Some ch"
  shows "\<not> loop_owned ch"
  using assms by (auto simp: member_ok_def loop_owned_def)

lemma conn_out_own:
  assumes "sv_inv valid s" and "sv_conns s this = Some c" and "conn_next valid (conn_in s c) d"
  shows "own_same s (conn_out this out msgs got took d s)"
proof -
  let ?t = "conn_out this out msgs got took d s"
  have d: "tc_chan d = tc_chan c" and f: "chan_frame (tc_chan c) (sv_poller s) (tc_poller d)"
    using assms(3) by (simp_all add: conn_next_def)
  obtain ch where ch: "heap (sv_poller s) (tc_chan c) = Some ch" by (rule member_chan [OF sv_member [OF assms(1,2)]])
  have o: "others_same (tc_chan c) (ch_fd ch) (sv_poller s) (sv_poller ?t)"
    using chan_frame_others [OF f ch] by (simp add: conn_out_def)
  have "\<not> loop_owned b" if "heap (sv_poller s) (tc_chan c) = Some b" for b
    by (rule member_not_owned [OF sv_member [OF assms(1,2)] that])
  have t: "member_ok valid ?t this d"
    by (rule sv_member [OF conn_out_inv [OF assms]]) (simp add: conn_out_def)
  have "\<not> loop_owned b" if "heap (sv_poller ?t) (tc_chan c) = Some b" for b
    by (rule member_not_owned [OF t]) (use that d in simp)
  with o show ?thesis using own_same_others \<open>\<And>b. heap (sv_poller s) (tc_chan c) = Some b \<Longrightarrow> \<not> loop_owned b\<close> by blast
qed

lemma new_connection_own:
  assumes "heap (sv_poller s) p = None" and "sv_poller t = put_channel p ch (sv_poller s)" and "\<not> loop_owned ch"
  shows "own_same s t"
  by (rule own_same_others [of p "ch_fd ch"]) (use assms put_channel_others [of p ch "sv_poller s"] in \<open>auto simp: put_channel_def\<close>)

section \<open>The streams\<close>

text \<open>
  For every connection, the bytes the kernel took followed by the bytes pending are the
  messages it was asked to send. A descriptor that has no connection has no stream.
\<close>

definition asked_bytes :: "tcp_server \<Rightarrow> int \<Rightarrow> byte list" where
  "asked_bytes s fd = concat (map snd (asked_of s fd))"

definition has_conn :: "tcp_server \<Rightarrow> int \<Rightarrow> bool" where
  "has_conn s fd \<longleftrightarrow> (\<exists>this c. sv_conns s this = Some c \<and> tc_fd c = fd)"

lemma has_conn_upd:
  "sv_conns t = (sv_conns s)(this \<mapsto> d) \<Longrightarrow> (\<And>c. sv_conns s this = Some c \<Longrightarrow> tc_fd c = tc_fd d) \<Longrightarrow>
   has_conn t fd \<longleftrightarrow> fd = tc_fd d \<or> has_conn s fd"
  by (auto simp: has_conn_def) (metis (full_types))

definition stream_ok :: "tcp_server \<Rightarrow> bool" where
  "stream_ok s \<longleftrightarrow>
     (\<forall>this c. sv_conns s this = Some c \<longrightarrow> wire s (tc_fd c) @ mb_contents (write_buffer c) = asked_bytes s (tc_fd c)) \<and>
     (\<forall>fd. \<not> has_conn s fd \<longrightarrow> wire s fd = [] \<and> asked_of s fd = [])"

text \<open>
  And the bytes its callbacks took followed by those in the read buffer are the bytes \<open>readv\<close>
  stored for it.
\<close>

definition input_ok :: "tcp_server \<Rightarrow> bool" where
  "input_ok s \<longleftrightarrow>
     (\<forall>this c. sv_conns s this = Some c \<longrightarrow> consumed s (tc_fd c) @ mb_contents (read_buffer c) = heard s (tc_fd c)) \<and>
     (\<forall>fd. \<not> has_conn s fd \<longrightarrow> heard s fd = [] \<and> consumed s fd = [])"

text \<open>The messages that came through the loop's queue, and a turn in which no \<open>write\<close> fails.\<close>

definition queue_msgs :: "tcp_server \<Rightarrow> int \<Rightarrow> byte list list" where
  "queue_msgs s fd = map snd (filter (\<lambda>m. fst m = ByQueue) (asked_of s fd))"

definition no_write_fails :: "turn \<Rightarrow> bool" where
  "no_write_fails env \<longleftrightarrow> (\<forall>this. write_result env this \<noteq> None)"

lemma conn_out_stream:
  assumes "sv_inv valid s" and "sv_conns s this = Some c" and "tc_fd d = tc_fd c" and "stream_ok s"
    and "out @ mb_contents (write_buffer d) = mb_contents (write_buffer c) @ concat (map snd msgs)"
  shows "stream_ok (conn_out this out msgs got took d s)"
proof -
  have o: "tc_fd b \<noteq> tc_fd c" if "sv_conns s i = Some b" "i \<noteq> this" for i b
    using distinct_connsD [of "sv_conns s", OF _ that(1) assms(2) that(2)] assms(1) by (simp add: sv_inv_def)
  have w: "wire s (tc_fd c) @ mb_contents (write_buffer c) = asked_bytes s (tc_fd c)"
    using assms(2,4) by (simp add: stream_ok_def)
  have "wire s (tc_fd c) @ out @ mb_contents (write_buffer d) = asked_bytes s (tc_fd c) @ concat (map snd msgs)"
    by (simp only: assms(5) w [symmetric] append_assoc)
  moreover have "has_conn (conn_out this out msgs got took d s) fd \<longleftrightarrow> fd = tc_fd d \<or> has_conn s fd" for fd
    by (rule has_conn_upd) (use assms(2,3) in \<open>auto simp: conn_out_def\<close>)
  ultimately show ?thesis using o assms(2-4)
    by (auto simp: stream_ok_def conn_out_def asked_bytes_def)
qed

lemma conn_out_input:
  assumes "sv_inv valid s" and "sv_conns s this = Some c" and "tc_fd d = tc_fd c" and "input_ok s"
    and "took @ mb_contents (read_buffer d) = mb_contents (read_buffer c) @ got"
  shows "input_ok (conn_out this out msgs got took d s)"
proof -
  have o: "tc_fd b \<noteq> tc_fd c" if "sv_conns s i = Some b" "i \<noteq> this" for i b
    using distinct_connsD [of "sv_conns s", OF _ that(1) assms(2) that(2)] assms(1) by (simp add: sv_inv_def)
  have h: "consumed s (tc_fd c) @ mb_contents (read_buffer c) = heard s (tc_fd c)"
    using assms(2,4) by (simp add: input_ok_def)
  have "consumed s (tc_fd c) @ took @ mb_contents (read_buffer d) = heard s (tc_fd c) @ got"
    by (simp only: assms(5) h [symmetric] append_assoc)
  moreover have "has_conn (conn_out this out msgs got took d s) fd \<longleftrightarrow> fd = tc_fd d \<or> has_conn s fd" for fd
    by (rule has_conn_upd) (use assms(2,3) in \<open>auto simp: conn_out_def\<close>)
  ultimately show ?thesis using o assms(2-4)
    by (auto simp: input_ok_def conn_out_def)
qed

lemma conn_out_queue_msgs:
  "queue_msgs (conn_out this out msgs got took d s) fd =
     queue_msgs s fd @ (if fd = tc_fd d then map snd (filter (\<lambda>m. fst m = ByQueue) msgs) else [])"
  by (simp add: queue_msgs_def conn_out_def)

lemma new_connection_stream:
  assumes "sv_inv valid s" and "fresh_for valid s fd this p" and "stream_ok s"
    and "sv_conns t = (sv_conns s)(this \<mapsto> c)" "tc_fd c = fd" "mb_contents (write_buffer c) = []"
    and "wire t = (wire s)(fd := wire s fd @ out)" "asked_of t = (asked_of s)(fd := asked_of s fd @ [(ByServer, out)])"
  shows "stream_ok t"
proof -
  have "sv_conns s this = None" using assms(2) by (simp add: fresh_for_def)
  then have "has_conn t f \<longleftrightarrow> f = fd \<or> has_conn s f" for f
    using has_conn_upd [OF assms(4)] assms(5) by simp
  moreover have "\<not> has_conn s fd" using fresh_fds(2) [OF assms(1,2)] by (auto simp: has_conn_def)
  ultimately show "stream_ok t"
    using assms(3-) fresh_fds(2) [OF assms(1,2)] by (auto simp: stream_ok_def asked_bytes_def)
qed

lemma new_connection_input:
  assumes "sv_inv valid s" and "fresh_for valid s fd this p" and "input_ok s"
    and "sv_conns t = (sv_conns s)(this \<mapsto> c)" "tc_fd c = fd" "mb_contents (read_buffer c) = []"
    and "heard t = heard s" "consumed t = consumed s"
  shows "input_ok t"
proof -
  have "sv_conns s this = None" using assms(2) by (simp add: fresh_for_def)
  then have "has_conn t f \<longleftrightarrow> f = fd \<or> has_conn s f" for f
    using has_conn_upd [OF assms(4)] assms(5) by simp
  moreover have "\<not> has_conn s fd" using fresh_fds(2) [OF assms(1,2)] by (auto simp: has_conn_def)
  ultimately show "input_ok t"
    using assms(3-) fresh_fds(2) [OF assms(1,2)] by (auto simp: input_ok_def)
qed

lemma input_same [simp]:
  "input_ok (s\<lparr>sv_poller := p\<rparr>) = input_ok s" "input_ok (s\<lparr>sv_recv := b\<rparr>) = input_ok s"
  by (simp_all add: input_ok_def has_conn_def)

lemma new_connection_queue_msgs:
  "asked_of t = (asked_of s)(fd := asked_of s fd @ [(ByServer, out)]) \<Longrightarrow> queue_msgs t f = queue_msgs s f"
  by (simp add: queue_msgs_def)

section \<open>One turn does not fault\<close>

text \<open>What the system calls of a turn may return for the channel at \<open>q\<close>.\<close>

definition turn_at :: "(int \<Rightarrow> bool) \<Rightarrow> turn \<Rightarrow> nat \<Rightarrow> tcp_server \<Rightarrow> bool" where
  "turn_at valid env q s \<longleftrightarrow>
     (q = ac_chan (sv_acceptor s) \<and> 0 \<le> fst (accept_result env) \<longrightarrow>
        fresh_for valid s (fst (accept_result env)) (new_this env) (new_chan env)) \<and>
     (\<forall>this c. sv_conns s this = Some c \<and> tc_chan c = q \<longrightarrow>
        read_fits (readv_result env this) c \<and> 2 * length (mb_contents (write_buffer c)) \<le> room)"

text \<open>
  What handling one channel keeps: the channels are still there, the others with what their calls
  may return, no connection is lost or moved, and no received byte.
\<close>

definition keeps :: "(int \<Rightarrow> bool) \<Rightarrow> turn \<Rightarrow> nat \<Rightarrow> tcp_server \<Rightarrow> tcp_server \<Rightarrow> bool" where
  "keeps valid env q s t \<longleftrightarrow>
     (\<forall>r. heap (sv_poller s) r \<noteq> None \<longrightarrow>
        heap (sv_poller t) r \<noteq> None \<and> (r \<noteq> q \<and> turn_at valid env r s \<longrightarrow> turn_at valid env r t))"

definition grows :: "tcp_server \<Rightarrow> tcp_server \<Rightarrow> bool" where
  "grows s t \<longleftrightarrow> (\<forall>i c. sv_conns s i = Some c \<longrightarrow>
     (\<exists>d. sv_conns t i = Some d \<and> tc_fd d = tc_fd c \<and> tc_chan d = tc_chan c)) \<and> (input_ok s \<longrightarrow> input_ok t)"

lemma grows_refl [simp]: "grows s s" by (simp add: grows_def)

lemma grows_trans: "grows s t \<Longrightarrow> grows t u \<Longrightarrow> grows s u"
  unfolding grows_def by metis

lemma keeps_refl [simp]: "keeps valid env q s s" by (simp add: keeps_def)

lemma keeps_trans: "keeps valid env q s t \<Longrightarrow> keeps valid env q t u \<Longrightarrow> keeps valid env q s u"
  unfolding keeps_def by metis

lemma conn_out_conns [simp]: "sv_conns (conn_out this out msgs got took d s) this = Some d"
  by (simp add: conn_out_def)

lemma conn_out_keeps:
  assumes "sv_inv valid s" and "sv_conns s this = Some c" and "conn_next valid (conn_in s c) d"
  shows "keeps valid env (tc_chan c) s (conn_out this out msgs got took d s)"
    "took @ mb_contents (read_buffer d) = mb_contents (read_buffer c) @ got \<Longrightarrow> grows s (conn_out this out msgs got took d s)"
proof -
  let ?t = "conn_out this out msgs got took d s"
  have d: "tc_chan d = tc_chan c" "tc_fd d = tc_fd c" "chan_frame (tc_chan c) (sv_poller s) (tc_poller d)"
    using assms(3) by (simp_all add: conn_next_def)
  have t: "sv_poller ?t = tc_poller d" "sv_acceptor ?t = sv_acceptor s" "sv_conns ?t = (sv_conns s)(this \<mapsto> d)"
    by (simp_all add: conn_out_def)
  obtain ch where "heap (sv_poller s) (tc_chan c) = Some ch" by (rule member_chan [OF sv_member [OF assms(1,2)]])
  then have h: "heap (tc_poller d) r = None \<longleftrightarrow> heap (sv_poller s) r = None" for r
    using d(3) by (cases "r = tc_chan c") (auto simp: chan_frame_def)
  have f: "fresh_for valid ?t fd i p" if "fresh_for valid s fd i p" for fd i p
  proof -
    have "ch_fd ch \<noteq> fd" if r: "heap (tc_poller d) r = Some ch" for r ch
    proof -
      obtain ch' where "heap (sv_poller s) r = Some ch'" "ch_fd ch' = ch_fd ch"
        using r h [of r] d(3) by (cases "r = tc_chan c"; cases "heap (sv_poller s) r") (auto simp: chan_frame_def)
      with \<open>fresh_for valid s fd i p\<close> show ?thesis by (auto simp: fresh_for_def)
    qed
    with that h assms(2) show ?thesis by (auto simp: fresh_for_def t)
  qed
  show "keeps valid env (tc_chan c) s ?t"
    using f d(1) h by (auto simp: keeps_def turn_at_def t)
  show "grows s ?t" if "took @ mb_contents (read_buffer d) = mb_contents (read_buffer c) @ got"
    using d assms(2) conn_out_input [OF assms(1,2) d(2) _ that] by (auto simp: grows_def t)
qed

lemma new_connection_keeps:
  assumes "sv_inv valid s" and "fresh_for valid s fd this p"
    and "sv_conns t = (sv_conns s)(this \<mapsto> c)" "tc_chan c = p" "sv_acceptor t = sv_acceptor s"
    and "sv_poller t = put_channel p ch (sv_poller s)"
    and "tc_fd c = fd" "mb_contents (read_buffer c) = []" "heard t = heard s" "consumed t = consumed s"
  shows "keeps valid env (ac_chan (sv_acceptor s)) s t" "grows s t"
  using assms(2-6) new_connection_input [OF assms(1,2) _ assms(3,7-10)]
  by (auto simp: keeps_def grows_def turn_at_def fresh_for_def put_channel_def)

lemma server_user_bounded: "user_bounded user \<Longrightarrow> user_bounded (server_user user s)"
  by (auto simp: user_bounded_def server_user_def)

lemma read_call:
  assumes "sv_inv valid s" and "sv_conns s this = Some c" and "user_bounded user"
    and "read_fits (readv_result env this) c" and "2 * length (mb_contents (write_buffer c)) \<le> room"
  obtains d msgs got took where
    "io_call valid user env (ReadCb this) s = Inr (conn_out this [] (map (Pair ByCallback) msgs) got took d s)"
    "conn_next valid (conn_in s c) d"
    "mb_contents (write_buffer d) = mb_contents (write_buffer c) @ concat msgs"
    "took @ mb_contents (read_buffer d) = mb_contents (read_buffer c) @ got"
proof -
  have k: "conn_ok valid (conn_in s c)" using sv_member [OF assms(1,2)] by (simp add: member_ok_def)
  have f: "read_fits (readv_result env this) (conn_in s c)" using assms(4) by (simp add: read_fits_def split: sum.splits)
  obtain d evs where d: "tc_read_callback True valid (server_user user s) (readv_result env this) (conn_in s c) = Inr (d, evs)"
    "conn_next valid (conn_in s c) d" "mb_contents (write_buffer d) = mb_contents (write_buffer c) @ concat (called_msgs evs)"
    using read_callback_ok [OF k server_user_bounded [OF assms(3), of s] _ f] assms(5) by auto
  let ?all = "mb_contents (read_buffer c) @ stored (readv_result env this)"
  have "io_call valid user env (ReadCb this) s = Inr (conn_out this [] (map (Pair ByCallback) (called_msgs evs))
      (stored (readv_result env this)) (take (called_takes evs) ?all) d s)"
    using assms(2) d(1) by (simp add: io_call_def)
  moreover have "take (called_takes evs) ?all @ mb_contents (read_buffer d) = ?all"
    using read_callback_read [OF k f d(1)] by (simp del: take_append drop_append)
  ultimately show ?thesis using d(2,3) that by blast
qed

lemma write_call:
  assumes "sv_inv valid s" and "sv_conns s this = Some c"
  obtains d out where "io_call valid user env (WriteCb this) s = Inr (conn_out this out [] [] [] d s)" "conn_next valid (conn_in s c) d"
    "read_buffer d = read_buffer c"
    "write_result env this \<noteq> None \<longrightarrow> out @ mb_contents (write_buffer d) = mb_contents (write_buffer c)"
proof -
  have k: "conn_ok valid (conn_in s c)" using sv_member [OF assms] by (simp add: member_ok_def)
  obtain d out where d: "tc_write_callback True valid (write_result env this) (conn_in s c) = Inr (d, out)"
    "conn_next valid (conn_in s c) d"
    "write_result env this \<noteq> None \<longrightarrow> out @ mb_contents (write_buffer d) = mb_contents (write_buffer c)"
    using write_callback_ok [OF k, of "write_result env this"] by auto
  with assms(2) write_callback_read [OF d(1)] that show ?thesis by (simp add: io_call_def)
qed

text \<open>The dispatch of a channel without tie and error callback.\<close>

lemma handle_plain:
  assumes "heap (sv_poller s) q = Some ch" and "tie ch = None" and "error_callback ch = None"
  shows "handle_channel valid user env q s =
    bind_res (if revents ch AND (POLLIN OR POLLPRI OR POLLRDHUP) \<noteq> 0
              then run_cb (io_call valid user env) (read_callback ch) s else Inr s) (\<lambda>t.
    if revents (the (heap (sv_poller t) q)) AND POLLOUT \<noteq> 0
    then run_cb (io_call valid user env) (write_callback (the (heap (sv_poller t) q))) t else Inr t)"
  using assms by (simp add: handle_channel_def handle_event_def handle_event_safely_def run_cb_def)

definition good_next :: "(int \<Rightarrow> bool) \<Rightarrow> turn \<Rightarrow> nat \<Rightarrow> tcp_server \<Rightarrow> tcp_server \<Rightarrow> bool" where
  "good_next valid env q s t \<longleftrightarrow> sv_inv valid t \<and> keeps valid env q s t \<and> grows s t \<and>
     (no_write_fails env \<and> stream_ok s \<longrightarrow> stream_ok t) \<and> (\<forall>fd. queue_msgs t fd = queue_msgs s fd) \<and> own_same s t"

text \<open>What any step of the loop's thread keeps.\<close>

definition steady :: "(int \<Rightarrow> bool) \<Rightarrow> tcp_server \<Rightarrow> tcp_server \<Rightarrow> bool" where
  "steady valid s t \<longleftrightarrow> sv_inv valid t \<and> grows s t \<and> own_same s t \<and>
     (\<forall>q. heap (sv_poller s) q \<noteq> None \<longrightarrow> heap (sv_poller t) q \<noteq> None)"

lemma good_next_steady: "good_next valid env q s t \<Longrightarrow> steady valid s t"
  by (simp add: good_next_def steady_def keeps_def)

lemma conn_out_steady:
  assumes "sv_inv valid s" and "sv_conns s this = Some c" and "conn_next valid (conn_in s c) d"
    and "took @ mb_contents (read_buffer d) = mb_contents (read_buffer c) @ got"
  shows "steady valid s (conn_out this out msgs got took d s)"
  using conn_out_inv [OF assms(1-3)] conn_out_keeps [OF assms(1-3)] conn_out_own [OF assms(1-3)] assms(4)
  by (simp add: steady_def keeps_def)

lemma good_next_refl: "sv_inv valid s \<Longrightarrow> good_next valid env q s s"
  by (simp add: good_next_def)

lemma conn_out_good:
  assumes "sv_inv valid s" and "sv_conns s this = Some c" and "conn_next valid (conn_in s c) d"
    and "no_write_fails env \<Longrightarrow> out @ mb_contents (write_buffer d) = mb_contents (write_buffer c) @ concat (map snd msgs)"
    and "\<forall>m \<in> set msgs. fst m \<noteq> ByQueue"
    and "took @ mb_contents (read_buffer d) = mb_contents (read_buffer c) @ got"
  shows "good_next valid env (tc_chan c) s (conn_out this out msgs got took d s)"
proof -
  have "tc_fd d = tc_fd c" using assms(3) by (simp add: conn_next_def)
  moreover have "filter (\<lambda>m. fst m = ByQueue) msgs = []" using assms(5) by (simp add: filter_empty_conv)
  ultimately show ?thesis
    using conn_out_inv [OF assms(1-3)] conn_out_keeps [OF assms(1-3)] conn_out_own [OF assms(1-3)]
      conn_out_stream [OF assms(1,2) _ _ assms(4)] assms(6)
    by (simp add: good_next_def conn_out_queue_msgs)
qed

lemma good_next_trans: "good_next valid env q s t \<Longrightarrow> good_next valid env q t u \<Longrightarrow> good_next valid env q s u"
  unfolding good_next_def using keeps_trans grows_trans own_same_trans by (metis (no_types, lifting))

text \<open>The two stages: what the read callback does, and then the write callback.\<close>

definition read_stage :: "(int \<Rightarrow> bool) \<Rightarrow> user \<Rightarrow> turn \<Rightarrow> nat \<Rightarrow> tcp_server \<Rightarrow> tcp_server res" where
  "read_stage valid user env q s =
     (let ch = the (heap (sv_poller s) q) in
      if revents ch AND (POLLIN OR POLLPRI OR POLLRDHUP) \<noteq> 0 then run_cb (io_call valid user env) (read_callback ch) s
      else Inr s)"

definition write_stage :: "(int \<Rightarrow> bool) \<Rightarrow> user \<Rightarrow> turn \<Rightarrow> nat \<Rightarrow> tcp_server \<Rightarrow> tcp_server res" where
  "write_stage valid user env q s =
     (let ch = the (heap (sv_poller s) q) in
      if revents ch AND POLLOUT \<noteq> 0 then run_cb (io_call valid user env) (write_callback ch) s else Inr s)"

lemma sv_channel_callbacks:
  assumes "sv_inv valid s" and "heap (sv_poller s) q = Some ch"
  shows "tie ch = None" "error_callback ch = None" "write_callback ch \<notin> {Some TimerCb, Some WakeCb, Some AcceptCb}"
    "\<not> loop_owned ch \<Longrightarrow> read_callback ch \<notin> {Some TimerCb, Some WakeCb}"
proof -
  have "tie ch = None \<and> error_callback ch = None \<and> write_callback ch \<notin> {Some TimerCb, Some WakeCb, Some AcceptCb} \<and>
      (\<not> loop_owned ch \<longrightarrow> read_callback ch \<notin> {Some TimerCb, Some WakeCb})"
    using assms
  proof (cases rule: sv_channel_cases)
    case (2 this c)
    from member_chan [OF sv_member [OF assms(1) 2(1)]] obtain b where "heap (sv_poller s) (tc_chan c) = Some b"
      "tie b = None" "error_callback b = None" "read_callback b = Some (ReadCb this)" "write_callback b = Some (WriteCb this)"
      by blast
    with 2(2) assms(2) show ?thesis by simp
  next
    case 1
    from sv_accept [OF assms(1)] obtain b where "heap (sv_poller s) (ac_chan (sv_acceptor s)) = Some b"
      "tie b = None" "error_callback b = None" "read_callback b = Some AcceptCb" "write_callback b = None"
      by (auto simp: accept_ok_def)
    with 1 assms(2) show ?thesis by simp
  qed (simp add: loop_owned_def)
  then show "tie ch = None" "error_callback ch = None" "write_callback ch \<notin> {Some TimerCb, Some WakeCb, Some AcceptCb}"
    "\<not> loop_owned ch \<Longrightarrow> read_callback ch \<notin> {Some TimerCb, Some WakeCb}" by simp_all
qed

lemma handle_stages:
  assumes "sv_inv valid s" and "heap (sv_poller s) q \<noteq> None"
  shows "handle_channel valid user env q s = bind_res (read_stage valid user env q s) (write_stage valid user env q)"
proof -
  obtain ch where ch: "heap (sv_poller s) q = Some ch" using assms(2) by auto
  with handle_plain [OF ch sv_channel_callbacks(1,2) [OF assms(1) ch]] show ?thesis
    by (simp add: read_stage_def write_stage_def [abs_def] Let_def)
qed

lemma read_stage_conn:
  assumes "sv_inv valid s" and "sv_conns s this = Some c" and "user_bounded user"
    and "turn_at valid env (tc_chan c) s"
  shows "\<exists>t. read_stage valid user env (tc_chan c) s = Inr t \<and> good_next valid env (tc_chan c) s t"
proof -
  obtain ch where ch: "heap (sv_poller s) (tc_chan c) = Some ch" "read_callback ch = Some (ReadCb this)"
    by (rule member_chan [OF sv_member [OF assms(1,2)]])
  have "read_fits (readv_result env this) c" "2 * length (mb_contents (write_buffer c)) \<le> room"
    using assms(2,4) by (auto simp: turn_at_def)
  then obtain d msgs got took where
    d: "io_call valid user env (ReadCb this) s = Inr (conn_out this [] (map (Pair ByCallback) msgs) got took d s)"
    "conn_next valid (conn_in s c) d" "mb_contents (write_buffer d) = mb_contents (write_buffer c) @ concat msgs"
    "took @ mb_contents (read_buffer d) = mb_contents (read_buffer c) @ got"
    by (rule read_call [OF assms(1-3)])
  then have "good_next valid env (tc_chan c) s (conn_out this [] (map (Pair ByCallback) msgs) got took d s)"
    by (intro conn_out_good [OF assms(1,2) d(2)]) (auto simp: comp_def)
  with d(1) ch good_next_refl [OF assms(1)] show ?thesis by (simp add: read_stage_def run_cb_def)
qed

lemma read_stage_acceptor:
  assumes "sv_inv valid s" and "turn_at valid env (ac_chan (sv_acceptor s)) s"
  shows "\<exists>t. read_stage valid user env (ac_chan (sv_acceptor s)) s = Inr t \<and> good_next valid env (ac_chan (sv_acceptor s)) s t"
proof -
  obtain ch where ch: "heap (sv_poller s) (ac_chan (sv_acceptor s)) = Some ch" "read_callback ch = Some AcceptCb"
    and cb: "ac_callback (sv_acceptor s)"
    using sv_accept [OF assms(1)] by (auto simp: accept_ok_def)
  let ?fd = "fst (accept_result env)" and ?p = "new_chan env"
  show ?thesis
  proof (cases "0 \<le> ?fd")
    case True
    then have f: "fresh_for valid s ?fd (new_this env) ?p"
      using assms(2) by (simp add: turn_at_def)
    obtain t c where t: "new_connection valid (greet_result env) (state_garbage env) (new_this env) ?p ?fd s = Inr t"
      "sv_inv valid t" "sv_conns t = (sv_conns s)(new_this env \<mapsto> c)" "tc_chan c = ?p" "sv_acceptor t = sv_acceptor s"
      "sv_poller t = put_channel ?p ((conn_channel (new_this env) ?fd)\<lparr>events := kReadEvent, index := kAdded\<rparr>) (sv_poller s)"
      "tc_fd c = ?fd" "mb_contents (write_buffer c) = []"
      "wire t = (wire s)(?fd := wire s ?fd @ (case greet_result env of Some n \<Rightarrow> take n greeting | None \<Rightarrow> []))"
      "asked_of t = (asked_of s)(?fd := asked_of s ?fd @
         [(ByServer, case greet_result env of Some n \<Rightarrow> take n greeting | None \<Rightarrow> [])])"
      "mb_contents (read_buffer c) = []" "heard t = heard s" "consumed t = consumed s"
      by (rule new_connection_E [OF assms(1) f])
    have no: "heap (sv_poller s) ?p = None" using f by (simp add: fresh_for_def)
    have "\<not> loop_owned ((conn_channel (new_this env) ?fd)\<lparr>events := kReadEvent, index := kAdded\<rparr>)"
      by (simp add: loop_owned_def set_read_callback_def set_write_callback_def)
    note st = new_connection_stream [OF assms(1) f _ t(3,7-10)] new_connection_queue_msgs [OF t(10)]
      new_connection_own [OF no t(6) this] new_connection_keeps [OF assms(1) f t(3-7,11-13)]
    with t(2) have "good_next valid env (ac_chan (sv_acceptor s)) s t" by (simp add: good_next_def)
    with t(1) ch cb True good_next_refl [OF assms(1)] show ?thesis
      by (simp add: read_stage_def run_cb_def io_call_def acceptor_read_def socket_accept_def Let_def)
  next
    case False
    with ch good_next_refl [OF assms(1)] show ?thesis
      by (simp add: read_stage_def run_cb_def io_call_def acceptor_read_def socket_accept_def Let_def)
  qed
qed

text \<open>The channels of timer queue and loop have callbacks that act on other state.\<close>

lemma read_stage_ok:
  assumes "sv_inv valid s" and "user_bounded user" and "heap (sv_poller s) q \<noteq> None" and "turn_at valid env q s"
  shows "\<exists>t. read_stage valid user env q s = Inr t \<and> good_next valid env q s t"
proof -
  obtain ch where ch: "heap (sv_poller s) q = Some ch" using assms(3) by auto
  with assms(1) show ?thesis
  proof (cases rule: sv_channel_cases)
    case 1
    with read_stage_acceptor [OF assms(1)] assms(4) show ?thesis by simp
  next
    case (2 this c)
    with read_stage_conn [OF assms(1) 2(1) assms(2)] assms(4) show ?thesis by simp
  next
    case 3
    with ch good_next_refl [OF assms(1)] show ?thesis
      by (auto simp: read_stage_def run_cb_def io_call_def loop_owned_def)
  qed
qed

lemma write_stage_ok:
  assumes "sv_inv valid s" and "heap (sv_poller s) q \<noteq> None"
  shows "\<exists>t. write_stage valid user env q s = Inr t \<and> good_next valid env q s t"
proof -
  obtain ch where ch: "heap (sv_poller s) q = Some ch" using assms(2) by auto
  with assms(1) show ?thesis
  proof (cases rule: sv_channel_cases)
    case (2 this c)
    obtain ch' where ch': "heap (sv_poller s) (tc_chan c) = Some ch'" "write_callback ch' = Some (WriteCb this)"
      by (rule member_chan [OF sv_member [OF assms(1) 2(1)]])
    obtain e out where e: "io_call valid user env (WriteCb this) s = Inr (conn_out this out [] [] [] e s)" "conn_next valid (conn_in s c) e"
      "read_buffer e = read_buffer c"
      "write_result env this \<noteq> None \<longrightarrow> out @ mb_contents (write_buffer e) = mb_contents (write_buffer c)"
      by (rule write_call [OF assms(1) 2(1)])
    have "good_next valid env (tc_chan c) s (conn_out this out [] [] [] e s)"
      by (rule conn_out_good [OF assms(1) 2(1) e(2)]) (use e(3,4) in \<open>auto simp: no_write_fails_def\<close>)
    with e(1) ch' 2(2) good_next_refl [OF assms(1)] show ?thesis by (auto simp: write_stage_def run_cb_def)
  next
    case 1
    with sv_accept [OF assms(1)] ch have "write_callback ch = None" by (auto simp: accept_ok_def)
    with ch good_next_refl [OF assms(1)] show ?thesis by (simp add: write_stage_def run_cb_def)
  next
    case 3
    with ch good_next_refl [OF assms(1)] show ?thesis by (simp add: write_stage_def run_cb_def loop_owned_def)
  qed
qed

lemma handle_any:
  assumes "sv_inv valid s" and "user_bounded user" and "heap (sv_poller s) q \<noteq> None" and "turn_at valid env q s"
  shows "\<exists>t. handle_channel valid user env q s = Inr t \<and> good_next valid env q s t"
proof -
  obtain t where t: "read_stage valid user env q s = Inr t" "good_next valid env q s t"
    using read_stage_ok [OF assms] by blast
  then have "sv_inv valid t" "heap (sv_poller t) q \<noteq> None" using assms(3) by (simp_all add: good_next_def keeps_def)
  from write_stage_ok [OF this] obtain u where "write_stage valid user env q t = Inr u" "good_next valid env q t u" by blast
  with t good_next_trans show ?thesis by (auto simp: handle_stages [OF assms(1,3)])
qed

end
