(* ===== verification/Server_Calls.thy ===== *)
theory Server_Calls
  imports Server_Inv
begin

text \<open>
  More that keeps the server's invariant: the poller's report of a turn, \<open>Start\<close>, and the
  calls users make on a connection; and the server as its constructors leave it.
\<close>

section \<open>Polling and calls\<close>

lemma revents_only_chan:
  assumes "revents_only s s'" and "heap s p = Some ch"
  obtains r where "heap s' p = Some (ch\<lparr>revents := r\<rparr>)" "chan_ok valid s p \<Longrightarrow> chan_ok valid s' p"
proof -
  obtain r where "heap s' p = Some (ch\<lparr>revents := r\<rparr>)"
    using assms by (auto simp: revents_only_def dest: spec [of _ p])
  with that assms show ?thesis by (auto simp: revents_only_def chan_ok_def)
qed

lemma sv_inv_revents:
  assumes "sv_inv valid s" and "revents_only (sv_poller s) p'" and "0 < event_list_size p'"
  shows "sv_inv valid (s\<lparr>sv_poller := p'\<rparr>)" "heap p' q = None \<longleftrightarrow> heap (sv_poller s) q = None"
proof -
  have h: "heap p' q = None \<longleftrightarrow> heap (sv_poller s) q = None" for q
    using assms(2) by (auto simp: revents_only_def dest: spec [of _ q])
  then show "heap p' q = None \<longleftrightarrow> heap (sv_poller s) q = None" .
  let ?t = "s\<lparr>sv_poller := p'\<rparr>"
  have own: "p = ac_chan (sv_acceptor s) \<or> (\<exists>this c. sv_conns s this = Some c \<and> tc_chan c = p) \<or> loop_owned ch"
    if pc: "heap p' p = Some ch" for p ch
  proof -
    obtain b where b: "heap (sv_poller s) p = Some b" using h [of p] pc by (cases "heap (sv_poller s) p") auto
    then obtain r where "ch = b\<lparr>revents := r\<rparr>" by (rule revents_only_chan [OF assms(2)]) (use pc in auto)
    then have "loop_owned b \<Longrightarrow> loop_owned ch" by (simp add: loop_owned_def)
    with assms(1) b show ?thesis by (cases rule: sv_channel_cases) auto
  qed
  have "accept_ok valid (sv_acceptor s) p'"
  proof -
    have a: "accept_ok valid (sv_acceptor s) (sv_poller s)" using assms(1) by (simp add: sv_inv_def)
    then obtain ch where ch: "heap (sv_poller s) (ac_chan (sv_acceptor s)) = Some ch" by (auto simp: accept_ok_def)
    show ?thesis by (rule revents_only_chan [OF assms(2) ch, of valid]) (use a ch in \<open>auto simp: accept_ok_def\<close>)
  qed
  moreover have "member_ok valid ?t this c" if "sv_conns s this = Some c" for this c
  proof -
    have m: "member_ok valid s this c" by (rule sv_member [OF assms(1) that])
    obtain ch where ch: "heap (sv_poller s) (tc_chan c) = Some ch" "chan_ok valid (sv_poller s) (tc_chan c)"
      by (rule member_chan [OF m])
    obtain r where r: "heap p' (tc_chan c) = Some (ch\<lparr>revents := r\<rparr>)" "chan_ok valid p' (tc_chan c)"
      by (rule revents_only_chan [OF assms(2) ch(1), of valid]) (use ch(2) in simp)
    have "tc_writing (conn_in ?t c) = tc_writing (conn_in s c)"
      using r(1) ch(1) by (simp add: tc_writing_def tc_channel_def is_writing_def)
    then show ?thesis
      using m r ch assms(2) by (auto simp: member_ok_def conn_ok_def tc_inv_def tc_chan_ok_def tc_channel_def revents_only_def)
  qed
  ultimately show "sv_inv valid ?t"
    using assms(1,3) own by (auto simp: sv_inv_def)
qed

lemma fresh_revents:
  assumes "fresh_for valid s fd this p" and "\<And>q. heap p' q = None \<longleftrightarrow> heap (sv_poller s) q = None"
    and "revents_only (sv_poller s) p'"
  shows "fresh_for valid (s\<lparr>sv_poller := p'\<rparr>) fd this p"
proof -
  have "ch_fd ch \<noteq> fd" if pc: "heap p' q = Some ch" for q ch
  proof -
    obtain b where b: "heap (sv_poller s) q = Some b" using assms(2) [of q] pc by (cases "heap (sv_poller s) q") auto
    then obtain r where "ch = b\<lparr>revents := r\<rparr>" by (rule revents_only_chan [OF assms(3)]) (use pc in auto)
    with b assms(1) show ?thesis by (auto simp: fresh_for_def)
  qed
  with assms(1,2) show ?thesis by (simp add: fresh_for_def)
qed

lemma server_start_ok:
  assumes "sv_inv valid s"
  shows "\<exists>t. server_start valid ret s = Inr t \<and> steady valid s t \<and>
    sv_conns t = sv_conns s \<and> wire t = wire s \<and> asked_of t = asked_of s"
proof -
  let ?a = "sv_acceptor s" and ?p = "sv_poller s"
  have a: "accept_ok valid ?a ?p" using assms(1) by (simp add: sv_inv_def)
  then obtain ch where ch: "heap ?p (ac_chan ?a) = Some ch" "ch_fd ch = ac_sock ?a" "chan_ok valid ?p (ac_chan ?a)"
    by (auto simp: accept_ok_def)
  obtain p' where p': "chan_apply True valid EnableReading (ac_chan ?a) ?p = Inr p'" "chan_ok valid p' (ac_chan ?a)"
    "chan_frame (ac_chan ?a) ?p p'"
    by (rule chan_apply_chan_ok [OF ch(3,1), of EnableReading])
  have o: "others_same (ac_chan ?a) (ac_sock ?a) ?p p'" using chan_frame_others [OF p'(3) ch(1)] ch(2) by simp
  have i: "poller_inv p'" using p'(2) by (simp add: chan_ok_def)
  let ?t = "s\<lparr>sv_poller := p'\<rparr>"
  have "accept_ok valid ?a p'" using a p' ch by (auto simp: accept_ok_def chan_frame_def)
  moreover have "member_ok valid ?t this c" if "sv_conns s this = Some c" for this c
    by (rule member_others [OF sv_member [OF assms(1) that] i o])
      (use sv_member [OF assms(1) that] in \<open>simp_all add: member_ok_def\<close>)
  moreover have "q = ac_chan ?a \<or> (\<exists>i c. sv_conns s i = Some c \<and> tc_chan c = q) \<or> loop_owned b"
    if "heap p' q = Some b" for q b
  proof (cases "q = ac_chan ?a")
    case False
    with that p'(3) have "heap ?p q = Some b" by (simp add: chan_frame_def)
    with assms show ?thesis by (cases rule: sv_channel_cases) auto
  qed simp
  ultimately have v: "sv_inv valid ?t"
    using assms(1) o by (auto simp: sv_inv_def others_same_def)
  have "own_same s ?t"
    by (rule own_same_others [of "ac_chan ?a" "ac_sock ?a"]) (use o a \<open>accept_ok valid ?a p'\<close> in \<open>auto simp: accept_ok_def loop_owned_def\<close>)
  moreover have "heap p' q \<noteq> None" if "heap ?p q \<noteq> None" for q
    using that p'(3) ch(1) by (cases "q = ac_chan ?a") (auto simp: chan_frame_def)
  ultimately have "steady valid s ?t" using v by (simp add: steady_def grows_def)
  with p'(1) a show ?thesis
    by (simp add: accept_ok_def server_start_def acceptor_listen_def socket_listen_def)
qed

lemma user_call_ok:
  assumes "sv_inv valid s" and "sv_conns s this = Some c"
    and "length (mb_contents (write_buffer c)) + length (call_bytes [call]) \<le> room" and "call_takes call = 0"
  obtains d where "conn_call_do valid call (conn_in s c) = Inr d" "\<And>msgs. steady valid s (conn_out this [] msgs [] [] d s)"
    "mb_contents (write_buffer d) = mb_contents (write_buffer c) @ call_bytes [call]" "tc_fd d = tc_fd c"
proof -
  have k: "conn_ok valid (conn_in s c)" using sv_member [OF assms(1,2)] by (simp add: member_ok_def)
  obtain d where "conn_call_do valid call (conn_in s c) = Inr d" "conn_next valid (conn_in s c) d"
    "mb_contents (write_buffer d) = mb_contents (write_buffer c) @ call_bytes [call]"
    using conn_call_ok [OF k, of call] assms(3) by (auto simp: call_bytes_def)
  moreover from this(2) have "tc_fd d = tc_fd c" by (simp add: conn_next_def)
  moreover have "mb_contents (read_buffer d) = mb_contents (read_buffer c)"
    using conn_call_read [OF calculation(1)] k assms(4) by (simp add: read_drops_def conn_ok_def buf_ok_def)
  ultimately show ?thesis using that conn_out_steady [OF assms(1,2)] by simp
qed

section \<open>The start\<close>

text \<open>The descriptors of timer, eventfd and acceptor differ, and so do the addresses.\<close>

definition boot_ok :: "(int \<Rightarrow> bool) \<Rightarrow> nat \<times> int \<Rightarrow> nat \<times> int \<Rightarrow> int \<Rightarrow> nat \<Rightarrow> bool" where
  "boot_ok valid timer wake sock p \<longleftrightarrow> valid (snd timer) \<and> valid (snd wake) \<and> valid sock \<and> 0 \<le> snd wake \<and>
     distinct [snd timer, snd wake, sock] \<and> distinct [fst timer, fst wake, p]"

lemma loop_poller_fields:
  assumes "timerfd \<noteq> eventfd" and "tp \<noteq> wp"
  shows "heap (loop_poller f g (tp, timerfd) (wp, eventfd)) = [tp \<mapsto> watched_channel f timerfd, wp \<mapsto> watched_channel g eventfd]"
    "channels (loop_poller f g (tp, timerfd) (wp, eventfd)) = [timerfd \<mapsto> tp, eventfd \<mapsto> wp]"
    "event_list_size (loop_poller f g (tp, timerfd) (wp, eventfd)) = kInitEventListSize"
  using assms by (simp_all add: loop_poller_def put_channel_def poller_new_def index_states)

lemma server_boot_E:
  assumes "server_boot valid accepts timer wake sock p addr = Inr s" and "boot_ok valid timer wake sock p"
  obtains "s = \<lparr>sv_poller = (loop_poller TimerCb WakeCb timer wake)
        \<lparr>heap := (heap (loop_poller TimerCb WakeCb timer wake))(p \<mapsto> read_channel AcceptCb sock)\<rparr>,
      sv_acceptor = \<lparr>ac_sock = sock, ac_addr = addr, ac_chan = p, ac_callback = True\<rparr>, sv_conns = Map.empty,
      sv_recv = False, wire = (\<lambda>fd. []), asked_of = (\<lambda>fd. []), heard = (\<lambda>fd. []), consumed = (\<lambda>fd. [])\<rparr>"
    "sv_inv valid s" "0 < sock"
proof -
  obtain tp tfd wp efd where tw: "timer = (tp, tfd)" "wake = (wp, efd)" by (cases timer, cases wake) auto
  let ?po = "loop_poller TimerCb WakeCb timer wake"
  have b: "valid tfd" "valid efd" "0 \<le> efd" "tfd \<noteq> efd" "tp \<noteq> wp" "valid sock" "sock \<noteq> tfd" "sock \<noteq> efd" "p \<noteq> tp" "p \<noteq> wp"
    using assms(2) by (auto simp: boot_ok_def tw)
  note c = loop_ctor_ok [where valid = valid and f = TimerCb and g = WakeCb, OF b(1-5), folded tw]
  note f = loop_poller_fields [OF b(4,5), of TimerCb WakeCb, folded tw]
  from assms(1) c(1) have n: "server_new accepts sock p addr ?po = Inr s" by (simp add: server_boot_def)
  then have s: "0 < sock" "s = \<lparr>sv_poller = ?po\<lparr>heap := (heap ?po)(p \<mapsto> read_channel AcceptCb sock)\<rparr>,
      sv_acceptor = \<lparr>ac_sock = sock, ac_addr = addr, ac_chan = p, ac_callback = True\<rparr>, sv_conns = Map.empty,
      sv_recv = False, wire = (\<lambda>fd. []), asked_of = (\<lambda>fd. []), heard = (\<lambda>fd. []), consumed = (\<lambda>fd. [])\<rparr>"
    by (auto simp: server_new_def acceptor_new_def bind_res_Inr_iff create_nonblocking_socket_def bind_address_def
        check_def split: if_splits)
  have "poller_inv (?po\<lparr>heap := (heap ?po)(p \<mapsto> read_channel AcceptCb sock)\<rparr>)"
    by (rule new_channel_inv [OF c(2)]) (use b(9,10) in \<open>simp_all add: f\<close>)
  moreover have "loop_owned (watched_channel TimerCb tfd)" "loop_owned (watched_channel WakeCb efd)"
    by (simp_all add: loop_owned_def)
  ultimately have "sv_inv valid s"
    using s(1) b by (auto simp: s(2) sv_inv_def accept_ok_def chan_ok_def distinct_conns_def f kInitEventListSize_def
        set_read_callback_def channel_new_def split: if_splits)
  from that [OF s(2) this s(1)] show ?thesis .
qed

text \<open>A server on descriptor 3, listening, for the examples.\<close>

lemma demo_boot: "boot_ok (\<lambda>fd. True) (10, 4) (11, 5) 3 0"
  by (simp add: boot_ok_def)

abbreviation demo_address :: inet_address where
  "demo_address \<equiv> ia_of_port (replicate 12 0) 80 False False"

lemma demo_server:
  obtains s t where
    "server_boot (\<lambda>fd. True) (\<lambda>a. True) (10, 4) (11, 5) 3 0 demo_address = Inr s"
    "server_start (\<lambda>fd. True) 0 s = Inr t" "sv_inv (\<lambda>fd. True) t" "sv_conns t = Map.empty"
    "sv_acceptor t = \<lparr>ac_sock = 3, ac_addr = demo_address, ac_chan = 0, ac_callback = True\<rparr>"
    "sv_poller t = put_channel 0 (watched_channel AcceptCb 3) (loop_poller TimerCb WakeCb (10, 4) (11, 5))"
    "wire t = (\<lambda>fd. [])" "asked_of t = (\<lambda>fd. [])"
proof -
  let ?v = "\<lambda>fd :: int. True" and ?po = "loop_poller TimerCb WakeCb (10, 4) (11, 5)"
  note c = loop_ctor_ok [where valid = ?v and f = TimerCb and g = WakeCb and timerfd = 4 and eventfd = 5 and p = 10 and q = 11, simplified]
  have "ia_v4 demo_address [0, 0, 0, 0] 80" using ia_of_port_v4 [of "replicate 12 0" 80 False] by simp
  then have b: "bind_address (\<lambda>a. True) 3 demo_address = Inr ()"
    by (simp add: bind_address_def os_bind_def sizeof_sockaddr_def ia_v4_def ia_family_def ia_get_def window_def)
  obtain s where n: "server_boot ?v (\<lambda>a. True) (10, 4) (11, 5) 3 0 demo_address = Inr s"
    using b c(1) [of False] by (simp add: server_boot_def server_new_def acceptor_new_def create_nonblocking_socket_def)
  then have s: "s = \<lparr>sv_poller = ?po\<lparr>heap := (heap ?po)(0 \<mapsto> read_channel AcceptCb 3)\<rparr>,
      sv_acceptor = \<lparr>ac_sock = 3, ac_addr = demo_address, ac_chan = 0, ac_callback = True\<rparr>, sv_conns = Map.empty,
      sv_recv = False, wire = (\<lambda>fd. []), asked_of = (\<lambda>fd. []), heard = (\<lambda>fd. []), consumed = (\<lambda>fd. [])\<rparr>" "sv_inv ?v s"
    by (rule server_boot_E [OF _ demo_boot]; simp)+
  have "chan_apply True ?v EnableReading 0 (?po\<lparr>heap := (heap ?po)(0 \<mapsto> read_channel AcceptCb 3)\<rparr>) =
      Inr (put_channel 0 (watched_channel AcceptCb 3) ?po)"
    by (rule register_ok [OF c(2)]) (simp_all add: loop_poller_fields)
  then have t: "server_start ?v 0 s = Inr (s\<lparr>sv_poller := put_channel 0 (watched_channel AcceptCb 3) ?po\<rparr>)"
    by (simp add: s(1) server_start_def acceptor_listen_def socket_listen_def)
  moreover have "sv_inv ?v (s\<lparr>sv_poller := put_channel 0 (watched_channel AcceptCb 3) ?po\<rparr>)"
    using server_start_ok [OF s(2), of 0] t by (auto simp: steady_def)
  ultimately show ?thesis by (rule that [OF n]) (simp_all add: s(1))
qed

lemma demo_poller:
  assumes "sv_poller t = put_channel 0 (watched_channel AcceptCb 3) (loop_poller TimerCb WakeCb (10, 4) (11, 5))"
  shows "heap (sv_poller t) = [10 \<mapsto> watched_channel TimerCb 4, 11 \<mapsto> watched_channel WakeCb 5, 0 \<mapsto> watched_channel AcceptCb 3]"
    "channels (sv_poller t) = [4 \<mapsto> 10, 5 \<mapsto> 11, 3 \<mapsto> 0]"
    "interests (sv_poller t) = [4 \<mapsto> (kReadEvent, 10), 5 \<mapsto> (kReadEvent, 11), 3 \<mapsto> (kReadEvent, 0)]"
    "event_list_size (sv_poller t) = 16"
  using assms by (simp_all add: put_channel_def loop_poller_fields loop_poller_interests kInitEventListSize_def index_states)

lemma demo_fresh:
  assumes "sv_conns t = Map.empty"
    and "sv_poller t = put_channel 0 (watched_channel AcceptCb 3) (loop_poller TimerCb WakeCb (10, 4) (11, 5))"
  shows "fresh_for (\<lambda>fd. True) t 8 9 5"
  by (auto simp: fresh_for_def demo_poller [OF assms(2)] assms(1) split: if_splits)

text \<open>The turn in which that server accepts its first connection.\<close>

abbreviation demo_turn :: turn where
  "demo_turn \<equiv> \<lparr>accept_result = (8, []), greet_result = Some 4, state_garbage = Disconnected,
     new_this = 9, new_chan = 5, readv_result = (\<lambda>i. Inl 11), write_result = (\<lambda>i. Some 0)\<rparr>"

lemma demo_polled:
  assumes "sv_inv (\<lambda>fd. True) t" and "sv_conns t = Map.empty"
    and "sv_poller t = put_channel 0 (watched_channel AcceptCb 3) (loop_poller TimerCb WakeCb (10, 4) (11, 5))"
  obtains p where "poll (Some [(POLLIN, 0)]) (sv_poller t) = Inr ([0], p)" "sv_inv (\<lambda>fd. True) (t\<lparr>sv_poller := p\<rparr>)"
    "heap p 0 = Some ((watched_channel AcceptCb 3)\<lparr>revents := POLLIN\<rparr>)" "fresh_for (\<lambda>fd. True) (t\<lparr>sv_poller := p\<rparr>) 8 9 5"
proof -
  note po = demo_poller [OF assms(3)]
  let ?ch = "watched_channel AcceptCb 3"
  let ?p = "(sv_poller t)\<lparr>heap := (heap (sv_poller t))(0 \<mapsto> ?ch\<lparr>revents := POLLIN\<rparr>)\<rparr>"
  have q: "poll (Some [(POLLIN, 0)]) (sv_poller t) = Inr ([0], ?p)" by (simp add: poll_def po)
  have "\<exists>r. b = b\<lparr>revents := r\<rparr>" for b :: "io_callback channel" by (rule exI [of _ "revents b"]) simp
  then have ro: "revents_only (sv_poller t) ?p"
    using revents_inv [OF sv_inv_poller [OF assms(1)], of 0 ?ch POLLIN] by (auto simp: revents_only_def po)
  have "fresh_for (\<lambda>fd. True) (t\<lparr>sv_poller := ?p\<rparr>) 8 9 5"
    by (rule fresh_revents [OF demo_fresh [OF assms(2,3)] _ ro]) (simp add: po)
  with that [OF q] sv_inv_revents(1) [OF assms(1) ro] show ?thesis by (simp add: po)
qed

lemma demo_accept:
  obtains s t p u c where
    "server_boot (\<lambda>fd. True) (\<lambda>a. True) (10, 4) (11, 5) 3 0 demo_address = Inr s"
    "server_start (\<lambda>fd. True) 0 s = Inr t" "interests (sv_poller t) 3 = Some (kReadEvent, 0)" "event_list_size (sv_poller t) = 16"
    "poll (Some [(POLLIN, 0)]) (sv_poller t) = Inr ([0], p)" "heap p 0 = Some ((watched_channel AcceptCb 3)\<lparr>revents := POLLIN\<rparr>)"
    "sv_inv (\<lambda>fd. True) (t\<lparr>sv_poller := p\<rparr>)" "turn_at (\<lambda>fd. True) demo_turn 0 (t\<lparr>sv_poller := p\<rparr>)"
    "\<forall>user. handle_channel (\<lambda>fd. True) user demo_turn 0 (t\<lparr>sv_poller := p\<rparr>) = Inr u" "sv_inv (\<lambda>fd. True) u"
    "sv_conns u = [9 \<mapsto> c]" "tc_fd c = 8" "tc_chan c = 5" "mb_contents (write_buffer c) = []"
proof -
  let ?v = "\<lambda>fd :: int. True"
  obtain s t where t: "server_boot (\<lambda>fd. True) (\<lambda>a. True) (10, 4) (11, 5) 3 0 demo_address = Inr s"
    "server_start ?v 0 s = Inr t" "sv_inv ?v t" "sv_conns t = Map.empty"
    "sv_acceptor t = \<lparr>ac_sock = 3, ac_addr = demo_address, ac_chan = 0, ac_callback = True\<rparr>"
    "sv_poller t = put_channel 0 (watched_channel AcceptCb 3) (loop_poller TimerCb WakeCb (10, 4) (11, 5))"
    by (rule demo_server)
  note po = demo_poller [OF t(6)]
  obtain p where p: "poll (Some [(POLLIN, 0)]) (sv_poller t) = Inr ([0], p)" "sv_inv ?v (t\<lparr>sv_poller := p\<rparr>)"
    "heap p 0 = Some ((watched_channel AcceptCb 3)\<lparr>revents := POLLIN\<rparr>)" "fresh_for ?v (t\<lparr>sv_poller := p\<rparr>) 8 9 5"
    by (rule demo_polled [OF t(3,4,6)])
  obtain u c where u: "new_connection ?v (Some 4) Disconnected 9 5 8 (t\<lparr>sv_poller := p\<rparr>) = Inr u" "sv_inv ?v u"
    "sv_conns u = (sv_conns (t\<lparr>sv_poller := p\<rparr>))(9 \<mapsto> c)" "tc_chan c = 5" "tc_fd c = 8" "mb_contents (write_buffer c) = []"
    "sv_poller u = put_channel 5 ((conn_channel 9 8)\<lparr>events := kReadEvent, index := kAdded\<rparr>) (sv_poller (t\<lparr>sv_poller := p\<rparr>))"
    by (rule new_connection_E [OF p(2,4), of "Some 4" Disconnected])
  have "POLLIN AND (POLLIN OR POLLPRI OR POLLRDHUP) \<noteq> 0" "POLLIN AND POLLOUT = 0" by (simp_all add: poll_flags)
  then have h: "handle_channel ?v user demo_turn 0 (t\<lparr>sv_poller := p\<rparr>) = Inr u" for user
    using u(1,7) t(5) p(3)
    by (simp add: handle_plain [of _ _ "(watched_channel AcceptCb 3)\<lparr>revents := POLLIN\<rparr>"] run_cb_def io_call_def
        acceptor_read_def socket_accept_def put_channel_def Let_def)
  have x: "interests (sv_poller t) 3 = Some (kReadEvent, 0)" "event_list_size (sv_poller t) = 16" by (simp_all add: po)
  have "turn_at ?v demo_turn 0 (t\<lparr>sv_poller := p\<rparr>)" using p(4) t(4) by (simp add: turn_at_def)
  with t(4) u(3) show ?thesis by (intro that [OF t(1,2) x p(1,3,2) _ allI [OF h] u(2) _ u(5,4,6)]) simp_all
qed

end
