(* ===== verification/Reactor.thy ===== *)
theory Reactor
  imports Server_Calls
begin

text \<open>
  The whole reactor: an \<open>EventLoop\<close> whose thread polls, dispatches to the channels of the
  timer queue, of the loop, of an \<open>Acceptor\<close> and of its \<open>TcpConnection\<close>s, and runs the functions
  that other threads queue. The public calls any thread may make (\<open>Send\<close>, \<open>Shutdown\<close>,
  \<open>RunAt\<close> and its like, \<open>Start\<close>, \<open>RunInLoop\<close>, \<open>QueueInLoop\<close>, \<open>set_quit\<close>) are data; each
  but the last two of them makes a closure and passes it to \<open>RunInLoop\<close>. \<open>set_recv_msg_callback\<close>
  only sets a member and is for the loop's thread. What the user's own
  functions do is the argument \<open>body\<close>: the calls a function makes, from the state it starts in.
  The step relation takes the loop's thread from one call to the next, with other threads at any
  point between.
\<close>

section \<open>Functions and calls\<close>

text \<open>The closures the library passes to \<open>RunInLoop\<close>, and functions of the user.\<close>

datatype rx_func =
    FSend nat "byte list" | FShutdown nat | FAddTimer "nat timer" | FListen | FUser nat

datatype api_call =
    ApiSend nat "byte list" | ApiShutdown nat
  | ApiRunAt date nat | ApiRunAfter dbl nat | ApiRunEvery dbl nat
  | ApiStart | ApiRunInLoop nat | ApiQueueInLoop nat | ApiSetQuit | ApiSetRecv

text \<open>
  What is left of the callback or function the loop's thread is in: calls, timers whose callback
  is still to run, and the rest of \<open>HandleRead\<close>.
\<close>

datatype rx_work = WCall api_call | WTimer "nat timer" | WReset "nat timer list" date

text \<open>Address and descriptor of the timer queue's channel and of the wake-up channel.\<close>

record reactor =
  rx_loop :: "rx_func event_loop"
  rx_timers :: "nat timer_queue"
  rx_server :: tcp_server
  rx_work :: "rx_work list"
  rx_timer :: "nat \<times> int"
  rx_wake :: "nat \<times> int"

type_synonym rx_body = "nat \<Rightarrow> reactor \<Rightarrow> api_call list"

text \<open>What system calls and clock return during a step.\<close>

record rx_env =
  io :: turn
  clock :: date
  listen_ret :: int

definition rx_new :: "nat \<Rightarrow> nat \<times> int \<Rightarrow> nat \<times> int \<Rightarrow> tcp_server \<Rightarrow> reactor" where
  "rx_new created timer wake s = \<lparr>rx_loop = el_new, rx_timers = tq_empty created, rx_server = s,
     rx_work = [], rx_timer = timer, rx_wake = wake\<rparr>"

abbreviation rx_heap :: "reactor \<Rightarrow> nat \<Rightarrow> io_callback channel option" where
  "rx_heap r \<equiv> heap (sv_poller (rx_server r))"

abbreviation rx_pc :: "reactor \<Rightarrow> rx_func el_pc" where
  "rx_pc r \<equiv> el_pc (rx_loop r)"

definition set_pc :: "rx_func el_pc \<Rightarrow> reactor \<Rightarrow> reactor" where
  "set_pc p r = r\<lparr>rx_loop := (rx_loop r)\<lparr>el_pc := p\<rparr>\<rparr>"

section \<open>Running a function\<close>

text \<open>
  The body of a closure, run by the loop's thread; \<open>who\<close> had it run. The closures of \<open>Send\<close>
  and \<open>Shutdown\<close> hold the connection's address and nothing that keeps it alive.
\<close>

fun rx_exec :: "(int \<Rightarrow> bool) \<Rightarrow> rx_body \<Rightarrow> sent_by \<Rightarrow> rx_env \<Rightarrow> rx_func \<Rightarrow> reactor \<Rightarrow> reactor res" where
  "rx_exec valid body who env (FSend this msg) r =
     (case sv_conns (rx_server r) this of
        None \<Rightarrow> Inl OutOfBounds
      | Some c \<Rightarrow>
          bind_res (send_in_loop True valid msg (conn_in (rx_server r) c)) (\<lambda>d.
          Inr (r\<lparr>rx_server := conn_out this [] [(who, msg)] [] [] d (rx_server r)\<rparr>)))"
| "rx_exec valid body who env (FShutdown this) r =
     (case sv_conns (rx_server r) this of
        None \<Rightarrow> Inl OutOfBounds
      | Some c \<Rightarrow>
          Inr (r\<lparr>rx_server := conn_out this [] [] [] [] (conn_shutdown (conn_in (rx_server r) c)) (rx_server r)\<rparr>))"
| "rx_exec valid body who env (FAddTimer t) r =
     bind_res (add_timer_in_loop True (clock env) t (rx_timers r)) (\<lambda>q. Inr (r\<lparr>rx_timers := q\<rparr>))"
| "rx_exec valid body who env FListen r =
     bind_res (server_start valid (listen_ret env) (rx_server r)) (\<lambda>s. Inr (r\<lparr>rx_server := s\<rparr>))"
| "rx_exec valid body who env (FUser n) r = Inr (r\<lparr>rx_work := map WCall (body n r) @ rx_work r\<rparr>)"

text \<open>The closure a call makes, in the calling thread; \<open>timer_created_\<close> is atomic.\<close>

fun rx_make :: "rx_env \<Rightarrow> api_call \<Rightarrow> reactor \<Rightarrow> (rx_func \<times> reactor) res" where
  "rx_make env (ApiSend this msg) r = Inr (FSend this msg, r)"
| "rx_make env (ApiShutdown this) r = Inr (FShutdown this, r)"
| "rx_make env (ApiRunAt time n) r =
     (let (q, t) = run_at time n (rx_timers r) in Inr (FAddTimer t, r\<lparr>rx_timers := q\<rparr>))"
| "rx_make env (ApiRunAfter delay n) r =
     bind_res (run_after (clock env) delay n (rx_timers r)) (\<lambda>(q, t). Inr (FAddTimer t, r\<lparr>rx_timers := q\<rparr>))"
| "rx_make env (ApiRunEvery secs n) r =
     (let (q, t) = run_every (clock env) secs n (rx_timers r) in Inr (FAddTimer t, r\<lparr>rx_timers := q\<rparr>))"
| "rx_make env ApiStart r = Inr (FListen, r)"
| "rx_make env (ApiRunInLoop n) r = Inr (FUser n, r)"
| "rx_make env (ApiQueueInLoop n) r = Inr (FUser n, r)"
| "rx_make env ApiSetQuit r = Inl NullCall"
| "rx_make env ApiSetRecv r = Inl NullCall"

text \<open>The push of another thread, which is then between the push and its \<open>WakeUp\<close>.\<close>

definition rx_push :: "rx_func \<Rightarrow> reactor \<Rightarrow> reactor" where
  "rx_push f r = r\<lparr>rx_loop := (push_func f (rx_loop r))\<lparr>writers := Suc (writers (rx_loop r))\<rparr>\<rparr>"

text \<open>A call made by the loop's own thread.\<close>

definition rx_call :: "(int \<Rightarrow> bool) \<Rightarrow> rx_body \<Rightarrow> rx_env \<Rightarrow> api_call \<Rightarrow> reactor \<Rightarrow> reactor res" where
  "rx_call valid body env c r =
     (case c of
        ApiSetQuit \<Rightarrow> Inr (r\<lparr>rx_loop := set_quit (rx_loop r)\<rparr>)
      | ApiSetRecv \<Rightarrow> Inr (r\<lparr>rx_server := (rx_server r)\<lparr>sv_recv := True\<rparr>\<rparr>)
      | ApiQueueInLoop n \<Rightarrow> Inr (r\<lparr>rx_loop := queue_in_loop True (FUser n) (rx_loop r)\<rparr>)
      | _ \<Rightarrow> bind_res (rx_make env c r) (\<lambda>(f, r).
               run_in_loop True (rx_exec valid body ByLoop env) (\<lambda>f r. Inr (rx_push f r)) f r))"

text \<open>The next statement of the callback or function the loop's thread is in.\<close>

fun rx_work_step :: "(int \<Rightarrow> bool) \<Rightarrow> rx_body \<Rightarrow> rx_env \<Rightarrow> rx_work \<Rightarrow> reactor \<Rightarrow> reactor res" where
  "rx_work_step valid body env (WCall c) r = rx_call valid body env c r"
| "rx_work_step valid body env (WTimer t) r = Inr (r\<lparr>rx_work := map WCall (body (callback t) r) @ rx_work r\<rparr>)"
| "rx_work_step valid body env (WReset ts now) r =
     bind_res (tq_reset True ts now (clock env) ((rx_timers r)\<lparr>calling_expired_timers := False\<rparr>)) (\<lambda>q.
     Inr (r\<lparr>rx_timers := q\<rparr>))"

section \<open>Dispatch\<close>

text \<open>
  The callback of a channel: the loop's, the timer queue's (\<open>HandleRead\<close> up to its loop over
  the expired timers), or one of the server's.
\<close>

definition rx_io :: "(int \<Rightarrow> bool) \<Rightarrow> user \<Rightarrow> rx_env \<Rightarrow> io_callback \<Rightarrow> reactor \<Rightarrow> reactor res" where
  "rx_io valid user env cb r =
     (case cb of
        WakeCb \<Rightarrow> Inr (r\<lparr>rx_loop := wake_up_read (rx_loop r)\<rparr>)
      | TimerCb \<Rightarrow>
          bind_res (tq_begin (clock env) (rx_timers r)) (\<lambda>(expired, q).
          Inr (r\<lparr>rx_timers := q, rx_work := map WTimer expired @ WReset expired (clock env) # rx_work r\<rparr>))
      | _ \<Rightarrow> bind_res (io_call valid user (io env) cb (rx_server r)) (\<lambda>s. Inr (r\<lparr>rx_server := s\<rparr>)))"

definition rx_dispatch :: "(int \<Rightarrow> bool) \<Rightarrow> user \<Rightarrow> rx_env \<Rightarrow> nat \<Rightarrow> reactor \<Rightarrow> reactor res" where
  "rx_dispatch valid user env q r =
     (if rx_heap r q = None then Inl OutOfBounds
      else handle_event (\<lambda>obj r. sv_conns (rx_server r) obj \<noteq> None) (\<lambda>r. the (rx_heap r q)) (rx_io valid user env) r)"

definition active_of :: "nat \<Rightarrow> nat \<Rightarrow> active" where
  "active_of wake q = (if q = wake then ActWakeUp else ActChannel q)"

definition chan_of :: "nat \<Rightarrow> active \<Rightarrow> nat" where
  "chan_of wake a = (case a of ActWakeUp \<Rightarrow> wake | ActChannel q \<Rightarrow> q)"

definition rx_poll :: "(32 word \<times> nat) list option \<Rightarrow> reactor \<Rightarrow> (active list \<times> reactor) res" where
  "rx_poll result r =
     bind_res (poll result (sv_poller (rx_server r))) (\<lambda>(qs, p).
     let as = map (active_of (fst (rx_wake r))) qs in
     Inr (as, r\<lparr>rx_server := (rx_server r)\<lparr>sv_poller := p\<rparr>, rx_loop := poll_returned as (rx_loop r)\<rparr>))"

section \<open>What the environment may do\<close>

text \<open>Whoever calls on a connection has a pointer to it.\<close>

fun call_ok :: "reactor \<Rightarrow> api_call \<Rightarrow> bool" where
  "call_ok r (ApiSend this msg) = (sv_conns (rx_server r) this \<noteq> None)"
| "call_ok r (ApiShutdown this) = (sv_conns (rx_server r) this \<noteq> None)"
| "call_ok r c = True"

definition body_ok :: "rx_body \<Rightarrow> bool" where
  "body_ok body \<longleftrightarrow> (\<forall>n r c. c \<in> set (body n r) \<longrightarrow> call_ok r c)"

text \<open>
  Dates stay in range, and the output pending in a connection below \<open>room\<close>: \<open>make_fits\<close> is
  for making a closure, \<open>exec_fits\<close> for running it.
\<close>

fun make_fits :: "rx_env \<Rightarrow> api_call \<Rightarrow> bool" where
  "make_fits env (ApiRunAt time n) = date_range time"
| "make_fits env (ApiRunAfter delay n) = (case date_after (clock env) delay of Inr d \<Rightarrow> date_range d | Inl e \<Rightarrow> False)"
| "make_fits env (ApiRunEvery secs n) = date_range (clock env)"
| "make_fits env c = True"

definition send_fits :: "reactor \<Rightarrow> nat \<Rightarrow> byte list \<Rightarrow> bool" where
  "send_fits r this msg \<longleftrightarrow> (\<forall>c. sv_conns (rx_server r) this = Some c \<longrightarrow>
     length (mb_contents (write_buffer c)) + length msg \<le> room)"

fun exec_fits :: "rx_env \<Rightarrow> reactor \<Rightarrow> rx_func \<Rightarrow> bool" where
  "exec_fits env r (FSend this msg) = send_fits r this msg"
| "exec_fits env r (FAddTimer t) = date_range (clock env)"
| "exec_fits env r f = True"

fun work_fits :: "rx_env \<Rightarrow> reactor \<Rightarrow> rx_work \<Rightarrow> bool" where
  "work_fits env r (WCall c) \<longleftrightarrow> make_fits env c \<and> date_range (clock env) \<and>
     (case c of ApiSend this msg \<Rightarrow> send_fits r this msg | _ \<Rightarrow> True)"
| "work_fits env r (WTimer t) \<longleftrightarrow> True"
| "work_fits env r (WReset ts now) \<longleftrightarrow> list_all (restart_range now) ts \<and> date_range (clock env)"

text \<open>
  \<open>epoll_wait\<close> reports channels that are watched, each once, at most as many as asked for,
  and the eventfd as readable only when its count is positive.
\<close>

definition poll_fits :: "(32 word \<times> nat) list option \<Rightarrow> reactor \<Rightarrow> bool" where
  "poll_fits result r =
     (case result of None \<Rightarrow> True
      | Some evs \<Rightarrow> (\<forall>e \<in> set evs. \<exists>fd ev. interests (sv_poller (rx_server r)) fd = Some (ev, snd e)) \<and>
          distinct (map snd evs) \<and> length evs \<le> event_list_size (sv_poller (rx_server r)) \<and>
          (\<forall>e \<in> set evs. snd e = fst (rx_wake r) \<longrightarrow> 0 < wake_count (rx_loop r) \<and> fst e AND POLLIN \<noteq> 0))"

section \<open>The step relation\<close>

datatype rx_act =
    OtherCall api_call rx_env rx_func | OtherWrites | OtherQuits
  | OwnCall api_call | Enter | Test | Polled "(32 word \<times> nat) list option" "active list"
  | Dispatched rx_env active | Swapped | RunFunc rx_env rx_func | Worked rx_env rx_work | Done

definition with_loop :: "(rx_func event_loop \<Rightarrow> rx_func event_loop) \<Rightarrow> reactor \<Rightarrow> reactor" where
  "with_loop g r = r\<lparr>rx_loop := g (rx_loop r)\<rparr>"

inductive rx_step :: "(int \<Rightarrow> bool) \<Rightarrow> user \<Rightarrow> rx_body \<Rightarrow> reactor \<Rightarrow> rx_act \<Rightarrow> reactor \<Rightarrow> bool"
  for valid user body where
  rx_other_call: "call_ok r c \<Longrightarrow> make_fits env c \<Longrightarrow> rx_make env c r = Inr (f, r') \<Longrightarrow>
    rx_step valid user body r (OtherCall c env f) (rx_push f r')"
| rx_other_writes: "writers (rx_loop r) = Suc n \<Longrightarrow>
    rx_step valid user body r OtherWrites (with_loop (\<lambda>l. wake_up (l\<lparr>writers := n\<rparr>)) r)"
| rx_other_quits: "rx_step valid user body r OtherQuits (with_loop set_quit r)"
| rx_own_call: "rx_pc r = EOut \<Longrightarrow> rx_work r = [] \<Longrightarrow> call_ok r c \<Longrightarrow>
    rx_step valid user body r (OwnCall c) (r\<lparr>rx_work := [WCall c]\<rparr>)"
| rx_enter: "rx_pc r = EOut \<Longrightarrow> rx_work r = [] \<Longrightarrow> \<not> looping (rx_loop r) \<Longrightarrow>
    rx_step valid user body r Enter (with_loop enter_loop r)"
| rx_test: "rx_pc r = ETest \<Longrightarrow> rx_step valid user body r Test (with_loop test_quit r)"
| rx_polled: "rx_pc r = EPoll \<Longrightarrow> poll_fits result r \<Longrightarrow> rx_poll result r = Inr (as, r') \<Longrightarrow>
    rx_step valid user body r (Polled result as) r'"
| rx_dispatched: "rx_pc r = EHandling (a # as) \<Longrightarrow> rx_work r = [] \<Longrightarrow>
    turn_at valid (io env) (chan_of (fst (rx_wake r)) a) (rx_server r) \<Longrightarrow>
    rx_dispatch valid user env (chan_of (fst (rx_wake r)) a) (set_pc (EHandling as) r) = Inr r' \<Longrightarrow>
    rx_step valid user body r (Dispatched env a) r'"
| rx_swapped: "rx_pc r = EHandling [] \<Longrightarrow> rx_work r = [] \<Longrightarrow> rx_step valid user body r Swapped (with_loop swap_funcs r)"
| rx_run_func: "rx_pc r = ERunning (f # fs) \<Longrightarrow> rx_work r = [] \<Longrightarrow> exec_fits env r f \<Longrightarrow>
    rx_exec valid body ByQueue env f (set_pc (ERunning fs) r) = Inr r' \<Longrightarrow>
    rx_step valid user body r (RunFunc env f) r'"
| rx_worked: "rx_work r = w # ws \<Longrightarrow> work_fits env r w \<Longrightarrow>
    rx_work_step valid body env w (r\<lparr>rx_work := ws\<rparr>) = Inr r' \<Longrightarrow> rx_step valid user body r (Worked env w) r'"
| rx_done: "rx_pc r = ERunning [] \<Longrightarrow> rx_work r = [] \<Longrightarrow> rx_step valid user body r Done (with_loop funcs_done r)"

inductive_cases rx_stepE: "rx_step valid user body r a r'"

inductive_simps rx_step_simps [step_simps]:
  "rx_step valid user body r (OtherCall c env f) r'"
  "rx_step valid user body r OtherWrites r'"
  "rx_step valid user body r OtherQuits r'"
  "rx_step valid user body r (OwnCall c) r'"
  "rx_step valid user body r Enter r'"
  "rx_step valid user body r Test r'"
  "rx_step valid user body r (Polled result as) r'"
  "rx_step valid user body r (Dispatched env a) r'"
  "rx_step valid user body r Swapped r'"
  "rx_step valid user body r (RunFunc env f) r'"
  "rx_step valid user body r (Worked env w) r'"
  "rx_step valid user body r Done r'"

end
