(* ===== verification/Reactor_Inv.thy ===== *)
theory Reactor_Inv
  imports Reactor
begin

text \<open>
  The invariant of the reactor: the server's invariant, that of the loop and of the timer
  queue, and what ties them together. Every step of the loop's thread succeeds under it and
  keeps it, and the loop inside the reactor is a run of \<open>Event_Loop\<close>.
\<close>

section \<open>The invariant\<close>

text \<open>The loop's own channels are watched, and are the only ones with its callbacks.\<close>

definition own_channels :: "reactor \<Rightarrow> bool" where
  "own_channels r \<longleftrightarrow> fst (rx_timer r) \<noteq> fst (rx_wake r) \<and>
     (\<exists>v. rx_heap r (fst (rx_timer r)) = Some ((watched_channel TimerCb (snd (rx_timer r)))\<lparr>revents := v\<rparr>)) \<and>
     (\<exists>v. rx_heap r (fst (rx_wake r)) = Some ((watched_channel WakeCb (snd (rx_wake r)))\<lparr>revents := v\<rparr>)) \<and>
     (\<forall>q ch. rx_heap r q = Some ch \<and> loop_owned ch \<longrightarrow> q = fst (rx_timer r) \<or> q = fst (rx_wake r))"

text \<open>The functions queued or swapped out, in the order in which they will run.\<close>

definition rx_line :: "reactor \<Rightarrow> rx_func list" where
  "rx_line r = swapped_out (rx_pc r) @ funcs (rx_loop r)"

fun func_ok :: "reactor \<Rightarrow> rx_func \<Rightarrow> bool" where
  "func_ok r (FSend this msg) = (sv_conns (rx_server r) this \<noteq> None)"
| "func_ok r (FShutdown this) = (sv_conns (rx_server r) this \<noteq> None)"
| "func_ok r (FAddTimer t) = date_range (due t)"
| "func_ok r f = True"

text \<open>\<open>HandleRead\<close> has taken timers out and has not reset the descriptor.\<close>

definition resetting :: "reactor \<Rightarrow> bool" where
  "resetting r \<longleftrightarrow> (\<exists>ts now. WReset ts now \<in> set (rx_work r))"

definition handling :: "reactor \<Rightarrow> active list" where
  "handling r = (case rx_pc r of EHandling as \<Rightarrow> as | _ \<Rightarrow> [])"

definition wake_readable :: "reactor \<Rightarrow> bool" where
  "wake_readable r \<longleftrightarrow> revents (the (rx_heap r (fst (rx_wake r)))) AND POLLIN \<noteq> 0"

text \<open>What holds of server, timers and the work at hand, and what of the loop.\<close>

definition rx_data :: "(int \<Rightarrow> bool) \<Rightarrow> reactor \<Rightarrow> bool" where
  "rx_data valid r \<longleftrightarrow> sv_inv valid (rx_server r) \<and> tq_inv (rx_timers r) \<and> own_channels r \<and>
     (\<forall>c. WCall c \<in> set (rx_work r) \<longrightarrow> call_ok r c)"

definition rx_control :: "reactor \<Rightarrow> bool" where
  "rx_control r \<longleftrightarrow> (\<forall>f \<in> set (rx_line r). func_ok r f) \<and>
     (rx_work r \<noteq> [] \<longrightarrow> rx_pc r \<noteq> ETest \<and> rx_pc r \<noteq> EPoll) \<and>
     (\<forall>a \<in> set (handling r). rx_heap r (chan_of (fst (rx_wake r)) a) \<noteq> None \<and> a \<noteq> ActChannel (fst (rx_wake r))) \<and>
     (ActWakeUp \<in> set (handling r) \<longrightarrow> wake_readable r)"

definition rx_inv :: "(int \<Rightarrow> bool) \<Rightarrow> reactor \<Rightarrow> bool" where
  "rx_inv valid r \<longleftrightarrow> rx_data valid r \<and> rx_control r \<and> el_inv (rx_loop r) \<and> (tq_armed (rx_timers r) \<or> resetting r)"

lemma handling_simps [simp]:
  "handling (set_pc (EHandling as) r) = as" "rx_pc r = EHandling as \<Longrightarrow> handling r = as"
  by (simp_all add: handling_def set_pc_def)

section \<open>What a step of the loop's thread changes besides the loop\<close>

definition moves :: "(int \<Rightarrow> bool) \<Rightarrow> reactor \<Rightarrow> reactor \<Rightarrow> bool" where
  "moves valid r r' \<longleftrightarrow> steady valid (rx_server r) (rx_server r') \<and> tq_inv (rx_timers r') \<and>
     (tq_armed (rx_timers r) \<or> resetting r \<longrightarrow> tq_armed (rx_timers r') \<or> resetting r') \<and>
     (\<forall>c. WCall c \<in> set (rx_work r') \<longrightarrow> WCall c \<in> set (rx_work r) \<or> call_ok r c) \<and>
     rx_timer r' = rx_timer r \<and> rx_wake r' = rx_wake r"

lemma steady_refl: "sv_inv valid s \<Longrightarrow> steady valid s s"
  by (simp add: steady_def)

lemma grows_conns: "grows s t \<Longrightarrow> sv_conns s this \<noteq> None \<Longrightarrow> sv_conns t this \<noteq> None"
  by (auto simp: grows_def)

lemma call_ok_grows: "grows (rx_server r) (rx_server r') \<Longrightarrow> call_ok r c \<Longrightarrow> call_ok r' c"
  by (cases c) (auto dest: grows_conns)

lemma call_ok_upd [simp]:
  "call_ok (r\<lparr>rx_timers := q\<rparr>) c = call_ok r c" "call_ok (r\<lparr>rx_work := ws\<rparr>) c = call_ok r c"
  "call_ok (r\<lparr>rx_loop := l\<rparr>) c = call_ok r c"
  by (cases c; simp)+

lemma func_ok_upd [simp]:
  "func_ok (r\<lparr>rx_timers := q\<rparr>) f = func_ok r f" "func_ok (r\<lparr>rx_work := ws\<rparr>) f = func_ok r f"
  "func_ok (r\<lparr>rx_loop := l\<rparr>) f = func_ok r f"
  by (cases f; simp)+

lemma func_ok_grows: "grows (rx_server r) (rx_server r') \<Longrightarrow> func_ok r f \<Longrightarrow> func_ok r' f"
  by (cases f) (auto dest: grows_conns)

lemma watched_owned [simp]: "loop_owned ((watched_channel TimerCb fd)\<lparr>revents := v\<rparr>)"
  "loop_owned ((watched_channel WakeCb fd)\<lparr>revents := v\<rparr>)"
  by (simp_all add: loop_owned_def)

lemma own_channels_same:
  assumes "own_channels r" and "own_same (rx_server r) (rx_server r')" and "rx_timer r' = rx_timer r" and "rx_wake r' = rx_wake r"
  shows "own_channels r'" "rx_heap r' (fst (rx_wake r)) = rx_heap r (fst (rx_wake r))"
  using assms by (auto simp: own_channels_def own_same_def)

lemma moves_data: "rx_data valid r \<Longrightarrow> moves valid r r' \<Longrightarrow> rx_data valid r'"
  unfolding rx_data_def moves_def steady_def using own_channels_same(1) call_ok_grows by blast

text \<open>The control part, when only the loop or what \<open>moves\<close> allows changes.\<close>

lemma moves_control:
  assumes "rx_data valid r" and "rx_control r" and "moves valid r r'"
    and "set (rx_line r') \<subseteq> set (rx_line r) \<union> {f. func_ok r f}" and "set (handling r') \<subseteq> set (handling r)"
    and "rx_work r' \<noteq> [] \<longrightarrow> rx_pc r' \<noteq> ETest \<and> rx_pc r' \<noteq> EPoll"
  shows "rx_control r'"
proof -
  have g: "grows (rx_server r) (rx_server r')" "\<And>q. rx_heap r q \<noteq> None \<Longrightarrow> rx_heap r' q \<noteq> None"
    "rx_wake r' = rx_wake r" "rx_timer r' = rx_timer r" "own_same (rx_server r) (rx_server r')"
    using assms(3) by (simp_all add: moves_def steady_def)
  have w: "wake_readable r' = wake_readable r"
    using own_channels_same(2) [of r r'] assms(1) g(3-5) by (simp add: wake_readable_def rx_data_def)
  have "func_ok r' f" if "f \<in> set (rx_line r')" for f
    using that assms(2,4) func_ok_grows [OF g(1), of f] by (auto simp: rx_control_def)
  moreover have "rx_heap r' (chan_of (fst (rx_wake r')) a) \<noteq> None \<and> a \<noteq> ActChannel (fst (rx_wake r'))" if "a \<in> set (handling r')" for a
    using that assms(2,5) g(2,3) unfolding rx_control_def by (metis subset_iff)
  moreover have "wake_readable r'" if "ActWakeUp \<in> set (handling r')"
    using that assms(2,5) w by (auto simp: rx_control_def)
  ultimately show ?thesis using assms(6) by (simp add: rx_control_def)
qed

section \<open>Running functions and calls\<close>

text \<open>What running a function adds to streams and timers, and leaves to be done.\<close>

definition delivered :: "tcp_server \<Rightarrow> int \<Rightarrow> rx_func \<Rightarrow> byte list list" where
  "delivered s fd f = (case f of FSend this msg \<Rightarrow> if map_option tc_fd (sv_conns s this) = Some fd then [msg] else [] | _ \<Rightarrow> [])"

definition delivers :: "sent_by \<Rightarrow> rx_func \<Rightarrow> tcp_server \<Rightarrow> tcp_server \<Rightarrow> bool" where
  "delivers who f s t \<longleftrightarrow> (stream_ok s \<longrightarrow> stream_ok t) \<and>
     (\<forall>fd. queue_msgs t fd = queue_msgs s fd @ (if who = ByQueue then delivered s fd f else []))"

definition exec_adds :: "rx_func \<Rightarrow> nat timer multiset" where
  "exec_adds f = (case f of FAddTimer t \<Rightarrow> {#t#} | _ \<Rightarrow> {#})"

definition exec_work :: "rx_body \<Rightarrow> rx_func \<Rightarrow> reactor \<Rightarrow> rx_work list" where
  "exec_work body f r = (case f of FUser n \<Rightarrow> map WCall (body n r) | _ \<Rightarrow> [])"

lemma delivers_nothing:
  assumes "sv_conns t = sv_conns s" and "wire t = wire s" and "asked_of t = asked_of s"
    and "\<And>this msg. f \<noteq> FSend this msg"
  shows "delivers who f s t"
proof (cases f)
  case (FSend this msg)
  with assms(4) [of this msg] show ?thesis by simp
qed (use assms(1-3) in \<open>simp_all add: delivers_def delivered_def stream_ok_def asked_bytes_def has_conn_def queue_msgs_def\<close>)

lemma moves_server:
  assumes "rx_data valid r" and "steady valid (rx_server r) t"
  shows "moves valid r (r\<lparr>rx_server := t\<rparr>)"
  using assms by (simp add: moves_def rx_data_def resetting_def)

lemma moves_timers:
  assumes "rx_data valid r" and "tq_inv q" and "tq_armed (rx_timers r) \<longrightarrow> tq_armed q"
  shows "moves valid r (r\<lparr>rx_timers := q\<rparr>)"
  using assms by (auto simp: moves_def rx_data_def resetting_def intro: steady_refl)

lemma moves_work:
  assumes "rx_data valid r" and "\<And>c. WCall c \<in> set ws \<Longrightarrow> call_ok r c"
  shows "moves valid r (r\<lparr>rx_work := ws @ rx_work r\<rparr>)"
  using assms by (auto simp: moves_def rx_data_def resetting_def intro: steady_refl)

lemma exec_send_ok:
  assumes "rx_data valid r" and "sv_conns (rx_server r) this \<noteq> None" and "send_fits r this msg"
  obtains t where "rx_exec valid body who env (FSend this msg) r = Inr (r\<lparr>rx_server := t\<rparr>)"
    "steady valid (rx_server r) t" "delivers who (FSend this msg) (rx_server r) t"
proof -
  let ?s = "rx_server r"
  obtain c where c: "sv_conns ?s this = Some c" using assms(2) by auto
  have i: "sv_inv valid ?s" using assms(1) by (simp add: rx_data_def)
  have "length (mb_contents (write_buffer c)) + length (call_bytes [CallSend msg]) \<le> room"
    using assms(3) c by (simp add: send_fits_def)
  then obtain d where d: "conn_call_do valid (CallSend msg) (conn_in ?s c) = Inr d"
    "\<And>msgs. steady valid ?s (conn_out this [] msgs [] [] d ?s)"
    "mb_contents (write_buffer d) = mb_contents (write_buffer c) @ call_bytes [CallSend msg]" "tc_fd d = tc_fd c"
    by (rule user_call_ok [OF i c]) (simp_all add: call_takes_def)
  let ?t = "conn_out this [] [(who, msg)] [] [] d ?s"
  have "stream_ok ?s \<longrightarrow> stream_ok ?t" using conn_out_stream [OF i c d(4)] d(3) by simp
  then have "delivers who (FSend this msg) ?s ?t"
    using c d(4) by (auto simp: delivers_def delivered_def conn_out_queue_msgs)
  with that [of ?t] d(1,2) c show ?thesis by (simp add: conn_call_do_def conn_send_def)
qed

lemma exec_shutdown_ok:
  assumes "rx_data valid r" and "sv_conns (rx_server r) this \<noteq> None"
  obtains t where "rx_exec valid body who env (FShutdown this) r = Inr (r\<lparr>rx_server := t\<rparr>)"
    "steady valid (rx_server r) t" "delivers who (FShutdown this) (rx_server r) t"
proof -
  let ?s = "rx_server r"
  obtain c where c: "sv_conns ?s this = Some c" using assms(2) by auto
  have i: "sv_inv valid ?s" using assms(1) by (simp add: rx_data_def)
  let ?d = "conn_shutdown (conn_in ?s c)"
  have "conn_ok valid (conn_in ?s c)" using sv_member [OF i c] by (simp add: member_ok_def)
  note d = conn_shutdown_ok [OF this]
  let ?t = "conn_out this [] [] [] [] ?d ?s"
  have "delivers who (FShutdown this) ?s ?t"
    using conn_out_stream [OF i c, of ?d "[]" "[]"] d
    by (simp add: delivers_def delivered_def conn_out_queue_msgs conn_next_def)
  moreover have "steady valid ?s ?t" using conn_out_steady [OF i c d(1)] conn_shutdown_read by simp
  ultimately show ?thesis using that [of ?t] c by simp
qed

lemma rx_exec_ok:
  assumes "rx_data valid r" and "func_ok r f" and "exec_fits env r f" and "body_ok body"
  obtains r' where "rx_exec valid body who env f r = Inr r'" "moves valid r r'" "rx_loop r' = rx_loop r"
    "rx_work r' = exec_work body f r @ rx_work r" "delivers who f (rx_server r) (rx_server r')"
    "mset (timers (rx_timers r')) = mset (timers (rx_timers r)) + exec_adds f"
    "timer_created (rx_timers r') = timer_created (rx_timers r)"
proof (cases f)
  case (FSend this msg)
  with assms(2,3) have "sv_conns (rx_server r) this \<noteq> None" "send_fits r this msg" by simp_all
  then obtain t where "rx_exec valid body who env (FSend this msg) r = Inr (r\<lparr>rx_server := t\<rparr>)"
    "steady valid (rx_server r) t" "delivers who (FSend this msg) (rx_server r) t"
    by (rule exec_send_ok [OF assms(1)])
  with that [of "r\<lparr>rx_server := t\<rparr>"] moves_server [OF assms(1)] FSend show ?thesis
    by (simp add: exec_work_def exec_adds_def)
next
  case (FShutdown this)
  with assms(2) have "sv_conns (rx_server r) this \<noteq> None" by simp
  then obtain t where "rx_exec valid body who env (FShutdown this) r = Inr (r\<lparr>rx_server := t\<rparr>)"
    "steady valid (rx_server r) t" "delivers who (FShutdown this) (rx_server r) t"
    by (rule exec_shutdown_ok [OF assms(1)])
  with that [of "r\<lparr>rx_server := t\<rparr>"] moves_server [OF assms(1)] FShutdown show ?thesis
    by (simp add: exec_work_def exec_adds_def)
next
  case (FAddTimer t)
  have q: "tq_inv (rx_timers r)" "date_range (due t)" "date_range (clock env)"
    using assms(1-3) FAddTimer by (simp_all add: rx_data_def)
  obtain q where "add_timer_in_loop True (clock env) t (rx_timers r) = Inr q" "tq_inv q"
    "mset (timers q) = add_mset t (mset (timers (rx_timers r)))" "timer_created q = timer_created (rx_timers r)"
    "tq_armed (rx_timers r) \<longrightarrow> tq_armed q"
    by (rule add_timer_in_loop_E [OF q])
  with that [of "r\<lparr>rx_timers := q\<rparr>"] moves_timers [OF assms(1)] FAddTimer show ?thesis
    by (simp add: exec_work_def exec_adds_def delivers_nothing)
next
  case FListen
  have "sv_inv valid (rx_server r)" using assms(1) by (simp add: rx_data_def)
  then obtain t where "server_start valid (listen_ret env) (rx_server r) = Inr t" "steady valid (rx_server r) t"
    "sv_conns t = sv_conns (rx_server r)" "wire t = wire (rx_server r)" "asked_of t = asked_of (rx_server r)"
    using server_start_ok by blast
  with that [of "r\<lparr>rx_server := t\<rparr>"] moves_server [OF assms(1)] delivers_nothing FListen show ?thesis
    by (simp add: exec_work_def exec_adds_def)
next
  case (FUser n)
  have "call_ok r c" if "WCall c \<in> set (map WCall (body n r))" for c
    using that assms(4) by (auto simp: body_ok_def)
  then have "moves valid r (r\<lparr>rx_work := map WCall (body n r) @ rx_work r\<rparr>)" by (rule moves_work [OF assms(1)])
  with that [of "r\<lparr>rx_work := map WCall (body n r) @ rx_work r\<rparr>"] delivers_nothing FUser show ?thesis
    by (simp add: exec_work_def exec_adds_def)
qed

text \<open>Making the closure of a call.\<close>

definition api_timers :: "api_call \<Rightarrow> nat multiset" where
  "api_timers c = (case c of ApiRunAt time n \<Rightarrow> {#n#} | ApiRunAfter delay n \<Rightarrow> {#n#} | ApiRunEvery secs n \<Rightarrow> {#n#} | _ \<Rightarrow> {#})"

lemma callback_timer_new [simp]: "callback (timer_new cb w i seq) = cb"
  by (simp add: timer_new_def)

lemma rx_make_ok:
  assumes "call_ok r c" and "make_fits env c" and "c \<noteq> ApiSetQuit" and "c \<noteq> ApiSetRecv"
  obtains f n where "rx_make env c r = Inr (f, r\<lparr>rx_timers := (rx_timers r)\<lparr>timer_created := n\<rparr>\<rparr>)" "func_ok r f"
    "image_mset callback (exec_adds f) = api_timers c" "\<And>this msg. f = FSend this msg \<longleftrightarrow> c = ApiSend this msg"
    "\<And>n. f = FUser n \<longleftrightarrow> c = ApiRunInLoop n \<or> c = ApiQueueInLoop n"
proof -
  have same: "r = r\<lparr>rx_timers := (rx_timers r)\<lparr>timer_created := timer_created (rx_timers r)\<rparr>\<rparr>" by simp
  show ?thesis
    using that assms
    by (cases c) (auto simp: exec_adds_def api_timers_def run_at_def run_after_def run_every_def add_timer_def Let_def
        split: sum.splits, (metis same)+)
qed

section \<open>The statements of callbacks and functions\<close>

text \<open>
  Timers by where they are: in the queue, in closures that will insert them, and in the rest of
  \<open>HandleRead\<close>, where one that fires once is held until its callback has run and a periodic one
  until \<open>Reset\<close>.
\<close>

fun work_timers :: "rx_work \<Rightarrow> nat timer multiset" where
  "work_timers (WCall c) = {#}"
| "work_timers (WTimer t) = (if repeat t then {#} else {#t#})"
| "work_timers (WReset ts now) = filter_mset repeat (mset ts)"

definition rx_held :: "reactor \<Rightarrow> nat multiset" where
  "rx_held r = image_mset callback (mset (timers (rx_timers r)) + sum_list (map work_timers (rx_work r)) +
     sum_list (map exec_adds (rx_line r)))"

definition quiet :: "tcp_server \<Rightarrow> tcp_server \<Rightarrow> bool" where
  "quiet s t \<longleftrightarrow> (stream_ok s \<longrightarrow> stream_ok t) \<and> (\<forall>fd. queue_msgs t fd = queue_msgs s fd)"

lemma delivers_quiet: "delivers who f s t \<Longrightarrow> who \<noteq> ByQueue \<Longrightarrow> quiet s t"
  by (simp add: delivers_def quiet_def)

lemma quiet_same:
  "sv_conns t = sv_conns s \<Longrightarrow> wire t = wire s \<Longrightarrow> asked_of t = asked_of s \<Longrightarrow> quiet s t"
  by (simp add: quiet_def stream_ok_def asked_bytes_def has_conn_def queue_msgs_def)

lemma quiet_refl [simp]: "quiet s s" by (simp add: quiet_def)

lemma work_timers_calls [simp]: "sum_list (map work_timers (map WCall cs)) = {#}"
  by (induction cs) simp_all

text \<open>What a call does to the loop itself.\<close>

definition api_loop :: "api_call \<Rightarrow> rx_func event_loop \<Rightarrow> rx_func event_loop" where
  "api_loop c l = (case c of ApiSetQuit \<Rightarrow> do_call CallSetQuit l
     | ApiQueueInLoop n \<Rightarrow> do_call (CallQueueInLoop (FUser n)) l | _ \<Rightarrow> l)"

lemma recv_set_inv: "sv_inv valid s \<Longrightarrow> sv_inv valid (s\<lparr>sv_recv := True\<rparr>)"
  by (simp add: sv_inv_def member_ok_def conn_in_def)

lemma moves_same: "rx_data valid r \<Longrightarrow> moves valid r (r\<lparr>rx_loop := l\<rparr>)"
  by (simp add: moves_def rx_data_def resetting_def steady_refl)

lemma tq_created [simp]: "tq_armed (q\<lparr>timer_created := n\<rparr>) = tq_armed q" "tq_inv (q\<lparr>timer_created := n\<rparr>) = tq_inv q"
  by (simp_all add: tq_armed_def tq_inv_def earliest_def split: option.split)

lemma moves_created: "moves valid (r\<lparr>rx_timers := (rx_timers r)\<lparr>timer_created := n\<rparr>\<rparr>) r' \<Longrightarrow> moves valid r r'"
  by (simp add: moves_def resetting_def)

lemma data_created: "rx_data valid r \<Longrightarrow> rx_data valid (r\<lparr>rx_timers := (rx_timers r)\<lparr>timer_created := n\<rparr>\<rparr>)"
  by (simp add: rx_data_def own_channels_def)

text \<open>The calls that make no closure.\<close>

lemma rx_call_direct:
  assumes "rx_data valid r" and "c = ApiSetQuit \<or> c = ApiSetRecv \<or> (\<exists>n. c = ApiQueueInLoop n)"
  obtains r' cs where "rx_call valid body env c r = Inr r'" "moves valid r r'" "rx_loop r' = api_loop c (rx_loop r)"
    "rx_work r' = map WCall cs @ rx_work r" "quiet (rx_server r) (rx_server r')"
    "image_mset callback (mset (timers (rx_timers r'))) = image_mset callback (mset (timers (rx_timers r))) + api_timers c"
proof -
  have "steady valid (rx_server r) ((rx_server r)\<lparr>sv_recv := True\<rparr>)"
    using recv_set_inv assms(1) by (simp add: steady_def rx_data_def grows_def own_same_def)
  note recv = moves_server [OF assms(1) this] quiet_same [of "(rx_server r)\<lparr>sv_recv := True\<rparr>" "rx_server r", simplified]
  note parts = rx_call_def api_loop_def do_call_def api_timers_def
  from assms(2) show ?thesis
  proof (elim disjE exE)
    assume "c = ApiSetQuit"
    then show ?thesis
      using that [of "r\<lparr>rx_loop := set_quit (rx_loop r)\<rparr>" "[]"] moves_same [OF assms(1)] by (simp add: parts)
  next
    assume "c = ApiSetRecv"
    then show ?thesis using that [of "r\<lparr>rx_server := (rx_server r)\<lparr>sv_recv := True\<rparr>\<rparr>" "[]"] recv by (simp add: parts)
  next
    fix n assume "c = ApiQueueInLoop n"
    then show ?thesis
      using that [of "r\<lparr>rx_loop := queue_in_loop True (FUser n) (rx_loop r)\<rparr>" "[]"] moves_same [OF assms(1)]
      by (simp add: parts)
  qed
qed

lemma rx_call_ok:
  assumes "rx_data valid r" and "call_ok r c" and "work_fits env r (WCall c)" and "body_ok body"
  obtains r' cs where "rx_call valid body env c r = Inr r'" "moves valid r r'" "rx_loop r' = api_loop c (rx_loop r)"
    "rx_work r' = map WCall cs @ rx_work r" "quiet (rx_server r) (rx_server r')"
    "image_mset callback (mset (timers (rx_timers r'))) = image_mset callback (mset (timers (rx_timers r))) + api_timers c"
proof (cases "c = ApiSetQuit \<or> c = ApiSetRecv \<or> (\<exists>n. c = ApiQueueInLoop n)")
  case True
  from rx_call_direct [OF assms(1) this] that show ?thesis by blast
next
  case False
  then have c: "c \<noteq> ApiSetQuit" "c \<noteq> ApiSetRecv" "\<And>n. c \<noteq> ApiQueueInLoop n" by auto
  have m: "make_fits env c" using assms(3) by simp
  obtain f n where f: "rx_make env c r = Inr (f, r\<lparr>rx_timers := (rx_timers r)\<lparr>timer_created := n\<rparr>\<rparr>)" "func_ok r f"
    "image_mset callback (exec_adds f) = api_timers c" "\<And>this msg. f = FSend this msg \<longleftrightarrow> c = ApiSend this msg"
    "\<And>n. f = FUser n \<longleftrightarrow> c = ApiRunInLoop n \<or> c = ApiQueueInLoop n"
    by (rule rx_make_ok [OF assms(2) m c(1,2)]) blast
  let ?r = "r\<lparr>rx_timers := (rx_timers r)\<lparr>timer_created := n\<rparr>\<rparr>"
  have fo: "func_ok ?r f" using f(2) by (cases f) simp_all
  have fi: "exec_fits env ?r f" using assms(3) f(4)
  proof (cases f)
    case (FSend this msg)
    then have "c = ApiSend this msg" using f(4) by blast
    with FSend assms(3) show ?thesis by (simp add: send_fits_def)
  qed simp_all
  obtain r' where r': "rx_exec valid body ByLoop env f ?r = Inr r'" "moves valid ?r r'" "rx_loop r' = rx_loop ?r"
    "rx_work r' = exec_work body f ?r @ rx_work ?r" "delivers ByLoop f (rx_server ?r) (rx_server r')"
    "mset (timers (rx_timers r')) = mset (timers (rx_timers ?r)) + exec_adds f"
    by (rule rx_exec_ok [OF data_created [OF assms(1)] fo fi assms(4)]) blast
  have "rx_call valid body env c r = Inr r' \<and> api_loop c (rx_loop r) = rx_loop r"
  proof (cases c)
    case (ApiQueueInLoop n)
    with c(3) show ?thesis by blast
  qed (use c(1,2) f(1) r'(1) in \<open>simp_all add: rx_call_def run_in_loop_def api_loop_def\<close>)
  moreover have "exec_work body f ?r = map WCall (case f of FUser n \<Rightarrow> body n ?r | _ \<Rightarrow> [])"
    by (simp add: exec_work_def split: rx_func.split)
  ultimately show ?thesis
    using that r' moves_created [OF r'(2)] delivers_quiet [OF r'(5)] f(3) by simp
qed

lemma restarted_callback [simp]: "callback (restarted now t) = callback t"
  by (simp add: restarted_def split: sum.split)

lemma rx_work_step_ok:
  assumes "rx_data valid r" and "rx_work r = w # ws" and "work_fits env r w" and "body_ok body"
  obtains r' cs where "rx_work_step valid body env w (r\<lparr>rx_work := ws\<rparr>) = Inr r'" "moves valid r r'"
    "rx_loop r' = (case w of WCall c \<Rightarrow> api_loop c (rx_loop r) | _ \<Rightarrow> rx_loop r)"
    "rx_work r' = map WCall cs @ ws" "quiet (rx_server r) (rx_server r')"
    "image_mset callback (mset (timers (rx_timers r')) + (case w of WTimer t \<Rightarrow> work_timers w | _ \<Rightarrow> {#})) =
       image_mset callback (mset (timers (rx_timers r)) + work_timers w) +
       (case w of WCall c \<Rightarrow> api_timers c | _ \<Rightarrow> {#})"
proof -
  let ?r = "r\<lparr>rx_work := ws\<rparr>"
  have d: "rx_data valid ?r" using assms(1,2) by (simp add: rx_data_def own_channels_def)
  have mv: "moves valid r r'" if "moves valid ?r r'" "\<And>ts now. w \<noteq> WReset ts now" for r'
    using that assms(2) by (auto simp: moves_def resetting_def)
  show ?thesis
  proof (cases w)
    case (WCall c)
    have "call_ok ?r c" using assms(1,2) WCall by (simp add: rx_data_def)
    moreover have "work_fits env ?r (WCall c)" using assms(3) WCall by (auto simp: send_fits_def split: api_call.splits)
    ultimately obtain r' cs where "rx_call valid body env c ?r = Inr r'" "moves valid ?r r'" "rx_loop r' = api_loop c (rx_loop ?r)"
      "rx_work r' = map WCall cs @ rx_work ?r" "quiet (rx_server ?r) (rx_server r')"
      "image_mset callback (mset (timers (rx_timers r'))) = image_mset callback (mset (timers (rx_timers ?r))) + api_timers c"
      by (rule rx_call_ok [OF d _ _ assms(4)])
    with WCall mv show ?thesis by (intro that [of r' cs]) simp_all
  next
    case (WTimer t)
    have "call_ok ?r c" if "c \<in> set (body (callback t) ?r)" for c
      using that assms(4) unfolding body_ok_def by blast
    then have "call_ok ?r c" if "WCall c \<in> set (map WCall (body (callback t) ?r))" for c using that by auto
    then have "moves valid ?r (?r\<lparr>rx_work := map WCall (body (callback t) ?r) @ rx_work ?r\<rparr>)" by (rule moves_work [OF d])
    with WTimer mv show ?thesis
      by (intro that [of "?r\<lparr>rx_work := map WCall (body (callback t) ?r) @ rx_work ?r\<rparr>" "body (callback t) ?r"]) simp_all
  next
    case (WReset ts now)
    let ?q = "(rx_timers r)\<lparr>calling_expired_timers := False\<rparr>"
    have "tq_inv ?q" "list_all (restart_range now) ts" "date_range (clock env)"
      using assms(1,3) WReset by (simp_all add: rx_data_def tq_inv_def)
    then obtain q where q: "tq_reset True ts now (clock env) ?q = Inr q" "tq_inv q" "tq_armed q"
      "mset (timers q) = mset (timers ?q) + mset (map (restarted now) (filter repeat ts))"
      using tq_reset_ok by metis
    have "moves valid r (?r\<lparr>rx_timers := q\<rparr>)"
      using assms(1,2) q(2,3) by (auto simp: moves_def rx_data_def intro: steady_refl)
    with WReset q show ?thesis
      by (intro that [of "?r\<lparr>rx_timers := q\<rparr>" "[]"]) (simp_all add: multiset.map_comp comp_def)
  qed
qed

section \<open>Dispatch\<close>

lemma rx_io_server:
  assumes "cb \<noteq> Some TimerCb" and "cb \<noteq> Some WakeCb"
  shows "run_cb (rx_io valid user env) cb r =
    bind_res (run_cb (io_call valid user (io env)) cb (rx_server r)) (\<lambda>s. Inr (r\<lparr>rx_server := s\<rparr>))"
  using assms by (cases cb) (auto simp: run_cb_def rx_io_def split: io_callback.splits)

text \<open>The channels of the server, and the two of the loop.\<close>

lemma dispatch_plain:
  assumes "rx_heap r q = Some ch" and "tie ch = None" and "error_callback ch = None"
  shows "rx_dispatch valid user env q r =
    bind_res (if revents ch AND (POLLIN OR POLLPRI OR POLLRDHUP) \<noteq> 0
              then run_cb (rx_io valid user env) (read_callback ch) r else Inr r) (\<lambda>r.
    if revents (the (rx_heap r q)) AND POLLOUT \<noteq> 0
    then run_cb (rx_io valid user env) (write_callback (the (rx_heap r q))) r else Inr r)"
  using assms by (simp add: rx_dispatch_def handle_event_def handle_event_safely_def run_cb_def)

lemma dispatch_server:
  assumes "sv_inv valid (rx_server r)" and "rx_heap r q = Some ch" and "\<not> loop_owned ch"
    and "read_stage valid user (io env) q (rx_server r) = Inr s" and "sv_inv valid s" and "heap (sv_poller s) q \<noteq> None"
  shows "rx_dispatch valid user env q r =
    bind_res (handle_channel valid user (io env) q (rx_server r)) (\<lambda>s. Inr (r\<lparr>rx_server := s\<rparr>))"
proof -
  note c = sv_channel_callbacks [OF assms(1,2)]
  obtain ch' where ch': "heap (sv_poller s) q = Some ch'" using assms(6) by auto
  note w = sv_channel_callbacks(3) [OF assms(5) ch']
  have "(if revents ch AND (POLLIN OR POLLPRI OR POLLRDHUP) \<noteq> 0
      then run_cb (rx_io valid user env) (read_callback ch) r else Inr r) = Inr (r\<lparr>rx_server := s\<rparr>)"
    using assms(2,4) c(4) [OF assms(3)] by (auto simp: read_stage_def rx_io_server Let_def split: if_splits)
  moreover have "handle_channel valid user (io env) q (rx_server r) = write_stage valid user (io env) q s"
    using handle_stages [OF assms(1)] assms(2,4) by simp
  ultimately show ?thesis
    using ch' w by (simp only: dispatch_plain [OF assms(2) c(1,2)] bind_res_simps) (simp add: rx_io_server write_stage_def)
qed

lemma dispatch_watched:
  assumes "rx_heap r q = Some ((watched_channel cb fd)\<lparr>revents := v\<rparr>)"
    and "\<And>r'. rx_io valid user env cb r = Inr r' \<Longrightarrow> rx_heap r' q = rx_heap r q"
  shows "rx_dispatch valid user env q r =
    (if v AND (POLLIN OR POLLPRI OR POLLRDHUP) \<noteq> 0 then rx_io valid user env cb r else Inr r)"
proof (cases "rx_io valid user env cb r")
  case (Inr r')
  with assms show ?thesis by (simp add: rx_dispatch_def handle_event_def handle_event_safely_def run_cb_def)
qed (use assms(1) in \<open>simp add: rx_dispatch_def handle_event_def handle_event_safely_def run_cb_def\<close>)

lemma fired_timers: "sum_list (map work_timers (map WTimer ts)) + filter_mset repeat (mset ts) = mset ts"
  by (induction ts) auto

definition dispatched :: "(int \<Rightarrow> bool) \<Rightarrow> turn \<Rightarrow> reactor \<Rightarrow> reactor \<Rightarrow> bool" where
  "dispatched valid env r r' \<longleftrightarrow> moves valid r r' \<and> (no_write_fails env \<longrightarrow> quiet (rx_server r) (rx_server r')) \<and>
     (\<forall>fd. queue_msgs (rx_server r') fd = queue_msgs (rx_server r) fd) \<and>
     mset (timers (rx_timers r')) + sum_list (map work_timers (rx_work r')) =
       mset (timers (rx_timers r)) + sum_list (map work_timers (rx_work r))"

lemma dispatched_same: "rx_data valid r \<Longrightarrow> dispatched valid env r (r\<lparr>rx_loop := l\<rparr>)"
  by (simp add: dispatched_def moves_same)

lemma dispatch_timer:
  assumes "rx_data valid r"
  shows "\<exists>r'. rx_dispatch valid user env (fst (rx_timer r)) r = Inr r' \<and> dispatched valid (io env) r r' \<and> rx_loop r' = rx_loop r"
proof -
  have i: "tq_inv (rx_timers r)" and o: "own_channels r" using assms by (simp_all add: rx_data_def)
  obtain fired rest where q: "tq_begin (clock env) (rx_timers r) =
      Inr (fired, (rx_timers r)\<lparr>armed := None, timers := rest, calling_expired_timers := True\<rparr>)"
    "mset fired = filter_mset (\<lambda>t. due t < clock env) (mset (timers (rx_timers r)))"
    "mset rest = filter_mset (\<lambda>t. \<not> due t < clock env) (mset (timers (rx_timers r)))"
    "tq_inv ((rx_timers r)\<lparr>armed := None, timers := rest, calling_expired_timers := True\<rparr>)"
    by (rule tq_begin_ok [OF i])
  let ?r' = "r\<lparr>rx_timers := (rx_timers r)\<lparr>armed := None, timers := rest, calling_expired_timers := True\<rparr>,
      rx_work := map WTimer fired @ WReset fired (clock env) # rx_work r\<rparr>"
  have io: "rx_io valid user env TimerCb r = Inr ?r'" using q(1) by (simp add: rx_io_def)
  obtain v where h: "rx_heap r (fst (rx_timer r)) = Some ((watched_channel TimerCb (snd (rx_timer r)))\<lparr>revents := v\<rparr>)"
    using o by (auto simp: own_channels_def)
  have "mset rest + (sum_list (map work_timers (map WTimer fired)) + (filter_mset repeat (mset fired))) =
      mset (timers (rx_timers r))"
    unfolding fired_timers unfolding q(2,3) by (metis add.commute multiset_partition)
  then have "mset (timers (rx_timers ?r')) + sum_list (map work_timers (rx_work ?r')) =
      mset (timers (rx_timers r)) + sum_list (map work_timers (rx_work r))"
    by (simp add: add.assoc [symmetric])
  moreover have "moves valid r ?r'"
    using assms q(4) by (auto simp: moves_def rx_data_def resetting_def intro: steady_refl)
  ultimately have "dispatched valid (io env) r ?r'" by (simp add: dispatched_def)
  with dispatch_watched [OF h, of valid user env] io dispatched_same [OF assms, of "io env" "rx_loop r"] show ?thesis
    by (auto split: if_splits)
qed

lemma readable_mask:
  fixes x :: "32 word"
  assumes "x AND POLLIN \<noteq> 0"
  shows "x AND (POLLIN OR POLLPRI OR POLLRDHUP) \<noteq> 0"
proof
  assume "x AND (POLLIN OR POLLPRI OR POLLRDHUP) = 0"
  then have "(x AND (POLLIN OR POLLPRI OR POLLRDHUP)) AND POLLIN = 0" by simp
  moreover have "(x AND (POLLIN OR POLLPRI OR POLLRDHUP)) AND POLLIN = x AND POLLIN"
    by (simp add: bit_eq_iff bit_simps) blast
  ultimately show False using assms by simp
qed

lemma dispatch_wake:
  assumes "rx_data valid r" and "wake_readable r"
  shows "rx_dispatch valid user env (fst (rx_wake r)) r = Inr (r\<lparr>rx_loop := wake_up_read (rx_loop r)\<rparr>)"
proof -
  obtain v where h: "rx_heap r (fst (rx_wake r)) = Some ((watched_channel WakeCb (snd (rx_wake r)))\<lparr>revents := v\<rparr>)"
    using assms(1) by (auto simp: rx_data_def own_channels_def)
  then have "v AND POLLIN \<noteq> 0" using assms(2) by (simp add: wake_readable_def)
  with dispatch_watched [OF h, of valid user env] readable_mask show ?thesis by (auto simp: rx_io_def)
qed

lemma dispatch_ok:
  assumes "rx_data valid r" and "user_bounded user" and "rx_heap r q \<noteq> None" and "turn_at valid (io env) q (rx_server r)"
    and "q = fst (rx_wake r) \<longrightarrow> wake_readable r"
  obtains r' where "rx_dispatch valid user env q r = Inr r'" "dispatched valid (io env) r r'"
    "rx_loop r' = (if q = fst (rx_wake r) then wake_up_read (rx_loop r) else rx_loop r)"
proof -
  have o: "own_channels r" and i: "sv_inv valid (rx_server r)" using assms(1) by (simp_all add: rx_data_def)
  obtain ch where ch: "rx_heap r q = Some ch" using assms(3) by auto
  consider "q = fst (rx_wake r)" | "q = fst (rx_timer r)" "q \<noteq> fst (rx_wake r)"
    | "\<not> loop_owned ch" "q \<noteq> fst (rx_wake r)" using o ch by (auto simp: own_channels_def)
  then show ?thesis
  proof cases
    case 1
    with dispatch_wake [OF assms(1)] assms(5) dispatched_same [OF assms(1)] that show ?thesis by auto
  next
    case 2
    with dispatch_timer [OF assms(1), of user env] that show ?thesis by auto
  next
    case 3
    obtain s where s: "read_stage valid user (io env) q (rx_server r) = Inr s" "good_next valid (io env) q (rx_server r) s"
      using read_stage_ok [OF i assms(2-4)] by blast
    then have "sv_inv valid s" "heap (sv_poller s) q \<noteq> None" using assms(3) by (simp_all add: good_next_def keeps_def)
    note d = dispatch_server [OF i ch 3(1) s(1) this]
    obtain t where t: "handle_channel valid user (io env) q (rx_server r) = Inr t" "good_next valid (io env) q (rx_server r) t"
      using handle_any [OF i assms(2-4)] by blast
    have "dispatched valid (io env) r (r\<lparr>rx_server := t\<rparr>)"
      using moves_server [OF assms(1) good_next_steady [OF t(2)]] t(2) by (simp add: dispatched_def good_next_def quiet_def)
    with d t(1) 3(2) that show ?thesis by simp
  qed
qed

section \<open>Polling\<close>

lemma own_channels_revents:
  assumes "own_channels r" and "revents_only (sv_poller (rx_server r)) p"
  shows "own_channels (r\<lparr>rx_server := (rx_server r)\<lparr>sv_poller := p\<rparr>\<rparr>)"
proof -
  have h: "\<exists>v. heap p q = map_option (\<lambda>c. c\<lparr>revents := v\<rparr>) (rx_heap r q)" for q
    using assms(2) by (simp add: revents_only_def)
  have "q = fst (rx_timer r) \<or> q = fst (rx_wake r)" if x: "heap p q = Some ch" "loop_owned ch" for q ch
  proof -
    obtain b v where "rx_heap r q = Some b" "ch = b\<lparr>revents := v\<rparr>"
      using h [of q] x(1) by (cases "rx_heap r q") auto
    with assms(1) x(2) show ?thesis by (auto simp: own_channels_def loop_owned_def)
  qed
  with assms(1) h [of "fst (rx_timer r)"] h [of "fst (rx_wake r)"] show ?thesis
    by (auto simp: own_channels_def)
qed

lemma rx_poll_ok:
  assumes "rx_data valid r" and "poll_fits result r"
  obtains as p where "rx_poll result r =
      Inr (as, r\<lparr>rx_server := (rx_server r)\<lparr>sv_poller := p\<rparr>, rx_loop := poll_returned as (rx_loop r)\<rparr>)"
    "rx_data valid (r\<lparr>rx_server := (rx_server r)\<lparr>sv_poller := p\<rparr>\<rparr>)"
    "\<And>a. a \<in> set as \<Longrightarrow> heap p (chan_of (fst (rx_wake r)) a) \<noteq> None \<and> a \<noteq> ActChannel (fst (rx_wake r))"
    "ActWakeUp \<in> set as \<Longrightarrow> 0 < wake_count (rx_loop r) \<and> revents (the (heap p (fst (rx_wake r)))) AND POLLIN \<noteq> 0"
proof -
  let ?s = "rx_server r" and ?p = "sv_poller (rx_server r)" and ?w = "fst (rx_wake r)"
  have d: "sv_inv valid ?s" "own_channels r" "poller_inv ?p" "0 < event_list_size ?p"
    using assms(1) sv_inv_poller by (auto simp: rx_data_def sv_inv_def)
  show ?thesis
  proof (cases result)
    case None
    with that [of "[]" ?p] assms(1) show ?thesis by (simp add: rx_poll_def poll_def)
  next
    case (Some evs)
    have e: "\<forall>e \<in> set evs. \<exists>fd ev. interests ?p fd = Some (ev, snd e)" "distinct (map snd evs)" "length evs \<le> event_list_size ?p"
      and w: "\<And>e. e \<in> set evs \<Longrightarrow> snd e = ?w \<Longrightarrow> 0 < wake_count (rx_loop r) \<and> fst e AND POLLIN \<noteq> 0"
      using assms(2) Some by (auto simp: poll_fits_def)
    obtain p where p: "poll (Some evs) ?p = Inr (map snd evs, p)" "revents_only ?p p"
      "distinct (map snd evs) \<longrightarrow> (\<forall>(ev, q) \<in> set evs. map_option revents (heap p q) = Some ev)"
      "event_list_size p = (if length evs = event_list_size ?p then 2 * event_list_size ?p else event_list_size ?p)"
      using poll_ok [OF d(3) e(1,3) d(4)] by blast
    have "0 < event_list_size p" using p(4) d(4) by simp
    note v = sv_inv_revents [OF d(1) p(2) this]
    have data: "rx_data valid (r\<lparr>rx_server := ?s\<lparr>sv_poller := p\<rparr>\<rparr>)"
    proof -
      have "call_ok (r\<lparr>rx_server := ?s\<lparr>sv_poller := p\<rparr>\<rparr>) c = call_ok r c" for c by (cases c) simp_all
      with assms(1) v(1) own_channels_revents [OF d(2) p(2)] show ?thesis by (simp add: rx_data_def)
    qed
    let ?as = "map (active_of ?w) (map snd evs)"
    have act: "heap p (chan_of ?w a) \<noteq> None \<and> a \<noteq> ActChannel ?w" if a: "a \<in> set ?as" for a
    proof -
      obtain x where x: "x \<in> set evs" "a = active_of ?w (snd x)" using a by auto
      then have "heap ?p (snd x) \<noteq> None" using e(1) d(3) by (force simp: poller_inv_def)
      with x(2) show ?thesis by (auto simp: v(2) active_of_def chan_of_def)
    qed
    have wk: "0 < wake_count (rx_loop r) \<and> revents (the (heap p ?w)) AND POLLIN \<noteq> 0" if a: "ActWakeUp \<in> set ?as"
    proof -
      obtain ev where ev: "(ev, ?w) \<in> set evs" using a by (auto simp: active_of_def split: if_splits)
      then have "map_option revents (heap p ?w) = Some ev" using p(3) e(2) by auto
      with w [OF ev] show ?thesis by auto
    qed
    have "rx_poll result r = Inr (?as, r\<lparr>rx_server := ?s\<lparr>sv_poller := p\<rparr>, rx_loop := poll_returned ?as (rx_loop r)\<rparr>)"
      using Some p(1) by (simp add: rx_poll_def Let_def)
    then show ?thesis using data by (rule that) (erule act, erule wk)
  qed
qed

section \<open>The steps of the loop's thread\<close>

lemma set_pc_simps [simp]:
  "rx_server (set_pc p r) = rx_server r" "rx_timers (set_pc p r) = rx_timers r" "rx_work (set_pc p r) = rx_work r"
  "rx_timer (set_pc p r) = rx_timer r" "rx_wake (set_pc p r) = rx_wake r"
  "rx_loop (set_pc p r) = (rx_loop r)\<lparr>el_pc := p\<rparr>"
  by (simp_all add: set_pc_def)

lemma pc_same [simp]:
  "rx_data valid (set_pc p r) = rx_data valid r" "moves valid (set_pc p r) r' = moves valid r r'"
  "dispatched valid env (set_pc p r) r' = dispatched valid env r r'" "wake_readable (set_pc p r) = wake_readable r"
  "func_ok (set_pc p r) f = func_ok r f" "exec_fits env' (set_pc p r) f = exec_fits env' r f"
  by (simp_all add: set_pc_def rx_data_def own_channels_def moves_def resetting_def dispatched_def wake_readable_def)
    (cases f; simp add: send_fits_def)

lemma dispatch_step:
  assumes "rx_inv valid r" and "user_bounded user" and "rx_pc r = EHandling (a # as)"
    and "turn_at valid (io env) (chan_of (fst (rx_wake r)) a) (rx_server r)"
  shows "\<exists>r'. rx_dispatch valid user env (chan_of (fst (rx_wake r)) a) (set_pc (EHandling as) r) = Inr r' \<and>
    dispatched valid (io env) r r' \<and>
    rx_loop r' = (if a = ActWakeUp then wake_up_read (rx_loop r) else rx_loop r)\<lparr>el_pc := EHandling as\<rparr>"
proof -
  let ?w = "fst (rx_wake r)" and ?r = "set_pc (EHandling as) r"
  have d: "rx_data valid ?r" and c: "rx_control r" using assms(1) by (simp_all add: rx_inv_def)
  have a: "rx_heap r (chan_of ?w a) \<noteq> None" "a \<noteq> ActChannel ?w" "a = ActWakeUp \<longrightarrow> wake_readable r"
    using c assms(3) by (auto simp: rx_control_def)
  then have q: "chan_of ?w a = ?w \<longleftrightarrow> a = ActWakeUp" by (auto simp: chan_of_def split: active.split)
  obtain r' where "rx_dispatch valid user env (chan_of ?w a) ?r = Inr r'" "dispatched valid (io env) ?r r'"
    "rx_loop r' = (if chan_of ?w a = fst (rx_wake ?r) then wake_up_read (rx_loop ?r) else rx_loop ?r)"
    by (rule dispatch_ok [OF d assms(2), of "chan_of ?w a" env]) (use a q assms(4) in auto)
  with q show ?thesis by (auto simp: wake_up_read_def)
qed

lemma func_step:
  assumes "rx_inv valid r" and "body_ok body" and "rx_pc r = ERunning (f # fs)" and "exec_fits env r f"
  shows "\<exists>r'. rx_exec valid body ByQueue env f (set_pc (ERunning fs) r) = Inr r' \<and> moves valid r r' \<and>
    rx_loop r' = (rx_loop r)\<lparr>el_pc := ERunning fs\<rparr> \<and> rx_work r' = exec_work body f (set_pc (ERunning fs) r) @ rx_work r \<and>
    delivers ByQueue f (rx_server r) (rx_server r') \<and>
    mset (timers (rx_timers r')) = mset (timers (rx_timers r)) + exec_adds f"
proof -
  have "rx_data valid (set_pc (ERunning fs) r)" using assms(1) by (simp add: rx_inv_def)
  moreover have "func_ok (set_pc (ERunning fs) r) f"
    using assms(1,3) by (simp add: rx_inv_def rx_control_def rx_line_def)
  moreover have "exec_fits env (set_pc (ERunning fs) r) f" using assms(4) by simp
  ultimately show ?thesis using assms(2) by (rule rx_exec_ok [where who = ByQueue]) simp
qed

lemma rx_inv_next:
  assumes "rx_inv valid r" and "moves valid r r'" and "el_inv (rx_loop r')"
    and "set (rx_line r') \<subseteq> set (rx_line r) \<union> {f. func_ok r f}" and "set (handling r') \<subseteq> set (handling r)"
    and "rx_work r' \<noteq> [] \<longrightarrow> rx_pc r' \<noteq> ETest \<and> rx_pc r' \<noteq> EPoll"
  shows "rx_inv valid r'"
proof -
  have "rx_data valid r" "rx_control r" "tq_armed (rx_timers r) \<or> resetting r" using assms(1) by (simp_all add: rx_inv_def)
  with moves_data [OF this(1) assms(2)] moves_control [OF this(1,2) assms(2,4-6)] assms(2,3) show ?thesis
    by (auto simp: rx_inv_def moves_def)
qed

text \<open>The step of \<open>Event_Loop\<close> that a step of the reactor is, if it changes the loop.\<close>

fun rx_abs :: "rx_act \<Rightarrow> rx_func el_act option" where
  "rx_abs (OtherCall c env f) = Some (OtherPush f)"
| "rx_abs OtherWrites = Some OtherWakeUp"
| "rx_abs OtherQuits = Some OtherSetQuit"
| "rx_abs (OwnCall c) = None"
| "rx_abs Enter = Some EnterLoop"
| "rx_abs Test = Some TestQuit"
| "rx_abs (Polled result as) = Some (PollReturns as)"
| "rx_abs (Dispatched env a) = Some (HandleActive a)"
| "rx_abs Swapped = Some HandledAll"
| "rx_abs (RunFunc env f) = Some (StartFunc f)"
| "rx_abs (Worked env (WCall ApiSetQuit)) = Some (Call CallSetQuit)"
| "rx_abs (Worked env (WCall (ApiQueueInLoop n))) = Some (Call (CallQueueInLoop (FUser n)))"
| "rx_abs (Worked env w) = None"
| "rx_abs Done = Some FuncsDone"

lemma with_loop_simps [simp]:
  "rx_loop (with_loop g r) = g (rx_loop r)" "rx_work (with_loop g r) = rx_work r"
  "rx_server (with_loop g r) = rx_server r" "rx_timers (with_loop g r) = rx_timers r"
  "rx_loop (rx_push f r) = (push_func f (rx_loop r))\<lparr>writers := Suc (writers (rx_loop r))\<rparr>"
  "rx_work (rx_push f r) = rx_work r" "rx_server (rx_push f r) = rx_server r" "rx_timers (rx_push f r) = rx_timers r"
  by (simp_all add: with_loop_def rx_push_def)

lemma make_loop: "rx_make env c r = Inr (f, r') \<Longrightarrow> rx_loop r' = rx_loop r \<and> rx_server r' = rx_server r \<and> rx_work r' = rx_work r"
  by (cases c) (auto simp: bind_res_Inr_iff Let_def split: prod.splits)

lemma worked_abs:
  "rx_abs (Worked env w) = (case w of WCall c \<Rightarrow>
     (case c of ApiSetQuit \<Rightarrow> Some (Call CallSetQuit) | ApiQueueInLoop n \<Rightarrow> Some (Call (CallQueueInLoop (FUser n))) | _ \<Rightarrow> None)
     | _ \<Rightarrow> None)"
  by (simp split: rx_work.split api_call.split)

lemma rx_step_sim:
  assumes "rx_inv valid r" and "user_bounded user" and "body_ok body" and "rx_step valid user body r a r'"
  shows "case rx_abs a of None \<Rightarrow> rx_loop r' = rx_loop r | Some b \<Rightarrow> el_step (rx_loop r) b (rx_loop r')"
  using assms(4)
proof (cases rule: rx_step.cases)
  case (rx_other_call c env f r1)
  with make_loop show ?thesis by (simp add: step_simps)
next
  case (rx_polled result as)
  have "rx_data valid r" using assms(1) by (simp add: rx_inv_def)
  then obtain as' p where "rx_poll result r =
      Inr (as', r\<lparr>rx_server := (rx_server r)\<lparr>sv_poller := p\<rparr>, rx_loop := poll_returned as' (rx_loop r)\<rparr>)"
    "ActWakeUp \<in> set as' \<Longrightarrow> 0 < wake_count (rx_loop r)"
    by (rule rx_poll_ok [OF _ rx_polled(3)]) blast
  with rx_polled show ?thesis by (auto simp: step_simps)
next
  case (rx_dispatched a as env)
  with dispatch_step [OF assms(1,2) rx_dispatched(2) rx_dispatched(4)] show ?thesis
    by (cases a) (auto simp: step_simps)
next
  case (rx_run_func f fs env)
  with func_step [OF assms(1,3) rx_run_func(2,4)] show ?thesis by (auto simp: step_simps)
next
  case (rx_worked w ws env)
  have d: "rx_data valid r" and "rx_pc r \<noteq> ETest" "rx_pc r \<noteq> EPoll"
    using assms(1) rx_worked(2) by (auto simp: rx_inv_def rx_control_def)
  moreover obtain s where "rx_work_step valid body env w (r\<lparr>rx_work := ws\<rparr>) = Inr s"
    "rx_loop s = (case w of WCall c \<Rightarrow> api_loop c (rx_loop r) | _ \<Rightarrow> rx_loop r)"
    by (rule rx_work_step_ok [OF d rx_worked(2,3) assms(3)])
  ultimately show ?thesis
    using rx_worked by (auto simp: step_simps worked_abs api_loop_def split: rx_work.splits api_call.splits)
qed (use assms(1) in \<open>auto simp: step_simps\<close>)

section \<open>What a step keeps and adds\<close>

fun started_by :: "rx_act \<Rightarrow> rx_func list" where
  "started_by (RunFunc env f) = [f]"
| "started_by a = []"

fun writes_fail :: "rx_act \<Rightarrow> bool" where
  "writes_fail (Dispatched env a) = (\<not> no_write_fails (io env))"
| "writes_fail a = False"

text \<open>The timers made by an action, and those that fire once and now ran, by callback.\<close>

fun made :: "rx_act \<Rightarrow> nat multiset" where
  "made (OtherCall c env f) = api_timers c"
| "made (Worked env (WCall c)) = api_timers c"
| "made a = {#}"

fun ran_once :: "rx_act \<Rightarrow> nat multiset" where
  "ran_once (Worked env (WTimer t)) = (if repeat t then {#} else {#callback t#})"
| "ran_once a = {#}"

definition rx_next :: "(int \<Rightarrow> bool) \<Rightarrow> rx_act \<Rightarrow> reactor \<Rightarrow> reactor \<Rightarrow> bool" where
  "rx_next valid a r r' \<longleftrightarrow> rx_inv valid r' \<and> grows (rx_server r) (rx_server r') \<and>
     (\<not> writes_fail a \<longrightarrow> stream_ok (rx_server r) \<longrightarrow> stream_ok (rx_server r')) \<and>
     (\<forall>fd. queue_msgs (rx_server r') fd =
        queue_msgs (rx_server r) fd @ concat (map (delivered (rx_server r) fd) (started_by a))) \<and>
     rx_held r' + ran_once a = rx_held r + made a"

lemma sim_el_inv:
  assumes "rx_inv valid r" and "case b of None \<Rightarrow> rx_loop r' = rx_loop r | Some b \<Rightarrow> el_step (rx_loop r) b (rx_loop r')"
  shows "el_inv (rx_loop r')"
  using assms by (auto simp: rx_inv_def intro: el_step_inv split: option.splits)

lemma rx_next_loop:
  assumes "rx_inv valid r" and "el_inv l" and "swapped_out (el_pc l) @ funcs l = rx_line r"
    and "(case el_pc l of EHandling as \<Rightarrow> set as | _ \<Rightarrow> {}) \<subseteq> set (handling r)"
    and "rx_work r \<noteq> [] \<longrightarrow> el_pc l = rx_pc r" and "ran_once a = {#}" and "made a = {#}" and "started_by a = []"
  shows "rx_next valid a r (r\<lparr>rx_loop := l\<rparr>)"
proof -
  let ?r' = "r\<lparr>rx_loop := l\<rparr>"
  have m: "moves valid r ?r'" using assms(1) by (simp add: rx_inv_def moves_same)
  have line: "rx_line ?r' = rx_line r" using assms(3) by (simp add: rx_line_def)
  have "rx_inv valid ?r'"
  proof (rule rx_inv_next [OF assms(1) m])
    show "set (handling ?r') \<subseteq> set (handling r)"
      using assms(4) by (simp add: handling_def split: el_pc.splits)
    show "rx_work ?r' \<noteq> [] \<longrightarrow> rx_pc ?r' \<noteq> ETest \<and> rx_pc ?r' \<noteq> EPoll"
      using assms(1,5) by (simp add: rx_inv_def rx_control_def)
  qed (use line assms(2) in simp_all)
  with assms(6-8) line show ?thesis by (simp add: rx_next_def rx_held_def)
qed

lemma rx_next_call:
  assumes "rx_inv valid r" and "call_ok r c" and "make_fits env c" and "rx_make env c r = Inr (f, r1)"
    and "el_inv (rx_loop (rx_push f r1))"
  shows "rx_next valid (OtherCall c env f) r (rx_push f r1)"
proof -
  have c: "c \<noteq> ApiSetQuit" "c \<noteq> ApiSetRecv" using assms(4) by auto
  obtain n where n: "r1 = r\<lparr>rx_timers := (rx_timers r)\<lparr>timer_created := n\<rparr>\<rparr>" "func_ok r f"
    "image_mset callback (exec_adds f) = api_timers c"
    by (rule rx_make_ok [OF assms(2,3) c]) (use assms(4) in simp)
  let ?r' = "rx_push f r1"
  have "rx_data valid r" using assms(1) by (simp add: rx_inv_def)
  then have m: "moves valid r ?r'" by (simp add: n(1) rx_push_def moves_def rx_data_def resetting_def steady_refl)
  have line: "rx_line ?r' = rx_line r @ [f]" by (simp add: n(1) rx_push_def rx_line_def push_func_def)
  have pc: "rx_pc ?r' = rx_pc r" "handling ?r' = handling r"
    by (simp_all add: n(1) rx_push_def push_func_def handling_def)
  have "rx_inv valid ?r'"
    by (rule rx_inv_next [OF assms(1) m assms(5)])
      (use n line pc assms(1) in \<open>auto simp: rx_inv_def rx_control_def\<close>)
  with n line show ?thesis by (simp add: rx_next_def rx_held_def rx_push_def)
qed

lemma rx_next_polled:
  assumes "rx_inv valid r" and "rx_pc r = EPoll" and "poll_fits result r" and "rx_poll result r = Inr (as, r')"
    and "el_inv (rx_loop r')"
  shows "rx_next valid (Polled result as) r r'"
proof -
  have i: "rx_data valid r" "rx_control r" "tq_armed (rx_timers r) \<or> resetting r" using assms(1) by (simp_all add: rx_inv_def)
  let ?w = "fst (rx_wake r)"
  obtain p where p: "r' = r\<lparr>rx_server := (rx_server r)\<lparr>sv_poller := p\<rparr>, rx_loop := poll_returned as (rx_loop r)\<rparr>"
    "rx_data valid (r\<lparr>rx_server := (rx_server r)\<lparr>sv_poller := p\<rparr>\<rparr>)"
    "\<And>a. a \<in> set as \<Longrightarrow> heap p (chan_of ?w a) \<noteq> None \<and> a \<noteq> ActChannel ?w"
    "ActWakeUp \<in> set as \<Longrightarrow> 0 < wake_count (rx_loop r) \<and> revents (the (heap p ?w)) AND POLLIN \<noteq> 0"
    by (rule rx_poll_ok [OF i(1) assms(3)]) (use assms(4) in \<open>simp; blast\<close>)
  have line: "rx_line r' = rx_line r" using p(1) assms(2) by (simp add: rx_line_def poll_returned_def)
  have "func_ok r' f = func_ok r f" for f by (cases f) (simp_all add: p(1))
  moreover have "rx_data valid r'" using p(1,2) by (simp add: rx_data_def own_channels_def)
  moreover have "rx_work r = []" using i(2) assms(2) by (auto simp: rx_control_def)
  ultimately have "rx_inv valid r'"
    using i p assms(5) line by (simp add: rx_inv_def rx_control_def handling_def poll_returned_def wake_readable_def resetting_def)
  moreover have "quiet (rx_server r) (rx_server r')" by (rule quiet_same) (simp_all add: p(1))
  ultimately show ?thesis using p(1) line by (simp add: rx_next_def rx_held_def quiet_def grows_def)
qed

lemma rx_next_dispatched:
  assumes "rx_inv valid r" and "user_bounded user" and "rx_pc r = EHandling (a # as)" and "rx_work r = []"
    and "turn_at valid (io env) (chan_of (fst (rx_wake r)) a) (rx_server r)"
    and "rx_dispatch valid user env (chan_of (fst (rx_wake r)) a) (set_pc (EHandling as) r) = Inr r'"
    and "el_inv (rx_loop r')"
  shows "rx_next valid (Dispatched env a) r r'"
proof -
  have d: "dispatched valid (io env) r r'"
    and l: "rx_loop r' = (if a = ActWakeUp then wake_up_read (rx_loop r) else rx_loop r)\<lparr>el_pc := EHandling as\<rparr>"
    using dispatch_step [OF assms(1-3,5)] assms(6) by auto
  have m: "moves valid r r'" using d by (simp add: dispatched_def)
  have line: "rx_line r' = rx_line r" using l assms(3) by (simp add: rx_line_def wake_up_read_def)
  have h: "handling r' = as" "handling r = a # as" "rx_pc r' = EHandling as" using l assms(3) by (simp_all add: handling_def)
  have "rx_inv valid r'" by (rule rx_inv_next [OF assms(1) m assms(7)]) (use line h in auto)
  moreover have "image_mset callback (mset (timers (rx_timers r')) + sum_list (map work_timers (rx_work r'))) =
      image_mset callback (mset (timers (rx_timers r)) + sum_list (map work_timers (rx_work r)))"
    using d by (simp only: dispatched_def)
  ultimately show ?thesis using d line by (simp add: rx_next_def rx_held_def dispatched_def moves_def steady_def quiet_def)
qed

lemma rx_next_func:
  assumes "rx_inv valid r" and "body_ok body" and "rx_pc r = ERunning (f # fs)" and "exec_fits env r f"
    and "rx_exec valid body ByQueue env f (set_pc (ERunning fs) r) = Inr r'" and "el_inv (rx_loop r')"
  shows "rx_next valid (RunFunc env f) r r'"
proof -
  have x: "moves valid r r'" "rx_loop r' = (rx_loop r)\<lparr>el_pc := ERunning fs\<rparr>"
    "rx_work r' = exec_work body f (set_pc (ERunning fs) r) @ rx_work r"
    "delivers ByQueue f (rx_server r) (rx_server r')"
    "mset (timers (rx_timers r')) = mset (timers (rx_timers r)) + exec_adds f"
    using func_step [OF assms(1-4)] assms(5) by auto
  have line: "rx_line r = f # rx_line r'" and h: "handling r' = []" using x(2) assms(3) by (simp_all add: rx_line_def handling_def)
  have "rx_inv valid r'" by (rule rx_inv_next [OF assms(1) x(1) assms(6)]) (use line h x(2) in auto)
  moreover have "sum_list (map work_timers (rx_work r')) = sum_list (map work_timers (rx_work r))"
    unfolding x(3) by (simp add: exec_work_def del: map_map split: rx_func.split)
  ultimately show ?thesis
    using x(1,4,5) line by (simp add: rx_next_def rx_held_def delivers_def moves_def steady_def add_ac)
qed

lemma rx_next_worked:
  assumes "rx_inv valid r" and "body_ok body" and "rx_work r = w # ws" and "work_fits env r w"
    and "rx_work_step valid body env w (r\<lparr>rx_work := ws\<rparr>) = Inr r'" and "el_inv (rx_loop r')"
  shows "rx_next valid (Worked env w) r r'"
proof -
  have d: "rx_data valid r" and pc: "rx_pc r \<noteq> ETest" "rx_pc r \<noteq> EPoll"
    using assms(1,3) by (auto simp: rx_inv_def rx_control_def)
  obtain cs where x: "moves valid r r'" "rx_loop r' = (case w of WCall c \<Rightarrow> api_loop c (rx_loop r) | _ \<Rightarrow> rx_loop r)"
    "rx_work r' = map WCall cs @ ws" "quiet (rx_server r) (rx_server r')"
    "image_mset callback (mset (timers (rx_timers r')) + (case w of WTimer t \<Rightarrow> work_timers w | _ \<Rightarrow> {#})) =
       image_mset callback (mset (timers (rx_timers r)) + work_timers w) + (case w of WCall c \<Rightarrow> api_timers c | _ \<Rightarrow> {#})"
    by (rule rx_work_step_ok [OF d assms(3,4,2)]) (use assms(5) in auto)
  have l: "el_pc (rx_loop r') = rx_pc r" "\<exists>fs. funcs (rx_loop r') = funcs (rx_loop r) @ fs \<and> (\<forall>f \<in> set fs. \<exists>n. f = FUser n)"
    using x(2) by (auto simp: api_loop_def do_call_funcs split: rx_work.splits api_call.splits)
  then obtain fs where fs: "rx_line r' = rx_line r @ fs" "\<forall>f \<in> set fs. \<exists>n. f = FUser n" by (auto simp: rx_line_def)
  have "sum_list (map exec_adds fs) = {#}" using fs(2) by (induction fs) (auto simp: exec_adds_def)
  moreover have "rx_inv valid r'"
    by (rule rx_inv_next [OF assms(1) x(1) assms(6)]) (use fs l(1) pc in \<open>auto simp: handling_def\<close>)
  ultimately show ?thesis
    using x(1,3,4,5) fs(1) assms(3)
    by (cases w) (simp_all add: rx_next_def rx_held_def quiet_def moves_def steady_def add_ac del: map_map split: if_splits)
qed

lemma rx_step_ok:
  assumes "rx_step valid user body r a r'" and "user_bounded user" and "body_ok body" and "rx_inv valid r"
  shows "rx_next valid a r r'"
proof -
  note el = sim_el_inv [OF assms(4) rx_step_sim [OF assms(4,2,3,1)]]
  have d: "rx_data valid r" using assms(4) by (simp add: rx_inv_def)
  from assms(1) show ?thesis
  proof (cases rule: rx_step.cases)
    case (rx_other_call c env f r1)
    with rx_next_call [OF assms(4)] el show ?thesis by simp
  next
    case (rx_own_call c)
    have "rx_inv valid r'"
      by (rule rx_inv_next [OF assms(4)])
        (use rx_own_call d el in \<open>auto simp: moves_def rx_data_def resetting_def rx_line_def handling_def intro: steady_refl\<close>)
    with rx_own_call show ?thesis by (simp add: rx_next_def rx_held_def rx_line_def)
  next
    case (rx_polled result as)
    with rx_next_polled [OF assms(4)] el show ?thesis by simp
  next
    case (rx_dispatched a as env)
    with rx_next_dispatched [OF assms(4,2)] el show ?thesis by simp
  next
    case (rx_run_func f fs env)
    with rx_next_func [OF assms(4,3)] el show ?thesis by simp
  next
    case (rx_worked w ws env)
    with rx_next_worked [OF assms(4,3)] el show ?thesis by simp
  qed (use el assms(4) in \<open>auto simp: with_loop_def rx_line_def handling_def loop_parts wake_up_def set_quit_def
      rx_inv_def rx_control_def intro!: rx_next_loop split: el_pc.splits\<close>)
qed

end
