(* ===== verification/Reactor_Run.thy ===== *)
theory Reactor_Run
  imports Reactor_Inv
begin

text \<open>
  Runs of the reactor from the state its constructors leave: the interfaces of \<open>Traces\<close>
  interpreted on it, and its properties.
\<close>

section \<open>The start\<close>

lemma rx_new_simps [simp]:
  "rx_loop (rx_new created timer wake s) = el_new" "rx_timers (rx_new created timer wake s) = tq_empty created"
  "rx_server (rx_new created timer wake s) = s" "rx_work (rx_new created timer wake s) = []"
  "rx_timer (rx_new created timer wake s) = timer" "rx_wake (rx_new created timer wake s) = wake"
  "rx_line (rx_new created timer wake s) = []"
  by (simp_all add: rx_new_def rx_line_def el_new_def)

lemma rx_new_inv:
  assumes "server_boot valid accepts timer wake sock p addr = Inr s" and "boot_ok valid timer wake sock p"
  shows "rx_inv valid (rx_new created timer wake s)" "stream_ok s" "\<And>fd. asked_of s fd = []"
    "rx_held (rx_new created timer wake s) = {#}" "input_ok s"
proof -
  let ?po = "loop_poller TimerCb WakeCb timer wake" and ?r = "rx_new created timer wake s"
  from server_boot_E [OF assms] obtain s: "s = \<lparr>sv_poller = ?po\<lparr>heap := (heap ?po)(p \<mapsto> read_channel AcceptCb sock)\<rparr>,
      sv_acceptor = \<lparr>ac_sock = sock, ac_addr = addr, ac_chan = p, ac_callback = True\<rparr>, sv_conns = Map.empty,
      sv_recv = False, wire = (\<lambda>fd. []), asked_of = (\<lambda>fd. []), heard = (\<lambda>fd. []), consumed = (\<lambda>fd. [])\<rparr>" and i: "sv_inv valid s" by blast
  have b: "snd timer \<noteq> snd wake" "fst timer \<noteq> fst wake" "p \<noteq> fst timer" "p \<noteq> fst wake"
    using assms(2) by (auto simp: boot_ok_def)
  have h: "heap (sv_poller s) = [fst timer \<mapsto> watched_channel TimerCb (snd timer), fst wake \<mapsto> watched_channel WakeCb (snd wake),
      p \<mapsto> read_channel AcceptCb sock]"
    using loop_poller_fields(1) [OF b(1,2), of TimerCb WakeCb] by (simp add: s)
  have same: "\<exists>v. ch = ch\<lparr>revents := v\<rparr>" for ch :: "io_callback channel"
    by (rule exI [of _ "revents ch"]) simp
  have "\<not> loop_owned (read_channel AcceptCb sock)" by (simp add: loop_owned_def set_read_callback_def)
  then have "own_channels ?r"
    using b h same by (auto simp: own_channels_def split: if_splits)
  then have "rx_data valid ?r" using i by (simp add: rx_data_def tq_inv_def tq_empty_def pq_inv_def)
  then show "rx_inv valid ?r"
    by (simp add: rx_inv_def rx_control_def handling_def el_inv_new tq_armed_def tq_empty_def) (simp add: el_new_def)
  show "stream_ok s" "\<And>fd. asked_of s fd = []" "input_ok s" by (simp_all add: s stream_ok_def input_ok_def)
  show "rx_held ?r = {#}" by (simp add: rx_held_def tq_empty_def)
qed

section \<open>Runs\<close>

interpretation rx: step_preorder "rx_step valid user body" "\<lambda>r. user_bounded user \<and> body_ok body \<and> rx_inv valid r"
    "\<lambda>r r'. grows (rx_server r) (rx_server r')"
  by unfold_locales (use rx_step_ok in \<open>auto simp: rx_next_def intro: grows_trans\<close>)

interpretation rx_sim: step_refines "rx_step valid user body" "\<lambda>r. user_bounded user \<and> body_ok body \<and> rx_inv valid r"
    el_step rx_abs rx_loop
  using rx_step_sim by unfold_locales blast

interpretation rx_timers: step_account "rx_step valid user body" "\<lambda>r. user_bounded user \<and> body_ok body \<and> rx_inv valid r"
    made ran_once rx_held
  by unfold_locales (use rx_step_ok in \<open>auto simp: rx_next_def\<close>)

text \<open>What an action queues.\<close>

fun pushed_by :: "rx_act \<Rightarrow> rx_func list" where
  "pushed_by (OtherCall c env f) = [f]"
| "pushed_by (Worked env (WCall (ApiQueueInLoop n))) = [FUser n]"
| "pushed_by a = []"

lemma abs_line:
  "started_by a = (case rx_abs a of None \<Rightarrow> [] | Some b \<Rightarrow> started b)"
  "pushed_by a = (case rx_abs a of None \<Rightarrow> [] | Some b \<Rightarrow> queued b)"
  "rx_abs a = Some FuncsDone \<longleftrightarrow> a = Done"
  by (cases a rule: rx_abs.cases; simp)+

lemma rx_step_line:
  assumes "rx_inv valid r" and "user_bounded user" and "body_ok body" and "rx_step valid user body r a r'"
  shows "started_by a @ rx_line r' = rx_line r @ pushed_by a"
  using rx_step_sim [OF assms]
  by (auto simp: abs_line rx_line_def dest: el_step_line split: option.splits)

text \<open>The messages for the connection at \<open>this\<close> among functions, and those it has been given.\<close>

definition messages_to :: "nat \<Rightarrow> rx_func list \<Rightarrow> byte list list" where
  "messages_to this fs = concat (map (\<lambda>f. case f of FSend i msg \<Rightarrow> if i = this then [msg] else [] | _ \<Rightarrow> []) fs)"

definition conn_msgs :: "nat \<Rightarrow> reactor \<Rightarrow> byte list list" where
  "conn_msgs this r = (case sv_conns (rx_server r) this of None \<Rightarrow> [] | Some c \<Rightarrow> queue_msgs (rx_server r) (tc_fd c))"

fun other_sends :: "nat \<Rightarrow> rx_act \<Rightarrow> byte list list" where
  "other_sends this (OtherCall (ApiSend i msg) env f) = (if i = this then [msg] else [])"
| "other_sends this a = []"

definition silent :: "tcp_server \<Rightarrow> bool" where
  "silent s \<longleftrightarrow> (\<forall>fd. \<not> has_conn s fd \<longrightarrow> queue_msgs s fd = [])"

lemma messages_to_simps [simp]:
  "messages_to this [] = []" "messages_to this (fs @ gs) = messages_to this fs @ messages_to this gs"
  by (simp_all add: messages_to_def)

lemma has_conn_grows: "grows s t \<Longrightarrow> has_conn s fd \<Longrightarrow> has_conn t fd"
  unfolding grows_def has_conn_def by metis

lemma delivered_no_conn: "\<not> has_conn s fd \<Longrightarrow> delivered s fd f = []"
  by (auto simp: delivered_def has_conn_def split: rx_func.splits)

lemma conn_msgs_step:
  assumes "rx_step valid user body r a r'" and "user_bounded user" and "body_ok body" and "rx_inv valid r" and "silent (rx_server r)"
  shows "silent (rx_server r')" "conn_msgs this r' = conn_msgs this r @ messages_to this (started_by a)"
proof -
  let ?s = "rx_server r" and ?t = "rx_server r'"
  have n: "grows ?s ?t" "sv_inv valid ?t" "sv_inv valid ?s"
    "\<And>fd. queue_msgs ?t fd = queue_msgs ?s fd @ concat (map (delivered ?s fd) (started_by a))"
    using rx_step_ok [OF assms(1-4)] assms(4) by (simp_all add: rx_next_def rx_inv_def rx_data_def)
  have none: "queue_msgs ?t fd = []" if "\<not> has_conn ?s fd" for fd
    using that assms(5) n(4) by (simp add: silent_def delivered_no_conn)
  then show "silent ?t" using has_conn_grows [OF n(1)] by (auto simp: silent_def)
  have ok: "func_ok r f" if f: "f \<in> set (started_by a)" for f
  proof -
    obtain env where "a = RunFunc env f" using f by (cases a) auto
    then have "f \<in> set (rx_line r)" using assms(1) by (auto simp: step_simps rx_line_def)
    with assms(4) show ?thesis by (simp add: rx_inv_def rx_control_def)
  qed
  have d: "distinct_conns (sv_conns ?s)" "distinct_conns (sv_conns ?t)" using n(2,3) by (simp_all add: sv_inv_def)
  show "conn_msgs this r' = conn_msgs this r @ messages_to this (started_by a)"
  proof (cases "sv_conns ?s this")
    case None
    have "messages_to this (started_by a) = []"
      using ok None by (fastforce simp: messages_to_def split: rx_func.splits)
    moreover have "\<not> has_conn ?s (tc_fd c)" if c: "sv_conns ?t this = Some c" for c
    proof
      assume "has_conn ?s (tc_fd c)"
      then obtain i b where b: "sv_conns ?s i = Some b" "tc_fd b = tc_fd c" by (auto simp: has_conn_def)
      then obtain e where "sv_conns ?t i = Some e" "tc_fd e = tc_fd c" using n(1) unfolding grows_def by metis
      moreover have "i \<noteq> this" using b(1) None by auto
      ultimately show False using distinct_connsD [OF d(2) _ c] by auto
    qed
    ultimately show ?thesis using None none by (simp add: conn_msgs_def split: option.split)
  next
    case (Some c)
    then obtain e where e: "sv_conns ?t this = Some e" "tc_fd e = tc_fd c" using n(1) unfolding grows_def by metis
    have "map_option tc_fd (sv_conns ?s i) = Some (tc_fd c) \<longleftrightarrow> i = this" for i
      using distinct_connsD [OF d(1) _ Some, of i] Some by auto
    then have "delivered ?s (tc_fd c) = (\<lambda>f. case f of FSend i msg \<Rightarrow> if i = this then [msg] else [] | _ \<Rightarrow> [])"
      by (simp add: delivered_def fun_eq_iff split: rx_func.split)
    with Some e n(4) show ?thesis by (simp add: conn_msgs_def messages_to_def)
  qed
qed

lemma pushed_msgs:
  assumes "rx_step valid user body r a r'"
  shows "messages_to this (pushed_by a) = other_sends this a"
  using assms
proof (cases rule: rx_step.cases)
  case (rx_other_call c env f r1)
  then show ?thesis by (cases c) (auto simp: messages_to_def bind_res_Inr_iff Let_def split: prod.splits)
next
  case (rx_worked w ws env)
  then show ?thesis by (cases "(Worked env w)" rule: pushed_by.cases) (auto simp: messages_to_def)
qed (simp_all add: messages_to_def)

interpretation rx_msgs: step_order "rx_step valid user body"
    "\<lambda>r. user_bounded user \<and> body_ok body \<and> rx_inv valid r \<and> silent (rx_server r)"
    "other_sends this" "\<lambda>a. []" "\<lambda>r. conn_msgs this r @ messages_to this (rx_line r)"
proof
  fix r a r'
  assume i: "user_bounded user \<and> body_ok body \<and> rx_inv valid r \<and> silent (rx_server r)" and a: "rx_step valid user body r a r'"
  then have "rx_next valid a r r'" using rx_step_ok by blast
  moreover have m: "silent (rx_server r')" "conn_msgs this r' = conn_msgs this r @ messages_to this (started_by a)"
    using conn_msgs_step [OF a] i by blast+
  ultimately show "user_bounded user \<and> body_ok body \<and> rx_inv valid r' \<and> silent (rx_server r')"
    using i by (simp add: rx_next_def)
  have "messages_to this (started_by a) @ messages_to this (rx_line r') = messages_to this (rx_line r) @ messages_to this (pushed_by a)"
    using rx_step_line [of valid r user body a r'] i a by (metis messages_to_simps(2))
  with m(2) pushed_msgs [OF a] show "[] @ conn_msgs this r' @ messages_to this (rx_line r') =
      (conn_msgs this r @ messages_to this (rx_line r)) @ other_sends this a"
    by simp
qed

interpretation rx_given: step_order "rx_step valid user body"
    "\<lambda>r. user_bounded user \<and> body_ok body \<and> rx_inv valid r \<and> silent (rx_server r)"
    "\<lambda>a. messages_to this (started_by a)" "\<lambda>a. []" "conn_msgs this"
  using conn_msgs_step by unfold_locales simp

text \<open>The stream invariant, as long as no \<open>write\<close> fails.\<close>

lemma run_stream:
  assumes "run (rx_step valid user body) r as r'" and "user_bounded user" and "body_ok body" and "rx_inv valid r"
    and "stream_ok (rx_server r)" and "\<forall>a \<in> set as. \<not> writes_fail a"
  shows "stream_ok (rx_server r')"
  using assms
proof (induction rule: run.induct)
  case (run_cons r a s as r')
  with rx_step_ok [OF run_cons.hyps(1)] show ?case by (simp add: rx_next_def)
qed simp

lemma run_taken:
  assumes "run (rx_step valid user body) r as r'" and "user_bounded user" and "body_ok body" and "rx_inv valid r"
    and "2 \<le> count_list as Done"
  shows "\<exists>later. concat (map started_by as) = rx_line r @ later"
proof -
  have "concat (map started (List.map_filter rx_abs as)) = concat (map started_by as)"
    by (induction as) (simp_all add: List.map_filter_simps abs_line(1) split: option.split)
  moreover have "count_list (List.map_filter rx_abs as) FuncsDone = count_list as Done"
    by (induction as) (auto simp: List.map_filter_simps abs_line(3) split: option.splits)
  ultimately show ?thesis
    using two_turns_take [OF rx_sim.run_sim [OF assms(1)]] assms(2-5) by (simp add: rx_line_def)
qed

section \<open>A run for the examples\<close>

abbreviation demo_env :: rx_env where
  "demo_env \<equiv> \<lparr>io = demo_turn, clock = 1000, listen_ret = 0\<rparr>"

abbreviation demo_step :: "reactor \<Rightarrow> rx_act \<Rightarrow> reactor \<Rightarrow> bool" where
  "demo_step \<equiv> rx_step (\<lambda>fd. True) (\<lambda>e c. []) (\<lambda>n r. [])"

abbreviation demo_boots :: "tcp_server \<Rightarrow> bool" where
  "demo_boots s \<equiv> server_boot (\<lambda>fd. True) (\<lambda>a. True) (10, 4) (11, 5) 3 0 demo_address = Inr s"

lemma demo_user: "user_bounded (\<lambda>e c. [])" "body_ok (\<lambda>n r. [])"
  by (simp_all add: user_bounded_def body_ok_def)

text \<open>The server starts, the loop is entered and the first client is accepted.\<close>

lemma demo_reactor:
  obtains s r u c where "demo_boots s"
    "run demo_step (rx_new 0 (10, 4) (11, 5) s)
       [OwnCall ApiStart, Worked demo_env (WCall ApiStart), Enter, Test, Polled (Some [(POLLIN, 0)]) [ActChannel 0]] r"
    "rx_pc r = EHandling [ActChannel 0]" "rx_wake r = (11, 5)" "turn_at (\<lambda>fd. True) demo_turn 0 (rx_server r)"
    "demo_step r (Dispatched demo_env (ActChannel 0)) ((set_pc (EHandling []) r)\<lparr>rx_server := u\<rparr>)"
    "rx_work r = []" "funcs (rx_loop r) = []" "writers (rx_loop r) = 0" "wake_count (rx_loop r) = 0" "\<not> quit (rx_loop r)"
    "sv_conns u = [9 \<mapsto> c]" "tc_fd c = 8" "tc_chan c = 5" "mb_contents (write_buffer c) = []"
proof -
  let ?v = "\<lambda>fd :: int. True"
  obtain s t p u c where t: "demo_boots s" "server_start ?v 0 s = Inr t" "interests (sv_poller t) 3 = Some (kReadEvent, 0)" "event_list_size (sv_poller t) = 16"
    "poll (Some [(POLLIN, 0)]) (sv_poller t) = Inr ([0], p)" "heap p 0 = Some ((watched_channel AcceptCb 3)\<lparr>revents := POLLIN\<rparr>)"
    "sv_inv ?v (t\<lparr>sv_poller := p\<rparr>)" "turn_at ?v demo_turn 0 (t\<lparr>sv_poller := p\<rparr>)"
    "\<forall>user. handle_channel ?v user demo_turn 0 (t\<lparr>sv_poller := p\<rparr>) = Inr u"
    "sv_conns u = [9 \<mapsto> c]" "tc_fd c = 8" "tc_chan c = 5" "mb_contents (write_buffer c) = []"
    by (rule demo_accept)
  let ?boot = "rx_new 0 (10, 4) (11, 5) s"
  let ?l = "poll_returned [ActChannel 0] (test_quit (enter_loop el_new)) :: rx_func event_loop"
  let ?polled = "?boot\<lparr>rx_server := t\<lparr>sv_poller := p\<rparr>, rx_loop := ?l\<rparr>"
  have f: "poll_fits (Some [(POLLIN, 0)]) (?boot\<lparr>rx_server := t, rx_loop := test_quit (enter_loop el_new)\<rparr>)"
    using t(3,4) by (auto simp: poll_fits_def)
  let ?started = "?boot\<lparr>rx_work := [WCall ApiStart]\<rparr>" and ?listening = "?boot\<lparr>rx_server := t\<rparr>"
  have "demo_step ?boot (OwnCall ApiStart) ?started" by (simp add: step_simps el_new_def)
  moreover have "demo_step ?started (Worked demo_env (WCall ApiStart)) ?listening"
    using t(2) by (simp add: step_simps rx_call_def run_in_loop_def date_range_def)
  moreover have "demo_step ?listening Enter (?listening\<lparr>rx_loop := enter_loop el_new\<rparr>)"
    by (simp add: step_simps with_loop_def el_new_def)
  moreover have "demo_step (?listening\<lparr>rx_loop := enter_loop el_new\<rparr>) Test (?listening\<lparr>rx_loop := test_quit (enter_loop el_new)\<rparr>)"
    by (simp add: step_simps with_loop_def enter_loop_def)
  moreover have "demo_step (?listening\<lparr>rx_loop := test_quit (enter_loop el_new)\<rparr>) (Polled (Some [(POLLIN, 0)]) [ActChannel 0]) ?polled"
    using t(5) f by (simp add: step_simps loop_parts rx_poll_def active_of_def Let_def)
  ultimately have run: "run demo_step ?boot [OwnCall ApiStart, Worked demo_env (WCall ApiStart), Enter, Test,
      Polled (Some [(POLLIN, 0)]) [ActChannel 0]] ?polled"
    by (simp only: run_simps) blast
  have "rx_dispatch ?v (\<lambda>e c. []) demo_env 0 (set_pc (EHandling []) ?polled) = Inr ((set_pc (EHandling []) ?polled)\<lparr>rx_server := u\<rparr>)"
  proof -
    have h: "rx_heap (set_pc (EHandling []) ?polled) 0 = Some ((watched_channel AcceptCb 3)\<lparr>revents := POLLIN\<rparr>)" using t(6) by simp
    have n: "\<not> loop_owned ((watched_channel AcceptCb 3)\<lparr>revents := POLLIN\<rparr>)" by (simp add: loop_owned_def)
    have "sv_inv ?v (rx_server (set_pc (EHandling []) ?polled))" using t(7) by simp
    moreover obtain x where "read_stage ?v (\<lambda>e c. []) (io demo_env) 0 (rx_server (set_pc (EHandling []) ?polled)) = Inr x"
      "good_next ?v demo_turn 0 (t\<lparr>sv_poller := p\<rparr>) x"
      using read_stage_ok [OF t(7) demo_user(1) _ t(8)] t(6) by auto
    ultimately show ?thesis
      using dispatch_server [OF _ h n] t(6,9) by (simp add: good_next_def keeps_def)
  qed
  then have new: "demo_step ?polled (Dispatched demo_env (ActChannel 0)) ((set_pc (EHandling []) ?polled)\<lparr>rx_server := u\<rparr>)"
    using t(8) by (simp add: step_simps chan_of_def poll_returned_def)
  show ?thesis
    by (rule that [OF t(1) run _ _ _ new _ _ _ _ _ t(10-13)]) (use t(8) in \<open>simp_all add: loop_parts el_new_def\<close>)
qed

text \<open>Then another thread sends a message to that client, and the loop turns twice.\<close>

lemma demo_sending:
  obtains s as r c where "demo_boots s" "run demo_step (rx_new 0 (10, 4) (11, 5) s) as r"
    "concat (map (other_sends 9) as) = [[1, 2]]" "\<forall>a \<in> set as. \<not> writes_fail a"
    "sv_conns (rx_server r) 9 = Some c" "mb_contents (write_buffer c) = []" "rx_pc r = EHandling []" "rx_work r = []"
    "funcs (rx_loop r) = [FSend 9 [1, 2]]" "writers (rx_loop r) = 1" "\<not> quit (rx_loop r)"
proof -
  obtain s r u c where r: "demo_boots s"
    "run demo_step (rx_new 0 (10, 4) (11, 5) s)
       [OwnCall ApiStart, Worked demo_env (WCall ApiStart), Enter, Test, Polled (Some [(POLLIN, 0)]) [ActChannel 0]] r"
    "demo_step r (Dispatched demo_env (ActChannel 0)) ((set_pc (EHandling []) r)\<lparr>rx_server := u\<rparr>)"
    "rx_work r = []" "funcs (rx_loop r) = []" "writers (rx_loop r) = 0" "\<not> quit (rx_loop r)"
    "sv_conns u = [9 \<mapsto> c]" "tc_fd c = 8" "mb_contents (write_buffer c) = []"
    by (rule demo_reactor)
  let ?new = "(set_pc (EHandling []) r)\<lparr>rx_server := u\<rparr>"
  let ?as = "[OwnCall ApiStart, Worked demo_env (WCall ApiStart), Enter, Test, Polled (Some [(POLLIN, 0)]) [ActChannel 0]] @
      [Dispatched demo_env (ActChannel 0), OtherCall (ApiSend 9 [1, 2]) demo_env (FSend 9 [1, 2])]"
  let ?sent = "rx_push (FSend 9 [1, 2]) ?new"
  have "demo_step ?new (OtherCall (ApiSend 9 [1, 2]) demo_env (FSend 9 [1, 2])) ?sent"
    using r(8) by (simp add: step_simps)
  with r(3) have run: "run demo_step (rx_new 0 (10, 4) (11, 5) s) ?as ?sent"
    by (intro run_join [OF r(2)]) (simp only: run_simps, blast)
  show ?thesis
    by (rule that [OF r(1) run _ _ _ r(10)]) (use r(4-8) in \<open>simp_all add: no_write_fails_def push_func_def\<close>)
qed

text \<open>From the end of the functions, a turn in which nothing happens.\<close>

lemma idle_turn:
  assumes "rx_pc r = ERunning []" and "rx_work r = []" and "funcs (rx_loop r) = []" and "\<not> quit (rx_loop r)"
  shows "\<exists>t. run demo_step r [Done, Test, Polled None [], Swapped, Done] t"
  using assms by (simp add: step_simps with_loop_def loop_parts poll_fits_def rx_poll_def poll_def Let_def)

lemma demo_sent:
  obtains s as r t c where "demo_boots s" "run demo_step (rx_new 0 (10, 4) (11, 5) s) as r" "rx_line r = [FSend 9 [1, 2]]"
    "run demo_step r [OtherWrites, Swapped, RunFunc demo_env (FSend 9 [1, 2]), Done, Test, Polled None [], Swapped, Done] t"
proof -
  obtain s as r c where r: "demo_boots s" "run demo_step (rx_new 0 (10, 4) (11, 5) s) as r"
    "sv_conns (rx_server r) 9 = Some c" "mb_contents (write_buffer c) = []" "rx_pc r = EHandling []" "rx_work r = []"
    "funcs (rx_loop r) = [FSend 9 [1, 2]]" "writers (rx_loop r) = 1" "\<not> quit (rx_loop r)"
    by (rule demo_sending)
  let ?swapped = "with_loop swap_funcs (with_loop (\<lambda>l. wake_up (l\<lparr>writers := 0\<rparr>)) r)"
  have sw: "run demo_step r [OtherWrites, Swapped] ?swapped"
    using r(5,6,8) by (simp add: step_simps with_loop_def wake_up_def)
  have i: "rx_inv (\<lambda>fd. True) ?swapped"
    using rx.run_inv [OF run_join [OF r(2) sw]] rx_new_inv(1) [OF r(1) demo_boot] demo_user by blast
  have f: "rx_pc ?swapped = ERunning [FSend 9 [1, 2]]" "exec_fits demo_env ?swapped (FSend 9 [1, 2])"
    using r(3,4,7) by (simp_all add: wake_up_def swap_funcs_def send_fits_def room_def)
  obtain x where x: "rx_exec (\<lambda>fd. True) (\<lambda>n r. []) ByQueue demo_env (FSend 9 [1, 2]) (set_pc (ERunning []) ?swapped) = Inr x"
    "rx_loop x = (rx_loop ?swapped)\<lparr>el_pc := ERunning []\<rparr>" "rx_work x = exec_work (\<lambda>n r. []) (FSend 9 [1, 2]) ?swapped @ rx_work ?swapped"
    using func_step [OF i demo_user(2) f] by (auto simp: exec_work_def)
  from x(2,3) have "rx_pc x = ERunning []" "rx_work x = []" "funcs (rx_loop x) = []" "\<not> quit (rx_loop x)"
    using r(6,9) by (simp_all add: exec_work_def wake_up_def swap_funcs_def)
  then obtain t where "run demo_step x [Done, Test, Polled None [], Swapped, Done] t" using idle_turn by blast
  moreover have "demo_step ?swapped (RunFunc demo_env (FSend 9 [1, 2])) x"
    using f x(1) r(6) by (simp add: step_simps)
  ultimately have "run demo_step ?swapped [RunFunc demo_env (FSend 9 [1, 2]), Done, Test, Polled None [], Swapped, Done] t"
    by (simp only: run_simps) blast
  with sw have "run demo_step r ([OtherWrites, Swapped] @
      [RunFunc demo_env (FSend 9 [1, 2]), Done, Test, Polled None [], Swapped, Done]) t"
    by (rule run_join)
  with that [OF r(1,2)] r(5,7) show ?thesis by (simp add: rx_line_def)
qed

section \<open>Properties\<close>

lemma own_interests:
  assumes "rx_data valid r"
  shows "interests (sv_poller (rx_server r)) (snd (rx_timer r)) = Some (kReadEvent, fst (rx_timer r))"
    "interests (sv_poller (rx_server r)) (snd (rx_wake r)) = Some (kReadEvent, fst (rx_wake r))"
proof -
  have "poller_inv (sv_poller (rx_server r))" and o: "own_channels r" using assms sv_inv_poller by (auto simp: rx_data_def)
  then have i: "interests (sv_poller (rx_server r)) (ch_fd ch) = Some (events ch, q)" if "rx_heap r q = Some ch" "index ch = kAdded" for q ch
    using that by (auto simp: poller_inv_def)
  from o show "interests (sv_poller (rx_server r)) (snd (rx_timer r)) = Some (kReadEvent, fst (rx_timer r))"
    "interests (sv_poller (rx_server r)) (snd (rx_wake r)) = Some (kReadEvent, fst (rx_wake r))"
    by (auto simp: own_channels_def dest: i)
qed

lemma rx_run_ok:
  assumes "server_boot valid accepts timer wake sock p addr = Inr s" and "boot_ok valid timer wake sock p"
    and "user_bounded user" and "body_ok body" and "run (rx_step valid user body) (rx_new created timer wake s) as r"
  shows "rx_inv valid r" "rx_data valid r" "silent (rx_server r)"
proof -
  have b: "rx_inv valid (rx_new created timer wake s)" "silent s"
    using rx_new_inv [OF assms(1,2)] by (simp_all add: silent_def queue_msgs_def)
  then show "rx_inv valid r" "silent (rx_server r)"
    using rx_msgs.run_inv [OF assms(5)] assms(3,4) by simp_all
  then show "rx_data valid r" by (simp add: rx_inv_def)
qed

text \<open>C1: In every state the whole reactor can reach, with any clients, timers, functions of the
  user and calls of other threads, in any interleaving, the loop's thread can take its next
  statement: no assertion fails, no callback or function reaches an object that is gone, no
  buffer, date or number of timers overflows. It takes from outside what \<open>poll_fits\<close>,
  \<open>turn_at\<close>, \<open>exec_fits\<close>, \<open>work_fits\<close> and \<open>make_fits\<close> say: the kernel reports watched channels,
  new descriptors and addresses are not in use, dates and pending output stay in range.\<close>

theorem reactor_never_faults:
  assumes "server_boot valid accepts timer wake sock p addr = Inr s" and "boot_ok valid timer wake sock p"
    and "user_bounded user" and "body_ok body" and "run (rx_step valid user body) (rx_new created timer wake s) as r"
  shows "(rx_pc r = EPoll \<and> poll_fits result r \<longrightarrow> (\<exists>t. rx_poll result r = Inr t)) \<and>
    (rx_pc r = EHandling (a # bs) \<and> turn_at valid (io env) (chan_of (fst (rx_wake r)) a) (rx_server r) \<longrightarrow>
      (\<exists>t. rx_dispatch valid user env (chan_of (fst (rx_wake r)) a) (set_pc (EHandling bs) r) = Inr t)) \<and>
    (rx_pc r = ERunning (f # fs) \<and> exec_fits env r f \<longrightarrow>
      (\<exists>t. rx_exec valid body ByQueue env f (set_pc (ERunning fs) r) = Inr t)) \<and>
    (rx_work r = w # ws \<and> work_fits env r w \<longrightarrow> (\<exists>t. rx_work_step valid body env w (r\<lparr>rx_work := ws\<rparr>) = Inr t)) \<and>
    (call_ok r c \<and> make_fits env c \<and> c \<notin> {ApiSetQuit, ApiSetRecv} \<longrightarrow> (\<exists>t. rx_make env c r = Inr t))"
proof -
  note i = rx_run_ok [OF assms]
  have "\<exists>t. rx_poll result r = Inr t" if "poll_fits result r"
    by (rule rx_poll_ok [OF i(2) that]) blast
  moreover have "\<exists>t. rx_work_step valid body env w (r\<lparr>rx_work := ws\<rparr>) = Inr t" if "rx_work r = w # ws" "work_fits env r w"
    by (rule rx_work_step_ok [OF i(2) that assms(4)]) blast
  moreover have "\<exists>t. rx_make env c r = Inr t" if "call_ok r c" "make_fits env c" "c \<noteq> ApiSetQuit" "c \<noteq> ApiSetRecv"
    by (rule rx_make_ok [OF that]) blast
  ultimately show ?thesis
    using dispatch_step [OF i(1) assms(3)] func_step [OF i(1) assms(4)] by blast
qed

theorem reactor_never_faults_witness:
  "\<exists>s r t. demo_boots s \<and> run demo_step (rx_new 0 (10, 4) (11, 5) s)
       [OwnCall ApiStart, Worked demo_env (WCall ApiStart), Enter, Test, Polled (Some [(POLLIN, 0)]) [ActChannel 0]] r \<and>
     rx_pc r = EHandling [ActChannel 0] \<and>
     rx_dispatch (\<lambda>fd. True) (\<lambda>e c. []) demo_env 0 (set_pc (EHandling []) r) = Inr t"
proof -
  obtain s r where r: "demo_boots s" "run demo_step (rx_new 0 (10, 4) (11, 5) s)
       [OwnCall ApiStart, Worked demo_env (WCall ApiStart), Enter, Test, Polled (Some [(POLLIN, 0)]) [ActChannel 0]] r"
    "rx_pc r = EHandling [ActChannel 0]" "rx_wake r = (11, 5)" "turn_at (\<lambda>fd. True) demo_turn 0 (rx_server r)"
    by (rule demo_reactor)
  have "\<exists>t. rx_dispatch (\<lambda>fd. True) (\<lambda>e c. []) demo_env 0 (set_pc (EHandling []) r) = Inr t"
    using reactor_never_faults [OF r(1) demo_boot demo_user r(2), where a = "ActChannel 0" and bs = "[]" and env = demo_env]
      r(3-5) by (simp add: chan_of_def)
  with r(1-3) show ?thesis by blast
qed

text \<open>C2: Other threads' messages and the byte streams, through the whole reactor. The
  messages other threads sent to a connection, in the order of their calls, are those the
  connection has been given followed by those still on their way in the loop: none is lost,
  doubled or overtaken by another. And as long as no \<open>write\<close> fails, the bytes the kernel took
  for a connection, followed by those pending, are exactly the messages it was given, by
  whomever, in order. In the other direction, under errors too, the bytes the receive callback
  has taken from the read buffer, followed by those in it, are exactly the bytes \<open>readv\<close> stored.\<close>

theorem reactor_streams:
  assumes "server_boot valid accepts timer wake sock p addr = Inr s" and "boot_ok valid timer wake sock p"
    and "user_bounded user" and "body_ok body" and "run (rx_step valid user body) (rx_new created timer wake s) as r"
    and "sv_conns (rx_server r) this = Some c"
  shows "concat (map (other_sends this) as) =
      map snd (filter (\<lambda>m. fst m = ByQueue) (asked_of (rx_server r) (tc_fd c))) @ messages_to this (rx_line r) \<and>
    ((\<forall>a \<in> set as. \<not> writes_fail a) \<longrightarrow>
      wire (rx_server r) (tc_fd c) @ mb_contents (write_buffer c) = concat (map snd (asked_of (rx_server r) (tc_fd c)))) \<and>
    consumed (rx_server r) (tc_fd c) @ mb_contents (read_buffer c) = heard (rx_server r) (tc_fd c)"
proof -
  note b = rx_new_inv [OF assms(1,2)] and i = rx_run_ok [OF assms(1-5)]
  have z: "silent (rx_server (rx_new created timer wake s))" "conn_msgs this (rx_new created timer wake s) = []"
    using b(3) by (simp_all add: silent_def queue_msgs_def conn_msgs_def split: option.split)
  have "conn_msgs this r @ messages_to this (rx_line r) = concat (map (other_sends this) as)"
    using rx_msgs.run_line [OF assms(5), of this] assms(3,4) b(1) z by simp
  moreover have "stream_ok (rx_server r)" if "\<forall>a \<in> set as. \<not> writes_fail a"
    using run_stream [OF assms(5,3,4) b(1) _ that] b(2) by simp
  moreover have "grows s (rx_server r)" using rx.run_rel [OF assms(5)] assms(3,4) b(1) by simp
  then have "input_ok (rx_server r)" using b(5) by (simp add: grows_def)
  ultimately show ?thesis
    using assms(6) by (simp add: conn_msgs_def queue_msgs_def stream_ok_def asked_bytes_def input_ok_def)
qed

theorem reactor_streams_witness:
  "\<exists>s as r c. demo_boots s \<and> run demo_step (rx_new 0 (10, 4) (11, 5) s) as r \<and> sv_conns (rx_server r) 9 = Some c \<and>
     map snd (filter (\<lambda>m. fst m = ByQueue) (asked_of (rx_server r) (tc_fd c))) @ messages_to 9 (rx_line r) = [[1, 2]] \<and>
     wire (rx_server r) (tc_fd c) @ mb_contents (write_buffer c) = concat (map snd (asked_of (rx_server r) (tc_fd c)))"
proof -
  obtain s as r c where r: "demo_boots s" "run demo_step (rx_new 0 (10, 4) (11, 5) s) as r"
    "concat (map (other_sends 9) as) = [[1, 2]]" "\<forall>a \<in> set as. \<not> writes_fail a" "sv_conns (rx_server r) 9 = Some c"
    by (rule demo_sending)
  from reactor_streams [OF r(1) demo_boot demo_user r(2,5)] r show ?thesis by auto
qed

text \<open>C3: What is queued has been done two turns later: when the loop's thread has finished
  \<open>DoRunInLoopFuncs\<close> twice, every function that was on its way at the start has run, in order
  and before any queued later, and every message among them is in its connection's output.\<close>

theorem queued_done_in_two_turns:
  assumes "server_boot valid accepts timer wake sock p addr = Inr s" and "boot_ok valid timer wake sock p"
    and "user_bounded user" and "body_ok body" and "run (rx_step valid user body) (rx_new created timer wake s) as r"
    and "run (rx_step valid user body) r bs t" and "2 \<le> count_list bs Done"
  shows "\<exists>later. concat (map started_by bs) = rx_line r @ later \<and>
    conn_msgs this t = conn_msgs this r @ messages_to this (rx_line r) @ messages_to this later"
proof -
  note i = rx_run_ok [OF assms(1-5)]
  obtain later where l: "concat (map started_by bs) = rx_line r @ later"
    using run_taken [OF assms(6,3,4) i(1) assms(7)] by blast
  have "concat (map (\<lambda>a. messages_to this (started_by a)) bs) = messages_to this (concat (map started_by bs))"
    by (induction bs) simp_all
  with rx_given.run_line [OF assms(6), of this] assms(3,4) i l show ?thesis by auto
qed

theorem queued_done_in_two_turns_witness:
  "\<exists>s as r bs t. demo_boots s \<and> run demo_step (rx_new 0 (10, 4) (11, 5) s) as r \<and> run demo_step r bs t \<and>
     rx_line r = [FSend 9 [1, 2]] \<and> conn_msgs 9 t = conn_msgs 9 r @ [[1, 2]]"
proof -
  obtain s as r t where r: "demo_boots s" "run demo_step (rx_new 0 (10, 4) (11, 5) s) as r" "rx_line r = [FSend 9 [1, 2]]"
    "run demo_step r [OtherWrites, Swapped, RunFunc demo_env (FSend 9 [1, 2]), Done, Test, Polled None [], Swapped, Done] t"
    by (rule demo_sent)
  from queued_done_in_two_turns [OF r(1) demo_boot demo_user r(2,4), of 9] r(3)
  have "conn_msgs 9 t = conn_msgs 9 r @ [[1, 2]]" by (auto simp: messages_to_def)
  with r show ?thesis by blast
qed

text \<open>C4: The reactor is a refinement of \<open>EventLoop\<close> alone: what any run of it does to the loop
  is a run of \<open>Event_Loop\<close>'s step relation. So a queued function never waits in a sleeping loop
  without a wake-up on its way; and the wake-up can be seen, since the poller, whatever
  acceptor and connections register there, keeps watching the eventfd.\<close>

theorem reactor_refines_loop:
  assumes "server_boot valid accepts timer wake sock p addr = Inr s" and "boot_ok valid timer wake sock p"
    and "user_bounded user" and "body_ok body" and "run (rx_step valid user body) (rx_new created timer wake s) as r"
  shows "run el_step el_new (List.map_filter rx_abs as) (rx_loop r) \<and>
    (rx_pc r = EPoll \<and> funcs (rx_loop r) \<noteq> [] \<longrightarrow> 0 < wake_count (rx_loop r) \<or> 0 < writers (rx_loop r)) \<and>
    interests (sv_poller (rx_server r)) (snd (rx_wake r)) = Some (kReadEvent, fst (rx_wake r))"
proof -
  note i = rx_run_ok [OF assms] and b = rx_new_inv [OF assms(1,2)]
  have "run el_step el_new (List.map_filter rx_abs as) (rx_loop r)"
    using rx_sim.run_sim [OF assms(5)] assms(3,4) b(1) by simp
  moreover have "el_inv (rx_loop r)" using i(1) by (simp add: rx_inv_def)
  ultimately show ?thesis using own_interests(2) [OF i(2)] by (auto simp: el_inv_def)
qed

theorem reactor_refines_loop_witness:
  "\<exists>s r. demo_boots s \<and> run demo_step (rx_new 0 (10, 4) (11, 5) s) [Enter, Test, OtherCall (ApiRunInLoop 3) demo_env (FUser 3)] r \<and>
     funcs (rx_loop r) = [FUser 3] \<and> 0 < wake_count (rx_loop r) + writers (rx_loop r) \<and>
     run el_step el_new [EnterLoop, TestQuit, OtherPush (FUser 3)] (rx_loop r)"
proof -
  obtain s where s: "demo_boots s" by (rule demo_server)
  let ?start = "rx_new 0 (10, 4) (11, 5) s"
  let ?pushed = "rx_push (FUser 3) (with_loop test_quit (with_loop enter_loop ?start))"
  have r: "run demo_step ?start [Enter, Test, OtherCall (ApiRunInLoop 3) demo_env (FUser 3)] ?pushed"
    "rx_pc ?pushed = EPoll" "funcs (rx_loop ?pushed) = [FUser 3]"
    by (simp_all add: step_simps loop_parts el_new_def push_func_def)
  have "run el_step el_new [EnterLoop, TestQuit, OtherPush (FUser 3)] (rx_loop ?pushed)"
    "0 < wake_count (rx_loop ?pushed) \<or> 0 < writers (rx_loop ?pushed)"
    using reactor_refines_loop [OF s demo_boot demo_user r(1)] r(2,3)
    by (simp_all add: List.map_filter_simps del: run_simps with_loop_simps)
  with s r(1,3) show ?thesis by (intro exI [of _ s] exI [of _ ?pushed]) (simp del: run_simps with_loop_simps)
qed

text \<open>C5: No timer is lost. Every timer ever made, by any thread, is in the queue, in a closure
  that will insert it, or among those \<open>HandleRead\<close> is running, unless it fires once and its
  callback has run, exactly once; a periodic timer stays for ever. The timer descriptor is always
  watched, and whenever no callback is running and the queue is not empty, it was last armed with
  exactly the time then left until the earliest timer of the queue is due: at least 100
  microseconds and so never zero, which would disarm it.\<close>

theorem timers_never_lost:
  assumes "server_boot valid accepts timer wake sock p addr = Inr s" and "boot_ok valid timer wake sock p"
    and "user_bounded user" and "body_ok body" and "run (rx_step valid user body) (rx_new created timer wake s) as r"
  shows "rx_held r + sum_list (map ran_once as) = sum_list (map made as) \<and>
    (rx_work r = [] \<longrightarrow> tq_armed (rx_timers r)) \<and>
    (rx_work r = [] \<and> timers (rx_timers r) \<noteq> [] \<longrightarrow> (\<exists>now ts. armed (rx_timers r) = Some (now, ts) \<and>
      0 \<le> tv_sec ts \<and> 0 \<le> tv_nsec ts \<and> tv_nsec ts < 1000000000 \<and>
      tv_sec ts * 1000000000 + tv_nsec ts = max 100 (Min (due ` set (timers (rx_timers r))) - now) * 1000)) \<and>
    interests (sv_poller (rx_server r)) (snd (rx_timer r)) = Some (kReadEvent, fst (rx_timer r))"
proof -
  note i = rx_run_ok [OF assms] and b = rx_new_inv [OF assms(1,2)]
  have "rx_held r + sum_list (map ran_once as) = sum_list (map made as)"
    using rx_timers.run_balance [OF assms(5)] assms(3,4) b(1,4) by simp
  moreover have t: "rx_work r = [] \<longrightarrow> tq_armed (rx_timers r)" using i(1) by (auto simp: rx_inv_def resetting_def)
  moreover have "rx_work r = [] \<and> timers (rx_timers r) \<noteq> [] \<longrightarrow> (\<exists>now ts. armed (rx_timers r) = Some (now, ts) \<and>
      armed_for (earliest (rx_timers r)) (now, ts))"
    using t by (auto simp: tq_armed_def split: option.splits)
  ultimately show ?thesis using own_interests(1) [OF i(2)] by (simp add: armed_for_def earliest_def)
qed

theorem timers_never_lost_witness:
  "\<exists>s as r. demo_boots s \<and> run demo_step (rx_new 0 (10, 4) (11, 5) s) as r \<and> rx_held r = {#7#} \<and>
     rx_line r = [] \<and> rx_work r = [] \<and> tq_armed (rx_timers r)"
proof -
  obtain s where s: "demo_boots s" by (rule demo_server)
  let ?start = "rx_new 0 (10, 4) (11, 5) s" and ?t = "timer_new 7 5000 (Dbl 0 0) 0" and ?v = "\<lambda>fd :: int. True"
  let ?as = "[OtherCall (ApiRunAt 5000 7) demo_env (FAddTimer ?t), OtherWrites, Enter, Test, Polled None [], Swapped]"
  let ?swapped = "with_loop swap_funcs (with_loop (poll_returned []) (with_loop test_quit (with_loop enter_loop
      (with_loop (\<lambda>l. wake_up (l\<lparr>writers := 0\<rparr>)) (rx_push (FAddTimer ?t) (?start\<lparr>rx_timers := tq_empty 1\<rparr>))))))"
  have sw: "run demo_step ?start ?as ?swapped"
    by (simp add: step_simps loop_parts el_new_def push_func_def wake_up_def run_at_def add_timer_def tq_empty_def date_range_def
        rx_poll_def poll_def poll_fits_def with_loop_def rx_push_def Let_def)
  then have i: "rx_inv ?v ?swapped"
    using rx.run_inv rx_new_inv(1) [OF s demo_boot] demo_user by blast
  have f: "rx_pc ?swapped = ERunning [FAddTimer ?t]" "exec_fits demo_env ?swapped (FAddTimer ?t)" "rx_work ?swapped = []"
    by (simp_all add: loop_parts wake_up_def push_func_def el_new_def date_range_def)
  obtain x where x: "rx_exec ?v (\<lambda>n r. []) ByQueue demo_env (FAddTimer ?t) (set_pc (ERunning []) ?swapped) = Inr x"
    "rx_loop x = (rx_loop ?swapped)\<lparr>el_pc := ERunning []\<rparr>" "rx_work x = exec_work (\<lambda>n r. []) (FAddTimer ?t) (set_pc (ERunning []) ?swapped) @ rx_work ?swapped"
    using func_step [OF i demo_user(2) f(1,2)] by blast
  then have w: "rx_work x = []" "rx_line x = []"
    by (simp_all add: exec_work_def rx_line_def loop_parts wake_up_def push_func_def el_new_def)
  have "demo_step ?swapped (RunFunc demo_env (FAddTimer ?t)) x"
    using f x(1) by (simp add: step_simps)
  then have run: "run demo_step ?start (?as @ [RunFunc demo_env (FAddTimer ?t)]) x"
    by (intro run_join [OF sw]) (simp only: run_simps, blast)
  have "rx_held x = {#7#}" "tq_armed (rx_timers x)"
    using timers_never_lost [OF s demo_boot demo_user run] w(1) by (simp_all add: api_timers_def)
  with s run w show ?thesis by blast
qed

end
