(* ===== verification/Server_Life.thy ===== *)
theory Server_Life
  imports Reactor_Run
begin

text \<open>
  The life of a server and its connections in the reactor: how a connection starts, that it
  never ends, and what the destructor of the server leaves behind in the loop.
\<close>

section \<open>Connections\<close>

text \<open>The server of the examples after its first client.\<close>

lemma demo_accepted:
  obtains s as r c where "demo_boots s" "run demo_step (rx_new 0 (10, 4) (11, 5) s) as r" "rx_pc r = EHandling []"
    "sv_conns (rx_server r) = [9 \<mapsto> c]" "tc_fd c = 8" "tc_chan c = 5"
proof -
  obtain s r u c where r: "demo_boots s"
    "run demo_step (rx_new 0 (10, 4) (11, 5) s)
       [OwnCall ApiStart, Worked demo_env (WCall ApiStart), Enter, Test, Polled (Some [(POLLIN, 0)]) [ActChannel 0]] r"
    "demo_step r (Dispatched demo_env (ActChannel 0)) ((set_pc (EHandling []) r)\<lparr>rx_server := u\<rparr>)"
    "sv_conns u = [9 \<mapsto> c]" "tc_fd c = 8" "tc_chan c = 5"
    by (rule demo_reactor)
  have "run demo_step r [Dispatched demo_env (ActChannel 0)] ((set_pc (EHandling []) r)\<lparr>rx_server := u\<rparr>)"
    using r(3) by (simp only: run_simps) blast
  from that [OF r(1) run_join [OF r(2) this]] r(4-6) show ?thesis by simp
qed

text \<open>C17: What \<open>NewConnection\<close> does with a new descriptor: the client's stream starts with
  what \<open>write\<close> took of the hundred megabytes of \<open>A\<close> the server sends by itself, before
  anything a user can send; an error of that write is ignored. The connection is added with
  empty buffers, watched for reading, with a receive callback but no connection or close
  callback, and its state is whatever the memory held, since nothing calls
  \<open>ConnectionEstablished\<close>: unless that happens to be \<open>Connected\<close>, \<open>Shutdown\<close> on it does
  nothing.\<close>

theorem new_connection_outcome:
  assumes "server_boot valid accepts timer wake sock p addr = Inr s" and "boot_ok valid timer wake sock p"
    and "user_bounded user" and "body_ok body" and "run (rx_step valid user body) (rx_new created timer wake s) as r"
    and "fresh_for valid (rx_server r) fd this q"
  shows "\<exists>u c. new_connection valid greeted g this q fd (rx_server r) = Inr u \<and>
    sv_conns u = (sv_conns (rx_server r))(this \<mapsto> c) \<and>
    wire u fd = wire (rx_server r) fd @ (case greeted of Some n \<Rightarrow> take n (replicate (100 * 2 ^ 20) 65) | None \<Rightarrow> []) \<and>
    (\<forall>f. f \<noteq> fd \<longrightarrow> wire u f = wire (rx_server r) f) \<and>
    mb_contents (write_buffer c) = [] \<and> mb_contents (read_buffer c) = [] \<and>
    interests (sv_poller u) fd = Some (kReadEvent, q) \<and>
    recv_set c \<and> \<not> conn_set c \<and> \<not> close_set c \<and> tc_state c = g \<and>
    (g \<noteq> Connected \<longrightarrow> conn_shutdown c = c)"
proof -
  let ?t = "rx_server r"
  have i: "sv_inv valid ?t" using rx_run_ok(2) [OF assms(1-5)] by (simp add: rx_data_def)
  obtain u c where u: "new_connection valid greeted g this q fd ?t = Inr u" "sv_inv valid u"
    "sv_conns u = (sv_conns ?t)(this \<mapsto> c)" "tc_state c = g"
    "mb_contents (write_buffer c) = []" "mb_contents (read_buffer c) = []"
    "sv_poller u = put_channel q ((conn_channel this fd)\<lparr>events := kReadEvent, index := kAdded\<rparr>) (sv_poller ?t)"
    "wire u = (wire ?t)(fd := wire ?t fd @ (case greeted of Some n \<Rightarrow> take n greeting | None \<Rightarrow> []))"
    by (rule new_connection_E [OF i assms(6), of greeted g])
  have m: "member_ok valid u this c" by (rule sv_member [OF u(2)]) (simp add: u(3))
  have g: "greeting = replicate (100 * 2 ^ 20) 65" by (simp add: greeting_def)
  have "interests (sv_poller u) fd = Some (kReadEvent, q)"
    by (simp add: u(7) put_channel_def set_read_callback_def set_write_callback_def channel_new_def)
  with u m show ?thesis
    unfolding g [symmetric] by (intro exI [of _ u] exI [of _ c]) (simp add: member_ok_def conn_shutdown_def)
qed

theorem new_connection_outcome_witness:
  "\<exists>r u. rx_pc r = EOut \<and> sv_conns (rx_server r) = Map.empty \<and>
     new_connection (\<lambda>fd. True) (Some 3) Connecting 9 5 8 (rx_server r) = Inr u \<and> wire u 8 = [65, 65, 65]"
proof -
  let ?v = "\<lambda>fd :: int. True"
  obtain s t where t: "demo_boots s" "server_start ?v 0 s = Inr t" "sv_conns t = Map.empty"
    "sv_poller t = put_channel 0 (watched_channel AcceptCb 3) (loop_poller TimerCb WakeCb (10, 4) (11, 5))"
    "wire t = (\<lambda>fd. [])"
    by (rule demo_server)
  let ?r = "(rx_new 0 (10, 4) (11, 5) s)\<lparr>rx_server := t\<rparr>"
  have r: "run demo_step (rx_new 0 (10, 4) (11, 5) s) [OwnCall ApiStart, Worked demo_env (WCall ApiStart)] ?r"
    using t(2) by (simp add: step_simps el_new_def rx_call_def run_in_loop_def date_range_def)
  have f: "fresh_for ?v (rx_server ?r) 8 9 5" using demo_fresh [OF t(3,4)] by simp
  have "take 3 (replicate (100 * 2 ^ 20) (65 :: byte)) = [65, 65, 65]"
    by (simp only: take_replicate) (simp add: numeral_3_eq_3)
  moreover obtain u where "new_connection ?v (Some 3) Connecting 9 5 8 t = Inr u"
    "wire u 8 = wire t 8 @ take 3 (replicate (100 * 2 ^ 20) 65)"
    using new_connection_outcome [OF t(1) demo_boot demo_user r f, of "Some 3" Connecting] by auto
  ultimately show ?thesis using t(3,5) by (intro exI [of _ ?r] exI [of _ u]) (simp add: el_new_def)
qed

text \<open>C13: The server never lets a connection go. Whatever happens after one is made, an end of
  file and errors included, it stays in \<open>conn_set_\<close> with its descriptor open and known to the
  poller; the number of connections never falls. An end of file only makes it \<open>Disconnected\<close>,
  with nothing left that reports it.\<close>

theorem connections_never_released:
  assumes "server_boot valid accepts timer wake sock p addr = Inr s" and "boot_ok valid timer wake sock p"
    and "user_bounded user" and "body_ok body" and "run (rx_step valid user body) (rx_new created timer wake s) as r"
    and "run (rx_step valid user body) r bs r'" and "sv_conns (rx_server r) this = Some c"
  shows "(\<exists>d ch. sv_conns (rx_server r') this = Some d \<and> tc_fd d = tc_fd c \<and>
      channels (sv_poller (rx_server r')) (tc_fd c) = Some (tc_chan c) \<and>
      heap (sv_poller (rx_server r')) (tc_chan c) = Some ch \<and> ch_fd ch = tc_fd c) \<and>
    dom (sv_conns (rx_server r)) \<subseteq> dom (sv_conns (rx_server r')) \<and>
    (\<exists>w d. io_call valid user (env\<lparr>readv_result := (\<lambda>i. Inr [])\<rparr>) (ReadCb this) (rx_server r) = Inr w \<and>
      sv_conns w this = Some d \<and> tc_state d = Disconnected \<and> tc_fd d = tc_fd c)"
proof (intro conjI)
  let ?t = "rx_server r" and ?u = "rx_server r'"
  have i: "sv_inv valid ?t" using rx_run_ok(2) [OF assms(1-5)] by (simp add: rx_data_def)
  have k: "user_bounded user \<and> body_ok body \<and> rx_inv valid r" using rx_run_ok(1) [OF assms(1-5)] assms(3,4) by blast
  have u: "sv_inv valid ?u" "grows ?t ?u"
    using rx.run_inv [OF assms(6) k] rx.run_rel [OF assms(6) k] by (simp_all add: rx_inv_def rx_data_def)
  then obtain d where d: "sv_conns ?u this = Some d" "tc_fd d = tc_fd c" "tc_chan d = tc_chan c"
    using assms(7) by (auto simp: grows_def)
  note m = sv_member [OF u(1) d(1)]
  obtain ch where ch: "heap (sv_poller ?u) (tc_chan d) = Some ch" "ch_fd ch = tc_fd d"
    by (rule member_chan [OF m])
  show "\<exists>d ch. sv_conns ?u this = Some d \<and> tc_fd d = tc_fd c \<and>
      channels (sv_poller ?u) (tc_fd c) = Some (tc_chan c) \<and> heap (sv_poller ?u) (tc_chan c) = Some ch \<and> ch_fd ch = tc_fd c"
    using d ch m by (auto simp: member_ok_def)
  show "dom (sv_conns ?t) \<subseteq> dom (sv_conns ?u)" using u(2) by (fastforce simp: grows_def)
  have mt: "member_ok valid ?t this c" by (rule sv_member [OF i assms(7)])
  then have k: "conn_ok valid (conn_in ?t c)" and n: "\<not> conn_set c" "\<not> close_set c" by (simp_all add: member_ok_def)
  then obtain rb where rb: "mb_read_fd (read_buffer c) (Inr []) = Inr (0, rb, None)"
    using mb_read_fd_ok [of "read_buffer c" "[]"] by (auto simp: conn_ok_def buf_ok_def mb_fits_def room_def vec_max_def)
  let ?c = "(conn_in ?t c)\<lparr>read_buffer := rb\<rparr>"
  have "tc_chan_ok valid ?c" using k by (simp add: conn_ok_def tc_inv_def)
  then obtain p' where "chan_do True valid DisableAll (?c\<lparr>tc_state := Disconnected\<rparr>) =
      Inr (?c\<lparr>tc_state := Disconnected, tc_poller := p'\<rparr>)" by (rule disable_all_E)
  with rb n have "tc_read_callback True valid (server_user user ?t) (Inr []) (conn_in ?t c) =
      Inr (?c\<lparr>tc_state := Disconnected, tc_poller := p'\<rparr>, [])"
    by (simp add: tc_read_callback_def handle_close_def call_if_def)
  with assms(7) show "\<exists>w d. io_call valid user (env\<lparr>readv_result := (\<lambda>i. Inr [])\<rparr>) (ReadCb this) ?t = Inr w \<and>
      sv_conns w this = Some d \<and> tc_state d = Disconnected \<and> tc_fd d = tc_fd c"
    by (simp add: io_call_def)
qed

theorem connections_never_released_witness:
  "\<exists>r c d w. rx_pc r = EHandling [] \<and> sv_conns (rx_server r) = [9 \<mapsto> c] \<and>
     io_call (\<lambda>fd. True) (\<lambda>e c. []) (demo_turn\<lparr>readv_result := (\<lambda>i. Inr [])\<rparr>) (ReadCb 9) (rx_server r) = Inr w \<and>
     sv_conns w 9 = Some d \<and> tc_state d = Disconnected \<and> tc_fd d = 8"
proof -
  obtain s as r c where r: "demo_boots s" "run demo_step (rx_new 0 (10, 4) (11, 5) s) as r" "rx_pc r = EHandling []"
    "sv_conns (rx_server r) = [9 \<mapsto> c]" "tc_fd c = 8"
    by (rule demo_accepted)
  from connections_never_released [OF r(1) demo_boot demo_user r(2), of "[]" r 9 c demo_turn] r(4,5)
  obtain w d where "io_call (\<lambda>fd. True) (\<lambda>e c. []) (demo_turn\<lparr>readv_result := (\<lambda>i. Inr [])\<rparr>) (ReadCb 9) (rx_server r) = Inr w"
    "sv_conns w 9 = Some d" "tc_state d = Disconnected" "tc_fd d = 8" by auto
  with r(3,4) show ?thesis by blast
qed

section \<open>Destruction\<close>

lemma drop_conns_simps [simp]:
  "channels (drop_conns objs s) = channels s"
  "heap (drop_conns objs s) p = (if p \<in> fst ` set objs then None else heap s p)"
  "interests (drop_conns objs s) fd = (if fd \<in> snd ` set objs then None else interests s fd)"
proof -
  have d: "channels (drop_conns objs s) = channels s \<and>
      heap (drop_conns objs s) p = (if p \<in> fst ` set objs then None else heap s p) \<and>
      interests (drop_conns objs s) fd = (if fd \<in> snd ` set objs then None else interests s fd)"
    unfolding drop_conns_def by (induction objs arbitrary: s) (auto simp: release_def)
  show "channels (drop_conns objs s) = channels s"
    "heap (drop_conns objs s) p = (if p \<in> fst ` set objs then None else heap s p)"
    "interests (drop_conns objs s) fd = (if fd \<in> snd ` set objs then None else interests s fd)"
    using d by simp_all
qed

lemma set_map_filter: "set (List.map_filter f xs) = {y. \<exists>x \<in> set xs. f x = Some y}"
  by (induction xs) (auto simp: List.map_filter_simps split: option.splits)

text \<open>Disabling and removing one channel, in a poller whose other entries may be stale.\<close>

lemma disable_remove_ok:
  assumes "heap s p = Some ch"
    and "index ch = kNew \<and> channels s (ch_fd ch) = None \<or> index ch \<in> {kAdded, kDeleted} \<and> channels s (ch_fd ch) = Some p"
  shows "\<not> may_remove dsp p \<Longrightarrow>
      bind_res (chan_apply True valid DisableAll p s) (chan_remove True dsp valid p) = Inl AssertFailed"
    "may_remove dsp p \<Longrightarrow>
      \<exists>s'. bind_res (chan_apply True valid DisableAll p s) (chan_remove True dsp valid p) = Inr s' \<and>
    (\<forall>q. q \<noteq> p \<longrightarrow> heap s' q = heap s q) \<and> (\<forall>f. f \<noteq> ch_fd ch \<longrightarrow> channels s' f = channels s f)"
proof -
  have n: "kNew \<noteq> kAdded" "kNew \<noteq> kDeleted" "kAdded \<noteq> kDeleted" by (simp_all add: index_states)
  from assms(2) consider "index ch = kNew" "channels s (ch_fd ch) = None"
    | "index ch = kAdded" "channels s (ch_fd ch) = Some p" | "index ch = kDeleted" "channels s (ch_fd ch) = Some p" by auto
  then show "\<not> may_remove dsp p \<Longrightarrow>
      bind_res (chan_apply True valid DisableAll p s) (chan_remove True dsp valid p) = Inl AssertFailed"
    "may_remove dsp p \<Longrightarrow>
      \<exists>s'. bind_res (chan_apply True valid DisableAll p s) (chan_remove True dsp valid p) = Inr s' \<and>
    (\<forall>q. q \<noteq> p \<longrightarrow> heap s' q = heap s q) \<and> (\<forall>f. f \<noteq> ch_fd ch \<longrightarrow> channels s' f = channels s f)"
    by (cases; use n assms(1) in \<open>auto simp: chan_apply_def el_update_channel_def update_channel_def chan_remove_def
        el_remove_channel_def remove_channel_def Let_def poller_update_def set_index_def is_none_event_def kNoneEvent_def
        split: option.splits\<close>)+
qed

text \<open>C16: Destroying the server frees its connections without \<open>ConnectionDestroy\<close>, so the
  poller of the loop, which lives on, keeps an entry for every descriptor that points to a
  channel that is gone. The next connection that gets one of these descriptors from the system
  fails an assertion when it enables reading. (\<open>dsp\<close> is what the loop is dispatching: if the
  server is destroyed from a callback of another channel while its accept channel is active,
  the destructor itself fails the assertion of \<open>RemoveChannel\<close>.)\<close>

theorem destroyed_server_leaves_entries:
  assumes "server_boot valid accepts timer wake sock p addr = Inr s" and "boot_ok valid timer wake sock p"
    and "user_bounded user" and "body_ok body" and "run (rx_step valid user body) (rx_new created timer wake s) as r"
    and "sv_conns (rx_server r) this = Some c" and "this \<in> set order" and "q \<noteq> tc_chan c"
  shows "(may_remove dsp (ac_chan (sv_acceptor (rx_server r))) \<longrightarrow>
      (\<exists>p'. server_destroy True dsp valid order (rx_server r) = Inr p' \<and> heap p' (tc_chan c) = None \<and>
        channels p' (tc_fd c) = Some (tc_chan c) \<and>
        tc_new True valid g this' q (tc_fd c) p' = Inl AssertFailed)) \<and>
    (\<not> may_remove dsp (ac_chan (sv_acceptor (rx_server r))) \<longrightarrow>
      server_destroy True dsp valid order (rx_server r) = Inl AssertFailed)"
proof -
  let ?t = "rx_server r"
  have i: "sv_inv valid ?t" using rx_run_ok(2) [OF assms(1-5)] by (simp add: rx_data_def)
  let ?objs = "List.map_filter (\<lambda>this. map_option (\<lambda>c. (tc_chan c, tc_fd c)) (sv_conns ?t this)) order"
  let ?a = "sv_acceptor ?t" and ?p = "drop_conns ?objs (sv_poller ?t)"
  have m: "member_ok valid ?t j b" if "sv_conns ?t j = Some b" for j b by (rule sv_member [OF i that])
  have o: "(tc_chan c, tc_fd c) \<in> set ?objs"
    using assms(6,7) by (force simp: set_map_filter)
  have na: "ac_chan ?a \<notin> fst ` set ?objs"
    using m by (fastforce simp: set_map_filter member_ok_def)
  obtain ch where ch: "heap (sv_poller ?t) (ac_chan ?a) = Some ch" "ch_fd ch = ac_sock ?a"
    "channels (sv_poller ?t) (ch_fd ch) \<in> {None, Some (ac_chan ?a)}"
    using i by (auto simp: sv_inv_def accept_ok_def chan_ok_def)
  have x: "index ch = kNew \<and> channels ?p (ch_fd ch) = None \<or>
      index ch \<in> {kAdded, kDeleted} \<and> channels ?p (ch_fd ch) = Some (ac_chan ?a)"
    using inv_channel(1,4) [OF sv_inv_poller [OF i] ch(1,3)] ch(3) by auto
  note dr = disable_remove_ok [of ?p "ac_chan ?a" ch dsp valid, OF _ x]
  have h0: "heap ?p (ac_chan ?a) = Some ch" using ch(1) na by simp
  have e: "server_destroy True dsp valid order ?t = Inl AssertFailed" if "\<not> may_remove dsp (ac_chan ?a)"
    using dr(1) [OF h0 that] by (auto simp: server_destroy_def acceptor_destroy_def bind_res_def split: sum.splits)
  have "\<exists>p'. server_destroy True dsp valid order (rx_server r) = Inr p' \<and> heap p' (tc_chan c) = None \<and>
      channels p' (tc_fd c) = Some (tc_chan c) \<and> tc_new True valid g this' q (tc_fd c) p' = Inl AssertFailed"
    if may: "may_remove dsp (ac_chan ?a)"
  proof -
    obtain p1 where p1: "bind_res (chan_apply True valid DisableAll (ac_chan ?a) ?p) (chan_remove True dsp valid (ac_chan ?a)) = Inr p1"
      "\<forall>q. q \<noteq> ac_chan ?a \<longrightarrow> heap p1 q = heap ?p q" "\<forall>f. f \<noteq> ch_fd ch \<longrightarrow> channels p1 f = channels ?p f"
      using dr(2) [OF h0 may] by blast
    let ?p' = "release (ac_chan ?a) (ac_sock ?a) p1"
    have d: "server_destroy True dsp valid order ?t = Inr ?p'"
      using p1(1) by (auto simp: server_destroy_def acceptor_destroy_def bind_res_def split: sum.splits)
    have n: "tc_chan c \<noteq> ac_chan ?a" "tc_fd c \<noteq> ac_sock ?a" "channels (sv_poller ?t) (tc_fd c) = Some (tc_chan c)"
      using m [OF assms(6)] by (simp_all add: member_ok_def)
    have h: "heap ?p' (tc_chan c) = None" "channels ?p' (tc_fd c) = Some (tc_chan c)"
      using p1(2,3) n o ch(2) by (auto simp: release_def image_iff)
    have "tc_new True valid g this' q (tc_fd c) ?p' = Inl AssertFailed"
    proof -
      obtain b where "mb_new buffer_def_len = Inr b"
        by (rule mb_new_ok [of buffer_def_len]) (simp_all add: buffer_def_len_def vec_max_def)
      moreover have "index (conn_channel this' (tc_fd c)) = kNew" "ch_fd (conn_channel this' (tc_fd c)) = tc_fd c"
        by (simp_all add: set_read_callback_def set_write_callback_def channel_new_def kNew_def)
      ultimately show ?thesis
        using h(2) by (simp add: tc_new_def chan_do_def chan_apply_def el_update_channel_def update_channel_def Let_def)
    qed
    with d h show ?thesis by blast
  qed
  with e show ?thesis by blast
qed

theorem destroyed_server_leaves_entries_witness:
  "\<exists>(r :: reactor) c p'. sv_conns (rx_server r) = [9 \<mapsto> c] \<and> tc_fd c = 8 \<and>
     server_destroy True None (\<lambda>fd. True) [9] (rx_server r) = Inr p' \<and>
     tc_new True (\<lambda>fd. True) Connecting 20 21 8 p' = Inl AssertFailed"
proof -
  obtain s as r c where r: "demo_boots s" "run demo_step (rx_new 0 (10, 4) (11, 5) s) as r"
    "sv_conns (rx_server r) = [9 \<mapsto> c]" "tc_fd c = 8" "tc_chan c = 5"
    by (rule demo_accepted)
  from destroyed_server_leaves_entries [OF r(1) demo_boot demo_user r(2), of 9 c "[9]" 21 None Connecting 20] r(3-5)
  obtain p' where "server_destroy True None (\<lambda>fd. True) [9] (rx_server r) = Inr p'"
    "tc_new True (\<lambda>fd. True) Connecting 20 21 8 p' = Inl AssertFailed" by auto
  with r(3,4) show ?thesis by blast
qed

end
