(* ===== verification/Spec2Isabelle.thy ===== *)
theory Spec2Isabelle
  imports Msg_Buffer Log_System Task_Queue Loop_Thread Inet_Socket Server_Life
begin

text \<open>
  \<^bold>\<open>The program.\<close> \<open>water\<close> is a C++ network library in the reactor style. \<open>src/water/base\<close>
  holds its tools: a growable byte buffer, formatted logging with an asynchronous file
  backend, dates, and a task queue with one worker thread. \<open>src/water/net\<close> holds the
  reactor: an \<open>EventLoop\<close> per thread polls epoll through a \<open>Poller\<close>, dispatches to
  \<open>Channel\<close>s, runs timers and the functions other threads queue; \<open>Acceptor\<close>,
  \<open>TcpConnection\<close> and \<open>TcpServer\<close> build a server on it. A connection keeps its unread and
  unsent bytes in two \<open>MsgBuffer\<close>s; \<open>EventLoopThread\<close> runs a loop in a \<open>SerialTaskQueue\<close>.

  \<^bold>\<open>How it is modelled.\<close> Classes are records, enumerations are datatypes, integers keep their
  width (\<open>w word\<close>, or \<open>szt\<close> and \<open>sz_sub\<close> for \<open>size_t\<close>), \<open>char\<close> arrays and vectors are
  lists with checked raw accesses. An operation that can fail returns a sum whose left values
  are the \<open>fault\<close>s of \<open>Water_Prelude\<close>: out-of-bounds access, overlapping copy, failed
  \<open>assert\<close> (assertions are on), process exit, the call of an empty \<open>std::function\<close>, and so on.
  Sequential code is functions on the state, in the order of the source. Code with threads is
  an inductive step relation between the points where a thread takes a lock, waits or touches
  shared state; its runs, and the ways to prove something about all of them, are in \<open>Traces\<close>.
  Results of system calls, clock readings, descriptors, addresses of new objects and what
  user callbacks do are arguments. System and C library behaviour the code relies on is
  defined from its documentation (\<open>epoll_ctl\<close>, \<open>bind\<close>, \<open>fcntl\<close>, \<open>eventfd\<close>, \<open>gmtime_r\<close>,
  \<open>snprintf\<close> of integers, \<open>std::priority_queue\<close>) and otherwise an argument.

  \<^bold>\<open>Theories.\<close>
  \<^item> \<open>Water_Prelude\<close>: faults, \<open>size_t\<close>, block reads, writes and copies, windows of a vector.
  \<^item> \<open>Byte_Order\<close>: \<open>htons\<close>, \<open>htonl\<close> and \<open>funcs.h\<close>, for a little-endian host.
  \<^item> \<open>Byte_Queue\<close>: the interface between buffers and their users, a locale with the laws of a
    byte queue of bounded capacity and the first-in first-out lemma for runs of it. It is
    interpreted on \<open>MsgBuffer\<close> with either \<open>Append\<close>.
  \<^item> \<open>Traces\<close>: runs, and locales for an invariant, a balance of what enters and leaves, a
    budget of steps, a line, a relation no step takes back, and a simulation. Each threaded component interprets those it needs.
  \<^item> \<open>Msg_Buffer\<close>: \<open>MsgBuffer\<close>. Every operation under the invariant \<open>mb_inv\<close>, growth with
    its recursion bounded by the 64 bits of a size, integers in network order, \<open>AddInFront\<close>
    with its overlapping copy.
  \<^item> \<open>Decimal\<close>, \<open>Log_Stream\<close>, \<open>Date_Time\<close>, \<open>Logger_Model\<close>: decimal text, \<open>FixedBuffer\<close>
    and \<open>LogStream\<close>, \<open>Date\<close> with IEEE doubles, and \<open>Logger\<close> with its per-thread cache: what
    each stream item writes (\<open>item_text\<close> is its text, \<open>left_text\<close> what the stream leaves of it), that nothing is written outside the array, that the cached second
    is never stale. The macros, \<open>LOG_SYSERR\<close> included, are shown to write a list of items.
  \<^item> \<open>Async_Logger\<close>: \<open>AsyncFileLogger\<close> and \<open>LoggerFile\<close> with producers, flushes and the log
    thread interleaved: what is held, how lines can overtake each other, that the thread ends.
  \<^item> \<open>Log_Files\<close>: what the files on disk hold after any run of the logger, renamed ones
    (in the order of the sequence numbers in their names) and the current one: no accepted text
    is lost before the destructor, unless the file cannot be opened, and what the destructor
    writes and loses.
  \<^item> \<open>Log_System\<close>: logging as a whole. The record \<open>log_sys\<close> holds \<open>Logger\<close>'s static members,
    each thread's cache and the call it is about to make, and the \<open>AsyncFileLogger\<close> behind
    \<open>set_output_func\<close>; \<open>log_step\<close> interleaves statements, the two calls of \<open>~Logger\<close> and
    the log thread. A statement never gets stuck and never writes outside its array, its line is
    never one \<open>Output\<close> refuses, and the files hold exactly the lines, in order.
  \<^item> \<open>Task_Queue\<close>: \<open>SerialTaskQueue\<close> and \<open>TaskQueue\<close>, a refinement of a FIFO; synchronous
    tasks, and the wake-up the destructor can lose. A notified worker still competes for the mutex.
  \<^item> \<open>Timer_Queue\<close>: \<open>Timer\<close> and \<open>TimerQueue\<close> over a locale for the priority queue: which
    timers run, in which order, and with exactly which time the descriptor is armed. \<open>HandleRead\<close> is given
    whole and, as \<open>tq_begin\<close> and \<open>tq_reset\<close>, in the parts the reactor interleaves.
  \<^item> \<open>Poller_Channel\<close>: \<open>Channel\<close> and \<open>Poller\<close> with the interest list of the epoll instance.
    \<open>poller_inv\<close> ties the descriptor map, the channels' states and the interest list together;
    every operation keeps it, and the dispatch equals a list of callbacks. Channels reach the
    poller through \<open>EventLoop::UpdateChannel\<close> and \<open>RemoveChannel\<close>, which are here too; whether
    the loop is dispatching, with which current and active channels, is the argument \<open>dsp\<close> of
    every operation that removes a channel.
  \<^item> \<open>Event_Loop\<close>: \<open>EventLoop\<close> alone, over any type of functions, with its thread as a
    program counter and other threads as actions: no wake-up is lost, queued functions run in
    order; and the loop's own channels, from its constructor to its destructor.
  \<^item> \<open>Loop_Thread\<close>: \<open>EventLoopThread\<close>, the product of the task queue and the loop, with the
    lifetime of the pointer it publishes.
  \<^item> \<open>Inet_Socket\<close>: \<open>InetAddress\<close> as the bytes of its union, and \<open>Socket\<close>.
  \<^item> \<open>Tcp_Connection\<close>: \<open>TcpConnection\<close>'s handlers, its step relation and the invariant that
    pending output is watched.
  \<^item> \<open>Connection_Stream\<close>: its output as a byte queue (a run of a connection is a run of the
    queue), handlers that cannot fault, and the properties of a connection.
  \<^item> \<open>Tcp_Server\<close>: \<open>Acceptor\<close>, \<open>TcpServer\<close> with its connections in the poller of the
    loop, and the callbacks their channels are bound to. The state also keeps, for the
    statements, what was written to each descriptor, which messages it was given by whom, what was
    read from it and what its callbacks took of that.
  \<^item> \<open>Server_Inv\<close>, \<open>Server_Calls\<close>: the invariant \<open>sv_inv\<close> of the server, kept by each of
    these callbacks, by the poller's report, by \<open>Start\<close> and by the calls of users.
  \<^item> \<open>Reactor\<close>: everything together. The record \<open>reactor\<close> holds the loop, its timer queue,
    the server with the shared poller, and what is left of the callback the loop's thread is
    in; \<open>rx_step\<close> takes that thread from one call to the next, with \<open>Send\<close>, \<open>Shutdown\<close>,
    \<open>RunAt\<close>, \<open>RunAfter\<close>, \<open>RunEvery\<close>, \<open>Start\<close>, \<open>RunInLoop\<close>, \<open>QueueInLoop\<close> and \<open>set_quit\<close>
    of other threads at any point between.
  \<^item> \<open>Reactor_Inv\<close>: its invariant \<open>rx_inv\<close>, that every step keeps it, can be taken, and is a
    step (or none) of \<open>Event_Loop\<close>. \<open>Reactor_Run\<close>: runs, through the locales of \<open>Traces\<close>
    interpreted on \<open>rx_step\<close>, and the properties of the whole: nothing faults, the streams of
    bytes to and from the clients and the timers are conserved, what is queued is done.
    \<open>Server_Life\<close>: connections in these runs,
    from \<open>NewConnection\<close> to the destructor of the server.

  \<^bold>\<open>Bounds.\<close> \<open>vec_max\<close> is \<open>2\<^sup>6\<^sup>3 - 1\<close>, the \<open>max_size()\<close> of a vector of \<open>char\<close>. A buffer
  doubles, so \<open>5 N + 64 \<le> vec_max\<close> is enough for \<open>N\<close> bytes ever appended; \<open>room\<close>, \<open>2\<^sup>6\<^sup>0\<close>
  bytes, is far below it and bounds what a connection may hold, a quarter of it what one callback
  may send. The recursion of \<open>EnsureWriteableBytes\<close> has a bound of 64, more than the
  doublings a size can take, and the digit loops of \<open>Log_Stream\<close> end because the value
  shrinks. The loops of the log thread and of \<open>GetExpired\<close> are proved to end.

  \<^bold>\<open>What the composition takes from outside.\<close> In \<open>Reactor\<close> the kernel reports only
  watched channels, each once, and the eventfd only when it was written to (\<open>poll_fits\<close>);
  \<open>accept\<close> returns a descriptor that is not in use, the allocator addresses that are not in
  use, and \<open>readv\<close> stores no more than its vectors hold (\<open>turn_at\<close>, \<open>fresh_for\<close>); dates
  stay in the range of \<open>int64_t\<close> and pending output below \<open>room\<close> (\<open>make_fits\<close>,
  \<open>exec_fits\<close>, \<open>work_fits\<close>). Who calls on a connection has a pointer to it (\<open>call_ok\<close>). The
  receive callback sends, shuts down and retrieves on its own connection, at once, as
  \<open>RunInLoop\<close> runs these in the loop's thread, and no more than \<open>user_bounded\<close> allows; the
  functions and timer callbacks of the user make any of the calls above, one step each, as the
  argument \<open>body\<close> says. Loop and server are made before and outlive the runs.

  \<^bold>\<open>Not modelled.\<close> The class \<open>Fmt\<close> is declared and its constructor never defined.
  \<open>noncopyable.h\<close>, \<open>callbacks.h\<close> and \<open>water.h\<close> compute nothing. \<open>SerialTaskQueue.h\<close> is an
  older copy of \<open>serial_task_queue.h\<close> that nothing includes and that does not compile. The
  programs under \<open>src/tests\<close> are drivers that print. Log lines of the library itself, the two
  addresses of a connection (which are only logged) and messages to \<open>std::cout\<close> are left out.
  A connection is not destroyed from one of its own callbacks; no step of \<open>Reactor\<close> destroys
  one or the server, so \<open>RemoveChannel\<close> is not called there. C++ data races on plain members
  (such as \<open>quit_\<close> and \<open>stop_flag_\<close>) are taken as sequentially consistent accesses, and so are
  the log thread's test, \<open>front\<close> and \<open>pop\<close> of \<open>write_buffers_\<close>, which it makes without the mutex
  while producers push: the test is one step of \<open>al_step\<close> and \<open>front\<close> with \<open>pop\<close> another. Nothing
  in the library ignores \<open>SIGPIPE\<close>: a \<open>write\<close> to a connection whose peer has closed it would end
  the process unless the program ignores the signal; the model takes it as a \<open>write\<close> that
  returns an error.
\<close>

end
